(* ===== verification/Prelude.thy ===== *)
theory Prelude
  imports Main "HOL-Library.Word" "HOL-Library.Monad_Syntax"
begin

text \<open>
  Shared vocabulary of the development: the machine integers of the firmware
  (\<^verbatim>\<open>types_def.h\<close>: UINT8, UINT16, UINT32), byte buffers with bounds-checked reads and
  writes, C strings, network byte order, and the lemma collections that the component
  theories use.  A memory access outside a buffer is the value \<^term>\<open>None\<close>.
\<close>

unbundle bit_operations_syntax

type_synonym u8 = "8 word"
type_synonym u16 = "16 word"
type_synonym u32 = "32 word"
type_synonym u64 = "64 word"

named_theorems buf_simps \<open>bounds-checked buffer accesses\<close>
named_theorems word_nat \<open>moving machine words to natural numbers\<close>

section \<open>Machine words\<close>

text \<open>Words are compared through \<open>unat\<close>, so \<open>int (unat w)\<close> is kept as it is.\<close>

declare of_nat_unat [simp del]

lemma sint_small [word_nat]:
  fixes w :: "32 word"
  assumes "unat w < 2147483648"
  shows "sint w = int (unat w)"
proof -
  have u: "uint w = int (unat w)" by (simp add: of_nat_unat)
  have lt: "uint w < 2147483648"
    using assms unfolding u by linarith
  have ge: "- (2 ^ 31) \<le> uint w"
    by (rule order_trans [OF _ uint_ge_0]) simp
  have "sint w = signed_take_bit 31 (uint w)"
    by (simp add: sint_uint)
  also have "\<dots> = uint w"
    by (rule signed_take_bit_int_eq_self) (use ge lt in simp_all)
  finally show ?thesis by (simp only: u)
qed

lemma unat_add_small [word_nat]:
  fixes a b :: "'a::len word"
  assumes "unat a + unat b < 2 ^ LENGTH('a)"
  shows "unat (a + b) = unat a + unat b"
  using assms by (simp add: unat_word_ariths)

lemma unat_sub_le [word_nat]:
  fixes a b :: "'a::len word"
  assumes "unat b \<le> unat a"
  shows "unat (a - b) = unat a - unat b"
  using assms by (simp add: unat_sub word_le_nat_alt)

lemma unat_of_int_small [word_nat]:
  assumes "0 \<le> c" and "c < 2 ^ LENGTH('a::len)"
  shows "unat (word_of_int c :: 'a word) = nat c"
  using assms by (simp add: unat_eq_nat_uint uint_word_of_int)

lemma unat_lt_2p32: "unat (w :: u32) < 4294967296"
  using unsigned_less [of w, where ?'a = nat] by simp

text \<open>One round of a chunked copy: \<open>c\<close> of the \<open>count\<close> cells now, the rest later.\<close>

lemma chunk_count:
  assumes "0 \<le> c" and "c \<le> count" and "nat c \<le> m"
  shows "nat c + min (nat (count - c)) (m - nat c) = min (nat count) m"
proof -
  have d: "nat (count - c) = nat count - nat c" and le: "nat c \<le> nat count"
    using assms by (simp_all add: nat_diff_distrib nat_mono)
  show ?thesis
    unfolding d using le assms(3) by arith
qed

text \<open>Blocks of \<open>m\<close> cells: where the next one starts, and that a block that starts below a border fits below it.\<close>

lemma next_block:
  assumes "(x :: nat) mod m + r = m"
  shows "(x + r) mod m = 0"
proof -
  have "x + r = m * (x div m) + (x mod m + r)" by simp
  then have "x + r = m * (x div m + 1)" unfolding assms by simp
  then show ?thesis by simp
qed

lemma block_fits:
  assumes "(q :: nat) * m < k * m"
  shows "q * m + m \<le> k * m"
proof -
  have "Suc q \<le> k" using assms by simp
  then have "Suc q * m \<le> k * m" by (rule mult_le_mono1)
  then show ?thesis by simp
qed

section \<open>Network byte order\<close>

text \<open>\<open>lwip_htonl\<close> and \<open>lwip_htons\<close>: the core is little-endian, so both swap
  the bytes; \<open>lwip_ntohl\<close> and \<open>lwip_ntohs\<close> are the same functions.\<close>

definition lwip_htonl :: "u32 \<Rightarrow> u32" where
  "lwip_htonl n =
     push_bit 24 (n AND 0xff) OR push_bit 8 (n AND 0xff00)
     OR drop_bit 8 (n AND 0xff0000) OR drop_bit 24 (n AND 0xff000000)"

definition lwip_htons :: "u16 \<Rightarrow> u16" where
  "lwip_htons n = push_bit 8 (n AND 0xff) OR drop_bit 8 (n AND 0xff00)"

lemma lwip_htonl_parts: "lwip_htonl n = push_bit 24 (take_bit 8 n) OR push_bit 16 (take_bit 8 (drop_bit 8 n))
   OR push_bit 8 (take_bit 8 (drop_bit 16 n)) OR take_bit 8 (drop_bit 24 n)"
proof -
  have 1: "(0xff :: u32) = mask 8" "(0xff00 :: u32) = push_bit 8 (mask 8)"
    "(0xff0000 :: u32) = push_bit 16 (mask 8)" "(0xff000000 :: u32) = push_bit 24 (mask 8)"
    by (simp_all add: mask_eq_exp_minus_1)
  show ?thesis unfolding lwip_htonl_def 1
    by (rule bit_word_eqI) (auto simp: bit_simps)
qed

lemma bit_lwip_htonl:
  assumes k: "k < 4" and r: "r < 8"
  shows "bit (lwip_htonl x) (8 * k + r) = bit x (8 * (3 - k) + r)"
proof -
  consider "k = 0" | "k = 1" | "k = 2" | "k = 3" using k by linarith
  then show ?thesis
    by cases (use r in \<open>auto simp add: lwip_htonl_parts bit_simps ac_simps\<close>)
qed

lemma lwip_htonl_involution [simp]: "lwip_htonl (lwip_htonl x) = x"
proof (rule bit_word_eqI)
  fix n assume "n < LENGTH(32)"
  then have "n div 8 < 4" "n mod 8 < 8" "3 - n div 8 < 4" "3 - (3 - n div 8) = n div 8" by auto
  then have "bit (lwip_htonl (lwip_htonl x)) (8 * (n div 8) + n mod 8) = bit x (8 * (n div 8) + n mod 8)"
    by (simp only: bit_lwip_htonl)
  then show "bit (lwip_htonl (lwip_htonl x)) n = bit x n" by simp
qed

lemma lwip_htons_parts: "lwip_htons n = push_bit 8 (take_bit 8 n) OR (take_bit 8 (drop_bit 8 n))"
proof -
  have 1: "(0xff :: u16) = mask 8" "(0xff00 :: u16) = push_bit 8 (mask 8)"
    by (simp_all add: mask_eq_exp_minus_1)
  show ?thesis unfolding lwip_htons_def 1
    by (rule bit_word_eqI) (auto simp: bit_simps)
qed

lemma lwip_htons_involution [simp]: "lwip_htons (lwip_htons n) = n"
  by (rule bit_word_eqI) (auto simp add: lwip_htons_parts bit_simps)

text \<open>The four bytes of a word as they lie in memory, least significant first.\<close>

definition le32 :: "u32 \<Rightarrow> u8 list" where
  "le32 w = [ucast w, ucast (drop_bit 8 w), ucast (drop_bit 16 w), ucast (drop_bit 24 w)]"

definition le16 :: "u16 \<Rightarrow> u8 list" where
  "le16 w = [ucast w, ucast (drop_bit 8 w)]"

fun of_le32 :: "u8 list \<Rightarrow> u32" where
  "of_le32 [a, b, c, d] =
     ucast a OR push_bit 8 (ucast b) OR push_bit 16 (ucast c) OR push_bit 24 (ucast d)"
| "of_le32 _ = 0"

fun of_le16 :: "u8 list \<Rightarrow> u16" where
  "of_le16 [a, b] = ucast a OR push_bit 8 (ucast b)"
| "of_le16 _ = 0"

lemma length_le32 [simp]: "length (le32 w) = 4"
  by (simp add: le32_def)

lemma length_le16 [simp]: "length (le16 w) = 2"
  by (simp add: le16_def)

lemma of_le32_le32 [simp]: "of_le32 (le32 w) = w"
proof (rule bit_word_eqI)
  fix n assume "n < LENGTH(32)"
  then show "bit (of_le32 (le32 w)) n \<longleftrightarrow> bit w n"
    by (cases "n < 8"; cases "n < 16"; cases "n < 24") (auto simp: le32_def bit_simps)
qed

lemma of_le16_le16 [simp]: "of_le16 (le16 w) = w"
  by (rule bit_word_eqI) (auto simp: le16_def bit_simps)

section \<open>Buffers\<close>

text \<open>\<open>memcpy (b + off, xs, length xs)\<close>: the whole destination range must lie in the
  buffer, otherwise the access faults.\<close>

definition mem_put :: "'a list \<Rightarrow> nat \<Rightarrow> 'a list \<Rightarrow> 'a list option" where
  "mem_put b off xs =
     (if off + length xs \<le> length b
      then Some (take off b @ xs @ drop (off + length xs) b) else None)"

text \<open>\<open>memcpy (dst, b + off, n)\<close>: read \<open>n\<close> cells from the buffer.\<close>

definition mem_get :: "'a list \<Rightarrow> nat \<Rightarrow> nat \<Rightarrow> 'a list option" where
  "mem_get b off n = (if off + n \<le> length b then Some (take n (drop off b)) else None)"

lemma mem_put_length [buf_simps]: "mem_put b off xs = Some b' \<Longrightarrow> length b' = length b"
  by (auto simp: mem_put_def split: if_splits)

lemma mem_put_Some [buf_simps]:
  "off + length xs \<le> length b \<Longrightarrow>
     mem_put b off xs = Some (take off b @ xs @ drop (off + length xs) b)"
  by (simp add: mem_put_def)

lemma mem_get_Some [buf_simps]:
  "off + n \<le> length b \<Longrightarrow> mem_get b off n = Some (take n (drop off b))"
  by (simp add: mem_get_def)

lemma mem_get_length: "mem_get b off n = Some xs \<Longrightarrow> length xs = n"
  by (auto simp: mem_get_def split: if_splits)

text \<open>What was stored is what is read back.\<close>

lemma mem_get_put: "mem_put b off xs = Some b' \<Longrightarrow> mem_get b' off (length xs) = Some xs"
  by (auto simp: mem_put_def mem_get_def split: if_splits)

end
