(* ===== verification/Interfaces.thy ===== *)
theory Interfaces
  imports Prelude
begin

text \<open>
  The contracts between components, as locales: what the client calls, the laws the provider
  promises, and what the client concludes from the laws alone.  Each is interpreted on the
  model of the code that provides it, in the theory of that component.
\<close>

section \<open>A bounded FIFO\<close>

text \<open>\<open>put\<close> stores one item if there is room and says whether it did; \<open>get\<close> removes up to
  \<open>n\<close> items from the front.  A result \<^term>\<open>None\<close> is a memory fault.\<close>

datatype 'a fifo_op = Put 'a | Get nat

fun fifo_run ::
  "('s \<Rightarrow> 'a \<Rightarrow> ('s \<times> bool) option) \<Rightarrow> ('s \<Rightarrow> nat \<Rightarrow> ('s \<times> 'a list) option)
    \<Rightarrow> 's \<Rightarrow> 'a fifo_op list \<Rightarrow> ('s \<times> 'a list \<times> 'a list) option" where
  "fifo_run put get s [] = Some (s, [], [])"
| "fifo_run put get s (Put x # ops) = do {
     (s', ok) \<leftarrow> put s x;
     (t, ins, outs) \<leftarrow> fifo_run put get s' ops;
     Some (t, if ok then x # ins else ins, outs)
   }"
| "fifo_run put get s (Get n # ops) = do {
     (s', xs) \<leftarrow> get s n;
     (t, ins, outs) \<leftarrow> fifo_run put get s' ops;
     Some (t, ins, xs @ outs)
   }"

locale bounded_fifo =
  fixes put :: "'s \<Rightarrow> 'a \<Rightarrow> ('s \<times> bool) option"
    and get :: "'s \<Rightarrow> nat \<Rightarrow> ('s \<times> 'a list) option"
    and items :: "'s \<Rightarrow> 'a list"
    and cap :: "'s \<Rightarrow> nat"
    and inv :: "'s \<Rightarrow> bool"
  assumes put_law: "inv s \<Longrightarrow>
      \<exists>s'. put s x = Some (s', length (items s) < cap s) \<and> inv s' \<and> cap s' = cap s
        \<and> items s' = (if length (items s) < cap s then items s @ [x] else items s)"
    and get_law: "inv s \<Longrightarrow>
      \<exists>s'. get s n = Some (s', take n (items s)) \<and> inv s' \<and> cap s' = cap s
        \<and> items s' = drop n (items s)"
    and bound_law: "inv s \<Longrightarrow> length (items s) \<le> cap s"
begin

text \<open>Whatever the interleaving, nothing faults, the accepted items leave in the order they
  came, each once, and those not delivered yet are still inside.\<close>

lemma run_conserves:
  assumes "inv s"
  shows "\<exists>t ins outs. fifo_run put get s ops = Some (t, ins, outs) \<and> inv t \<and> cap t = cap s
    \<and> items s @ ins = outs @ items t"
  using assms
proof (induction ops arbitrary: s)
  case Nil
  then show ?case by simp
next
  case (Cons op ops)
  show ?case
  proof (cases op)
    case (Put x)
    from put_law [OF Cons.prems, of x] obtain s' where
      s': "put s x = Some (s', length (items s) < cap s)" "inv s'" "cap s' = cap s"
        "items s' = (if length (items s) < cap s then items s @ [x] else items s)"
      by blast
    from Cons.IH [OF s'(2)] obtain t ins outs where
      "fifo_run put get s' ops = Some (t, ins, outs)" "inv t" "cap t = cap s'"
        "items s' @ ins = outs @ items t"
      by blast
    then show ?thesis using s' Put by (auto split: if_splits)
  next
    case (Get n)
    from get_law [OF Cons.prems, of n] obtain s' where
      s': "get s n = Some (s', take n (items s))" "inv s'" "cap s' = cap s"
        "items s' = drop n (items s)"
      by blast
    from Cons.IH [OF s'(2)] obtain t ins outs where
      t: "fifo_run put get s' ops = Some (t, ins, outs)" "inv t" "cap t = cap s'"
        "items s' @ ins = outs @ items t"
      by blast
    have "items s @ ins = take n (items s) @ items s' @ ins"
      by (simp add: s'(4))
    also have "\<dots> = take n (items s) @ outs @ items t"
      by (simp add: t(4))
    finally show ?thesis using s'(1,3) t(1-3) Get by simp
  qed
qed

text \<open>With room for all of them, every offered item is accepted.\<close>

lemma puts_accepted:
  assumes "inv s" and "length (items s) + length xs \<le> cap s"
  shows "\<exists>t. fifo_run put get s (map Put xs) = Some (t, xs, []) \<and> inv t
    \<and> items t = items s @ xs"
  using assms
proof (induction xs arbitrary: s)
  case Nil
  then show ?case by simp
next
  case (Cons x xs)
  from put_law [OF Cons.prems(1), of x] Cons.prems(2) obtain s' where
    s': "put s x = Some (s', True)" "inv s'" "cap s' = cap s" "items s' = items s @ [x]"
    by auto
  with Cons.IH [OF s'(2)] Cons.prems(2) show ?case by auto
qed

end

section \<open>An allocator\<close>

text \<open>\<open>owned s L\<close>: the state is well formed and the blocks handed out are exactly those of
  \<open>L\<close>, address and payload size.  \<open>alloc_run\<close> is a client that frees only what it
  holds.\<close>

datatype alloc_op = Alloc u32 | Release u32

fun alloc_run ::
  "('s \<Rightarrow> u32 \<Rightarrow> ('s \<times> u32) option) \<Rightarrow> ('s \<Rightarrow> u32 \<Rightarrow> 's option)
    \<Rightarrow> 's \<Rightarrow> u32 list \<Rightarrow> alloc_op list \<Rightarrow> ('s \<times> u32 list) option" where
  "alloc_run mal fre s held [] = Some (s, held)"
| "alloc_run mal fre s held (Alloc n # ops) = do {
     (s', q) \<leftarrow> mal s n;
     alloc_run mal fre s' (if q = 0 then held else q # held) ops
   }"
| "alloc_run mal fre s held (Release q # ops) =
     (if q \<in> set held then do {
        s' \<leftarrow> fre s q;
        alloc_run mal fre s' (removeAll q held) ops
      }
      else alloc_run mal fre s held ops)"

definition disjoint_blocks :: "u32 \<times> nat \<Rightarrow> u32 \<times> nat \<Rightarrow> bool" where
  "disjoint_blocks x y \<longleftrightarrow>
     unat (fst x) + snd x \<le> unat (fst y) \<or> unat (fst y) + snd y \<le> unat (fst x)"

locale allocator =
  fixes mal :: "'s \<Rightarrow> u32 \<Rightarrow> ('s \<times> u32) option"
    and fre :: "'s \<Rightarrow> u32 \<Rightarrow> 's option"
    and owned :: "'s \<Rightarrow> (u32 \<times> nat) set \<Rightarrow> bool"
  assumes malloc_law: "owned s L \<Longrightarrow> unat n + 3 < 4294967296 \<Longrightarrow>
      \<exists>s' q. mal s n = Some (s', q) \<and>
        (if q = 0 then owned s' L
         else \<exists>k. unat n \<le> k \<and> q \<notin> fst ` L \<and> owned s' (insert (q, k) L))"
    and free_law: "owned s L \<Longrightarrow> (q, k) \<in> L \<Longrightarrow>
      \<exists>s'. fre s q = Some s' \<and> owned s' (L - {(q, k)})"
    and apart_law: "owned s L \<Longrightarrow> x \<in> L \<Longrightarrow> y \<in> L \<Longrightarrow> x = y \<or> disjoint_blocks x y"
    and inj_law: "owned s L \<Longrightarrow> inj_on fst L"
begin

text \<open>A disciplined client never faults, and at every moment holds pairwise disjoint blocks,
  each as large as what it asked for.\<close>

lemma run_safe:
  assumes "owned s L" and "fst ` L = set held"
    and "\<forall>n. Alloc n \<in> set ops \<longrightarrow> unat n + 3 < 4294967296"
  shows "\<exists>t K held'. alloc_run mal fre s held ops = Some (t, held') \<and> owned t K
    \<and> fst ` K = set held' \<and> pairwise disjoint_blocks K"
  using assms
proof (induction ops arbitrary: s L held)
  case Nil
  have "pairwise disjoint_blocks L"
    by (rule pairwiseI) (use apart_law [OF Nil.prems(1)] in blast)
  with Nil show ?case
    by (intro exI [of _ s] exI [of _ L] exI [of _ held]) simp
next
  case (Cons op ops)
  show ?case
  proof (cases op)
    case (Alloc n)
    with malloc_law [OF Cons.prems(1), of n] Cons.prems(3) obtain s' q where
      m: "mal s n = Some (s', q)" and r: "if q = 0 then owned s' L
         else \<exists>k. unat n \<le> k \<and> q \<notin> fst ` L \<and> owned s' (insert (q, k) L)"
      by auto
    show ?thesis
    proof (cases "q = 0")
      case True
      with Cons.IH [of s' L held] r Cons.prems m show ?thesis by (simp add: Alloc)
    next
      case False
      with r obtain k where "owned s' (insert (q, k) L)" by auto
      from Cons.IH [OF this, of "q # held"] Cons.prems m False show ?thesis
        by (simp add: Alloc)
    qed
  next
    case (Release q)
    show ?thesis
    proof (cases "q \<in> set held")
      case True
      with Cons.prems(2) obtain k where k: "(q, k) \<in> L" by force
      from free_law [OF Cons.prems(1) k] obtain s' where
        s': "fre s q = Some s'" "owned s' (L - {(q, k)})" by blast
      have "fst ` (L - {(q, k)}) = set (removeAll q held)"
        using inj_on_image_set_diff [OF inj_law [OF Cons.prems(1)], of L "{(q, k)}"] k Cons.prems(2)
        by (simp add: set_removeAll)
      moreover have "\<forall>n. Alloc n \<in> set ops \<longrightarrow> unat n + 3 < 4294967296"
        using Cons.prems(3) by simp
      ultimately have "\<exists>t K held'. alloc_run mal fre s' (removeAll q held) ops = Some (t, held')
          \<and> owned t K \<and> fst ` K = set held' \<and> pairwise disjoint_blocks K"
        by (rule Cons.IH [OF s'(2)])
      then show ?thesis using s'(1) True by (simp add: Release)
    next
      case False
      with Cons.IH [OF Cons.prems(1,2)] Cons.prems(3) show ?thesis by (simp add: Release)
    qed
  qed
qed

end

end
