(* ===== verification/DynMem.thy ===== *)
theory DynMem
  imports Interfaces
begin

text \<open>
  The pool allocator behind \<open>OSMMalloc\<close> and \<open>OSMFree\<close>, \<^verbatim>\<open>Ports/Cortex-M3/os_dmem.c\<close>.
  Blocks carry a header (\<open>DM_HEADER\<close>) and form a circular doubly linked list that ends in a
  trailer header.  The store is explicit: a map from 32-bit addresses to headers and one from
  addresses to pool control blocks; pointer arithmetic is word arithmetic; touching an address
  without a header is the fault \<^term>\<open>None\<close>.

  First the code, then the shape invariant \<open>dm_inv\<close> over the list of blocks, then one lemma
  per operation, then the contract (\<open>allocator\<close>) the rest of the firmware relies on.
  \<open>OS_ARG_CHK_EN\<close> is 0 in \<^verbatim>\<open>os_cfg.h\<close>, so the argument checks are not compiled;
  the critical sections make each operation atomic.
\<close>

section \<open>The code\<close>

record dm_header =
  dm_next_memory :: u32
  dm_previous_memory :: u32
  dm_memory_free :: bool
  dm_memory_pool :: u32

record dm_pcb =
  dm_created :: "u32 \<times> u32"
  dm_id :: u32
  dm_name :: "u8 list"
  dm_start_address :: u32
  dm_pool_size :: u32
  dm_min_allocation :: u32
  dm_available :: u32
  dm_memory_list :: u32
  dm_search_ptr :: u32

type_synonym dm_heap = "u32 \<rightharpoonup> dm_header"

record dmem =
  dm_headers :: dm_heap
  dm_pools :: "u32 \<rightharpoonup> dm_pcb"
  DMD_Total_Pools :: u32

abbreviation OS_ERR_NONE :: u8 where "OS_ERR_NONE \<equiv> 0"
abbreviation OS_ERR_MEM_FULL :: u8 where "OS_ERR_MEM_FULL \<equiv> 94"

definition DM_OVERHEAD :: u32 where
  "DM_OVERHEAD = 16"

definition DM_DYNAMIC_ID :: u32 where
  "DM_DYNAMIC_ID = 0x44594e41"

text \<open>\<open>p->field = v\<close> through a header pointer.\<close>

definition set_header :: "dm_heap \<Rightarrow> u32 \<Rightarrow> (dm_header \<Rightarrow> dm_header) \<Rightarrow> dm_heap option" where
  "set_header hs p f = map_option (\<lambda>h. hs(p \<mapsto> f h)) (hs p)"

definition OS_Create_Memory_Pool ::
  "dmem \<Rightarrow> u32 \<Rightarrow> u8 list \<Rightarrow> u32 \<Rightarrow> u32 \<Rightarrow> u32 \<Rightarrow> (dmem \<times> u8) option" where
  "OS_Create_Memory_Pool s pool_ptr name start_address pool_size min_allocation = do {
     nm \<leftarrow> mem_get name 0 4;
     let sz = pool_size div 4 * 4;
     let available = sz - 2 * DM_OVERHEAD;
     let trailer = start_address + available + DM_OVERHEAD;
     let pool = \<lparr>dm_created = (0, 0), dm_id = DM_DYNAMIC_ID, dm_name = nm,
       dm_start_address = start_address, dm_pool_size = sz,
       dm_min_allocation = (min_allocation + 4 - 1) div 4 * 4,
       dm_available = available, dm_memory_list = start_address,
       dm_search_ptr = start_address\<rparr>;
     let hs1 = (dm_headers s)(start_address \<mapsto>
       \<lparr>dm_next_memory = trailer, dm_previous_memory = trailer, dm_memory_free = True,
        dm_memory_pool = pool_ptr\<rparr>);
     let hs2 = hs1(trailer \<mapsto>
       \<lparr>dm_next_memory = start_address, dm_previous_memory = start_address,
        dm_memory_free = False, dm_memory_pool = pool_ptr\<rparr>);
     Some (s\<lparr>dm_headers := hs2, dm_pools := (dm_pools s)(pool_ptr \<mapsto> pool),
             DMD_Total_Pools := DMD_Total_Pools s + 1\<rparr>, OS_ERR_NONE)
   }"

definition OS_DelMemPool :: "dmem \<Rightarrow> u32 \<Rightarrow> (dmem \<times> u8) option" where
  "OS_DelMemPool s pool_ptr = do {
     pool \<leftarrow> dm_pools s pool_ptr;
     Some (s\<lparr>dm_pools := (dm_pools s)(pool_ptr \<mapsto> pool\<lparr>dm_id := 0\<rparr>),
             DMD_Total_Pools := DMD_Total_Pools s - 1\<rparr>, OS_ERR_NONE)
   }"

text \<open>The request rounded as \<open>OS_GetMem\<close> rounds it; the addition wraps at 2^32.\<close>

definition dm_round :: "u32 \<Rightarrow> u32 \<Rightarrow> u32" where
  "dm_round min_allocation sz =
     (if sz < min_allocation then min_allocation else (sz + 4 - 1) div 4 * 4)"

text \<open>The search loop: \<open>do ... while (free_size < size && memory_ptr != search_ptr)\<close>.\<close>

partial_function (option) dm_search ::
  "dm_heap \<Rightarrow> u32 \<Rightarrow> u32 \<Rightarrow> u32 \<Rightarrow> (u32 \<times> u32) option" where
  "dm_search hs search_ptr sz memory_ptr =
     (case hs memory_ptr of
        None \<Rightarrow> None
      | Some h \<Rightarrow>
          (let free_size = (if dm_memory_free h
             then dm_next_memory h - memory_ptr - DM_OVERHEAD else 0) in
           if free_size < sz then
             (if dm_next_memory h \<noteq> search_ptr
              then dm_search hs search_ptr sz (dm_next_memory h)
              else Some (dm_next_memory h, free_size))
           else Some (memory_ptr, free_size)))"

text \<open>Splitting the block found: the new header, the back link of the next block, the
  forward link of this one.\<close>

definition dm_split :: "dm_heap \<Rightarrow> u32 \<Rightarrow> u32 \<Rightarrow> u32 \<Rightarrow> dm_heap option" where
  "dm_split hs pool_ptr memory_ptr sz = do {
     let new_ptr = memory_ptr + sz + DM_OVERHEAD;
     m \<leftarrow> hs memory_ptr;
     let hs1 = hs(new_ptr \<mapsto>
       \<lparr>dm_next_memory = dm_next_memory m, dm_previous_memory = memory_ptr,
        dm_memory_free = True, dm_memory_pool = pool_ptr\<rparr>);
     hs2 \<leftarrow> set_header hs1 (dm_next_memory m) (dm_previous_memory_update (\<lambda>_. new_ptr));
     set_header hs2 memory_ptr (dm_next_memory_update (\<lambda>_. new_ptr))
   }"

definition OS_GetMem :: "dmem \<Rightarrow> u32 \<Rightarrow> u32 \<Rightarrow> (dmem \<times> u8 \<times> u32) option" where
  "OS_GetMem s pool_ptr request = do {
     pool \<leftarrow> dm_pools s pool_ptr;
     let sz = dm_round (dm_min_allocation pool) request;
     (memory_ptr, free_size) \<leftarrow>
       dm_search (dm_headers s) (dm_search_ptr pool) sz (dm_search_ptr pool);
     if sz \<le> free_size then do {
       (hs, available) \<leftarrow>
         (if sz + DM_OVERHEAD + dm_min_allocation pool \<le> free_size
          then map_option (\<lambda>hs. (hs, dm_available pool - sz - DM_OVERHEAD))
                 (dm_split (dm_headers s) pool_ptr memory_ptr sz)
          else Some (dm_headers s, dm_available pool - free_size));
       hs' \<leftarrow> set_header hs memory_ptr (dm_memory_free_update (\<lambda>_. False));
       m \<leftarrow> hs' memory_ptr;
       let search = (if dm_search_ptr pool = memory_ptr then dm_next_memory m
                     else dm_search_ptr pool);
       Some (s\<lparr>dm_headers := hs', dm_pools := (dm_pools s)(pool_ptr \<mapsto>
                 pool\<lparr>dm_available := available, dm_search_ptr := search\<rparr>)\<rparr>,
             OS_ERR_NONE, memory_ptr + DM_OVERHEAD)
     }
     else Some (s, OS_ERR_MEM_FULL, 0)
   }"

text \<open>The two merges of \<open>OS_FreeMem\<close>.  Each returns the store, the pool's byte count, the
  header that now stands for the block and the search pointer.\<close>

definition dm_merge_previous ::
  "dm_heap \<Rightarrow> u32 \<Rightarrow> u32 \<Rightarrow> u32 \<Rightarrow> (dm_heap \<times> u32 \<times> u32 \<times> u32) option" where
  "dm_merge_previous hs header_ptr available search = do {
     h \<leftarrow> hs header_ptr;
     p \<leftarrow> hs (dm_previous_memory h);
     if dm_memory_free p then do {
       hs1 \<leftarrow> set_header hs (dm_previous_memory h)
                (dm_next_memory_update (\<lambda>_. dm_next_memory h));
       h1 \<leftarrow> hs1 header_ptr;
       hs2 \<leftarrow> set_header hs1 (dm_next_memory h1)
                (dm_previous_memory_update (\<lambda>_. dm_previous_memory h1));
       h2 \<leftarrow> hs2 header_ptr;
       Some (hs2, available + DM_OVERHEAD, dm_previous_memory h2, dm_previous_memory h2)
     }
     else Some (hs, available, header_ptr, search)
   }"

definition dm_merge_next ::
  "dm_heap \<Rightarrow> u32 \<Rightarrow> u32 \<Rightarrow> u32 \<Rightarrow> (dm_heap \<times> u32 \<times> u32) option" where
  "dm_merge_next hs header_ptr available search = do {
     h \<leftarrow> hs header_ptr;
     n \<leftarrow> hs (dm_next_memory h);
     if dm_memory_free n then do {
       let new_ptr = dm_next_memory h;
       hs1 \<leftarrow> set_header hs (dm_next_memory n) (dm_previous_memory_update (\<lambda>_. header_ptr));
       n1 \<leftarrow> hs1 new_ptr;
       hs2 \<leftarrow> set_header hs1 header_ptr (dm_next_memory_update (\<lambda>_. dm_next_memory n1));
       Some (hs2, available + DM_OVERHEAD, header_ptr)
     }
     else Some (hs, available, search)
   }"

definition OS_FreeMem :: "dmem \<Rightarrow> u32 \<Rightarrow> (dmem \<times> u8) option" where
  "OS_FreeMem s memory = do {
     let header_ptr = memory - DM_OVERHEAD;
     h \<leftarrow> dm_headers s header_ptr;
     let pool_ptr = dm_memory_pool h;
     pool \<leftarrow> dm_pools s pool_ptr;
     hs0 \<leftarrow> set_header (dm_headers s) header_ptr (dm_memory_free_update (\<lambda>_. True));
     let available = dm_available pool + (dm_next_memory h - header_ptr) - DM_OVERHEAD;
     (hs1, available1, header1, search1) \<leftarrow>
       dm_merge_previous hs0 header_ptr available (dm_search_ptr pool);
     (hs2, available2, search2) \<leftarrow> dm_merge_next hs1 header1 available1 search1;
     Some (s\<lparr>dm_headers := hs2, dm_pools := (dm_pools s)(pool_ptr \<mapsto>
               pool\<lparr>dm_available := available2, dm_search_ptr := search2\<rparr>)\<rparr>, OS_ERR_NONE)
   }"

section \<open>The shape of a pool\<close>

text \<open>A pool is described by its blocks in address order: the header address and whether the
  block is free.  \<open>seg\<close> says that the store holds these headers, linked both ways, between
  a predecessor and a successor.\<close>

type_synonym blocks = "(u32 \<times> bool) list"

definition first_addr :: "blocks \<Rightarrow> u32 \<Rightarrow> u32" where
  "first_addr bs nxt = (case bs of [] \<Rightarrow> nxt | b # _ \<Rightarrow> fst b)"

definition last_addr :: "u32 \<Rightarrow> blocks \<Rightarrow> u32" where
  "last_addr prv bs = (if bs = [] then prv else fst (last bs))"

fun seg :: "dm_heap \<Rightarrow> u32 \<Rightarrow> u32 \<Rightarrow> blocks \<Rightarrow> u32 \<Rightarrow> bool" where
  "seg hs pp prv [] nxt = True"
| "seg hs pp prv ((a, f) # bs) nxt =
     (hs a = Some \<lparr>dm_next_memory = first_addr bs nxt, dm_previous_memory = prv,
                   dm_memory_free = f, dm_memory_pool = pp\<rparr>
      \<and> seg hs pp a bs nxt)"

lemma first_addr_simps [simp]:
  "first_addr [] nxt = nxt" "first_addr (b # bs) nxt = fst b"
  by (simp_all add: first_addr_def)

lemma first_addr_append [simp]: "first_addr (xs @ ys) nxt = first_addr xs (first_addr ys nxt)"
  by (cases xs) simp_all

lemma first_addr_hd: "bs \<noteq> [] \<Longrightarrow> first_addr bs nxt = fst (hd bs)"
  by (cases bs) simp_all

lemma last_addr_simps [simp]:
  "last_addr prv [] = prv" "last_addr prv (b # bs) = last_addr (fst b) bs"
  by (simp_all add: last_addr_def)

lemma last_addr_append [simp]: "last_addr prv (xs @ ys) = last_addr (last_addr prv xs) ys"
  by (simp add: last_addr_def)

lemma last_addr_last: "bs \<noteq> [] \<Longrightarrow> last_addr prv bs = fst (last bs)"
  by (simp add: last_addr_def)

lemma seg_append [simp]:
  "seg hs pp prv (xs @ ys) nxt \<longleftrightarrow>
     seg hs pp prv xs (first_addr ys nxt) \<and> seg hs pp (last_addr prv xs) ys nxt"
proof (induction xs arbitrary: prv)
  case (Cons x xs)
  then show ?case by (cases x) (simp add: conj_assoc)
qed simp

lemma seg_rotate:
  "xs \<noteq> [] \<Longrightarrow> ys \<noteq> [] \<Longrightarrow>
     seg hs pp (fst (last (xs @ ys))) (xs @ ys) (fst (hd (xs @ ys))) \<longleftrightarrow>
     seg hs pp (fst (last (ys @ xs))) (ys @ xs) (fst (hd (ys @ xs)))"
  by (auto simp: first_addr_hd last_addr_last)

lemma seg_upd [simp]: "a \<notin> fst ` set bs \<Longrightarrow> seg (hs(a := v)) pp prv bs nxt = seg hs pp prv bs nxt"
  by (induction bs arbitrary: prv) auto

text \<open>Blocks lie in address order, a header apart at least.\<close>

definition before :: "u32 \<times> bool \<Rightarrow> u32 \<times> bool \<Rightarrow> bool" where
  "before x y \<longleftrightarrow> unat (fst x) + 16 \<le> unat (fst y)"

definition ordered :: "blocks \<Rightarrow> bool" where
  "ordered bs \<longleftrightarrow> sorted_wrt before bs"

text \<open>No two neighbours are both free: every free run is one block.\<close>

definition coalesced :: "blocks \<Rightarrow> bool" where
  "coalesced bs \<longleftrightarrow> successively (\<lambda>x y. \<not> (snd x \<and> snd y)) bs"

text \<open>The bytes in the free blocks.\<close>

fun free_bytes :: "blocks \<Rightarrow> u32 \<Rightarrow> nat" where
  "free_bytes [] nxt = 0"
| "free_bytes ((a, f) # bs) nxt =
     (if f then unat (first_addr bs nxt) - unat a - 16 else 0) + free_bytes bs nxt"

lemma free_bytes_append [simp]:
  "free_bytes (xs @ ys) nxt = free_bytes xs (first_addr ys nxt) + free_bytes ys nxt"
  by (induction xs) auto

lemma ordered_append [simp]:
  "ordered (xs @ ys) \<longleftrightarrow> ordered xs \<and> ordered ys \<and> (\<forall>x\<in>set xs. \<forall>y\<in>set ys. before x y)"
  by (simp add: ordered_def sorted_wrt_append)

lemma ordered_Cons [simp]:
  "ordered (x # ys) \<longleftrightarrow> (\<forall>y\<in>set ys. before x y) \<and> ordered ys"
  by (simp add: ordered_def)

lemma ordered_Nil [simp]: "ordered []"
  by (simp add: ordered_def)

lemma coalesced_append:
  "coalesced (xs @ ys) \<longleftrightarrow> coalesced xs \<and> coalesced ys
     \<and> (xs \<noteq> [] \<longrightarrow> ys \<noteq> [] \<longrightarrow> \<not> (snd (last xs) \<and> snd (hd ys)))"
  by (auto simp: coalesced_def successively_append_iff)

lemma coalesced_Cons:
  "coalesced (x # ys) \<longleftrightarrow> coalesced ys \<and> (ys \<noteq> [] \<longrightarrow> \<not> (snd x \<and> snd (hd ys)))"
  by (cases ys) (auto simp: coalesced_def)

lemma coalesced_Nil [simp]: "coalesced []"
  by (simp add: coalesced_def)

lemma ordered_distinct: "ordered bs \<Longrightarrow> distinct (map fst bs)"
  by (induction bs) (auto simp: before_def)

text \<open>The invariant of a pool: the control block, the ring of headers from the start address
  to the trailer, and the byte count.\<close>

definition pool_wf :: "dm_pcb \<Rightarrow> bool" where
  "pool_wf p \<longleftrightarrow> 32 \<le> unat (dm_pool_size p)
     \<and> unat (dm_start_address p) + unat (dm_pool_size p) < 4294967296
     \<and> unat (dm_pool_size p) + unat (dm_min_allocation p) + 16 < 4294967296
     \<and> 4 dvd unat (dm_start_address p) \<and> 4 dvd unat (dm_pool_size p)
     \<and> 4 dvd unat (dm_min_allocation p) \<and> 0 < unat (dm_min_allocation p)"

definition trailer_addr :: "dm_pcb \<Rightarrow> u32" where
  "trailer_addr p = dm_start_address p + dm_pool_size p - 16"

definition pool_shape :: "dm_heap \<Rightarrow> u32 \<Rightarrow> dm_pcb \<Rightarrow> blocks \<Rightarrow> bool" where
  "pool_shape hs pp p bs \<longleftrightarrow> pool_wf p \<and> bs \<noteq> []
     \<and> seg hs pp (fst (last bs)) bs (fst (hd bs))
     \<and> ordered bs \<and> coalesced bs
     \<and> fst (hd bs) = dm_start_address p \<and> last bs = (trailer_addr p, False)
     \<and> (\<forall>b\<in>set bs. 4 dvd unat (fst b))
     \<and> dm_search_ptr p \<in> fst ` set bs
     \<and> unat (dm_available p) = free_bytes bs (fst (hd bs))"

definition dm_inv :: "dmem \<Rightarrow> u32 \<Rightarrow> blocks \<Rightarrow> bool" where
  "dm_inv s pp bs \<longleftrightarrow> (\<exists>p. dm_pools s pp = Some p \<and> pool_shape (dm_headers s) pp p bs)"

text \<open>What no operation changes: where the pool lies, its size and its smallest block.\<close>

definition dm_geometry :: "dmem \<Rightarrow> u32 \<Rightarrow> (u32 \<times> u32 \<times> u32) option" where
  "dm_geometry s pp = map_option
     (\<lambda>p. (dm_start_address p, dm_pool_size p, dm_min_allocation p)) (dm_pools s pp)"

lemma unat_trailer:
  "pool_wf p \<Longrightarrow> unat (trailer_addr p) = unat (dm_start_address p) + unat (dm_pool_size p) - 16"
  by (simp add: trailer_addr_def pool_wf_def unat_add_small unat_sub_le)

section \<open>Creating a pool\<close>

lemma unat_round4: "unat (w div 4 * 4 :: u32) = unat w div 4 * 4"
proof -
  have "unat w div 4 * 4 \<le> unat w" by simp
  then have "unat w div 4 * 4 < 4294967296" using unat_lt_2p32 [of w] by linarith
  moreover have "unat w div 4 < 4294967296" using unat_lt_2p32 [of w] by linarith
  ultimately show ?thesis by (simp add: unat_word_ariths unat_div)
qed

lemma create_pool_ok:
  assumes name: "4 \<le> length name"
    and size: "35 \<le> unat pool_size"
    and addr: "unat start + unat pool_size < 4294967296" "4 dvd unat start"
    and minimum: "0 < unat m" "unat pool_size + unat m + 19 < 4294967296"
  shows "\<exists>s' p. OS_Create_Memory_Pool s pp name start pool_size m = Some (s', OS_ERR_NONE)
    \<and> dm_pools s' pp = Some p \<and> dm_start_address p = start
    \<and> dm_inv s' pp [(start, True), (trailer_addr p, False)]
    \<and> unat (dm_available p) = unat pool_size div 4 * 4 - 32
    \<and> dm_pool_size p = pool_size div 4 * 4 \<and> dm_min_allocation p = (m + 4 - 1) div 4 * 4"
proof -
  let ?sz = "pool_size div 4 * 4" and ?m = "(m + 4 - 1) div 4 * 4"
  have sz: "unat ?sz = unat pool_size div 4 * 4"
    by (rule unat_round4)
  then have ge: "32 \<le> unat ?sz" and le: "unat ?sz \<le> unat pool_size"
    using size by linarith+
  have "unat (m + 3) = unat m + 3"
    using minimum by (simp add: unat_add_small)
  moreover have "m + 4 - 1 = m + 3" by simp
  ultimately have m: "unat ?m = (unat m + 3) div 4 * 4"
    unfolding unat_round4 by metis
  have avail: "unat (?sz - 32) = unat ?sz - 32"
    using ge by (simp add: unat_sub_le)
  have tr: "start + (?sz - 32) + 16 = start + ?sz - 16"
    by simp
  have utr: "unat (start + ?sz - 16) = unat start + unat ?sz - 16"
    using ge le addr by (simp add: unat_add_small unat_sub_le)
  have ne: "start \<noteq> start + ?sz - 16"
  proof
    assume "start = start + ?sz - 16"
    then have "unat start = unat start + unat ?sz - 16" using utr by metis
    with ge show False by linarith
  qed
  define p where "p = \<lparr>dm_created = (0, 0), dm_id = DM_DYNAMIC_ID, dm_name = take 4 name,
    dm_start_address = start, dm_pool_size = ?sz, dm_min_allocation = ?m,
    dm_available = ?sz - 32, dm_memory_list = start, dm_search_ptr = start\<rparr>"
  define hs where "hs = (dm_headers s)
    (start \<mapsto> \<lparr>dm_next_memory = trailer_addr p, dm_previous_memory = trailer_addr p,
       dm_memory_free = True, dm_memory_pool = pp\<rparr>,
     trailer_addr p \<mapsto> \<lparr>dm_next_memory = start, dm_previous_memory = start,
       dm_memory_free = False, dm_memory_pool = pp\<rparr>)"
  have t: "trailer_addr p = start + ?sz - 16"
    by (simp add: p_def trailer_addr_def)
  have run: "OS_Create_Memory_Pool s pp name start pool_size m =
      Some (s\<lparr>dm_headers := hs, dm_pools := (dm_pools s)(pp \<mapsto> p),
              DMD_Total_Pools := DMD_Total_Pools s + 1\<rparr>, OS_ERR_NONE)"
    using name tr
    by (simp add: OS_Create_Memory_Pool_def mem_get_def Let_def DM_OVERHEAD_def hs_def p_def
        trailer_addr_def)
  have wf: "pool_wf p"
    using ge le addr minimum m sz by (auto simp: pool_wf_def p_def)
  have "pool_shape hs pp p [(start, True), (trailer_addr p, False)]"
    unfolding pool_shape_def
    using wf ne ge addr utr avail sz
    by (auto simp: hs_def t before_def coalesced_Cons) (auto simp: p_def)
  with run show ?thesis
    by (auto simp: dm_inv_def p_def sz avail)
qed

section \<open>The search\<close>

text \<open>The specification of next fit: the first free block, in ring order from the search
  pointer, whose payload is large enough.\<close>

fun find_fit :: "nat \<Rightarrow> blocks \<Rightarrow> u32 \<Rightarrow> u32 option" where
  "find_fit n [] nxt = None"
| "find_fit n ((a, f) # bs) nxt =
     (if f \<and> n \<le> unat (first_addr bs nxt) - unat a - 16 then Some a else find_fit n bs nxt)"

text \<open>The free blocks with their payload sizes.\<close>

fun free_list :: "blocks \<Rightarrow> u32 \<Rightarrow> (u32 \<times> nat) list" where
  "free_list [] nxt = []"
| "free_list ((a, f) # bs) nxt =
     (if f then [(a, unat (first_addr bs nxt) - unat a - 16)] else []) @ free_list bs nxt"

lemma free_list_append [simp]:
  "free_list (xs @ ys) nxt = free_list xs (first_addr ys nxt) @ free_list ys nxt"
  by (induction xs) auto

lemma free_list_split:
  "(b, k) \<in> set (free_list bs nxt) \<Longrightarrow>
     \<exists>us vs. bs = us @ (b, True) # vs \<and> k = unat (first_addr vs nxt) - unat b - 16"
proof (induction bs)
  case (Cons x bs)
  then consider "x = (b, True)" "k = unat (first_addr bs nxt) - unat b - 16"
    | "(b, k) \<in> set (free_list bs nxt)"
    by (cases x) (auto split: if_splits)
  then show ?case
  proof cases
    case 1
    then show ?thesis by (metis append_Nil)
  next
    case 2
    then show ?thesis using Cons.IH by (metis append_Cons)
  qed
qed simp

lemma find_fit_None: "find_fit n bs nxt = None \<longleftrightarrow> (\<forall>(b, k)\<in>set (free_list bs nxt). k < n)"
  by (induction bs) (auto split: if_splits)

fun gaps :: "blocks \<Rightarrow> u32 \<Rightarrow> bool" where
  "gaps [] nxt = True"
| "gaps ((a, f) # bs) nxt =
     ((f \<longrightarrow> unat a + 16 \<le> unat (first_addr bs nxt)) \<and> gaps bs nxt)"

lemma gaps_append [simp]: "gaps (xs @ ys) nxt \<longleftrightarrow> gaps xs (first_addr ys nxt) \<and> gaps ys nxt"
  by (induction xs) auto

lemma search_seg:
  assumes "seg hs pp prv zs nxt" and "gaps zs nxt" and "zs \<noteq> []" and "0 < sz"
    and "nxt \<notin> fst ` set (tl zs)"
  shows "\<exists>a fs. dm_search hs nxt sz (fst (hd zs)) = Some (a, fs) \<and>
    (case find_fit (unat sz) zs nxt of None \<Rightarrow> fs < sz
     | Some b \<Rightarrow> a = b \<and> sz \<le> fs \<and> (b, unat fs) \<in> set (free_list zs nxt))"
  using assms
proof (induction zs arbitrary: prv)
  case Nil
  then show ?case by simp
next
  case (Cons z zs)
  obtain a f where z: "z = (a, f)" by (cases z)
  let ?n = "first_addr zs nxt"
  let ?fs = "if f then ?n - a - DM_OVERHEAD else 0"
  have hs: "hs a = Some \<lparr>dm_next_memory = ?n, dm_previous_memory = prv, dm_memory_free = f,
      dm_memory_pool = pp\<rparr>" and sg: "seg hs pp a zs nxt"
    using Cons.prems(1) z by auto
  have fs: "unat ?fs = (if f then unat ?n - unat a - 16 else 0)"
    using Cons.prems(2) z by (auto simp: DM_OVERHEAD_def unat_sub_le)
  have unf: "dm_search hs nxt sz a = (if ?fs < sz
      then (if ?n \<noteq> nxt then dm_search hs nxt sz ?n else Some (?n, ?fs)) else Some (a, ?fs))"
    by (subst dm_search.simps) (simp add: hs Let_def)
  show ?case
  proof (cases "?fs < sz")
    case False
    then have "find_fit (unat sz) (z # zs) nxt = Some a"
      using fs z Cons.prems(4) by (auto simp: word_less_nat_alt split: if_splits)
    with False show ?thesis
      using unf fs z Cons.prems(4) by (fastforce split: if_splits)
  next
    case True
    then have ff: "find_fit (unat sz) (z # zs) nxt = find_fit (unat sz) zs nxt"
      using fs z by (auto simp: word_less_nat_alt split: if_splits)
    show ?thesis
    proof (cases "zs = []")
      case True
      with \<open>?fs < sz\<close> show ?thesis using unf ff z by simp
    next
      case False
      then have n: "?n = fst (hd zs)" "?n \<noteq> nxt"
        using Cons.prems(5) by (auto simp: first_addr_hd)
      have "nxt \<notin> fst ` set (tl zs)"
        using Cons.prems(5) False by (cases zs) auto
      with Cons.IH [OF sg _ False Cons.prems(4)] Cons.prems(2) z
      obtain b fs' where r: "dm_search hs nxt sz (fst (hd zs)) = Some (b, fs')"
        "case find_fit (unat sz) zs nxt of None \<Rightarrow> fs' < sz
         | Some b' \<Rightarrow> b = b' \<and> sz \<le> fs' \<and> (b', unat fs') \<in> set (free_list zs nxt)"
        by auto
      then show ?thesis
        using unf ff z True n
        by (auto split: option.splits)
    qed
  qed
qed

lemma gaps_ordered: "ordered bs \<Longrightarrow> bs \<noteq> [] \<Longrightarrow> \<not> snd (last bs) \<Longrightarrow> gaps bs nxt"
proof (induction bs)
  case (Cons x bs)
  then show ?case by (cases x; cases bs) (auto simp: before_def)
qed simp

text \<open>The search from any block of a well-formed pool ends, and finds a free block of at least
  the wanted size if there is one.\<close>

lemma search_pool:
  assumes shape: "pool_shape hs pp p bs" and sz: "0 < sz"
  shows "\<exists>a fs. dm_search hs (dm_search_ptr p) sz (dm_search_ptr p) = Some (a, fs) \<and>
    (if \<forall>(b, k)\<in>set (free_list bs (dm_start_address p)). k < unat sz then fs < sz
     else sz \<le> fs \<and> (a, unat fs) \<in> set (free_list bs (dm_start_address p)))"
proof -
  from shape obtain f where "(dm_search_ptr p, f) \<in> set bs"
    by (auto simp: pool_shape_def)
  then obtain xs ys where bs: "bs = xs @ (dm_search_ptr p, f) # ys"
    by (meson split_list)
  let ?q = "dm_search_ptr p"
  let ?zs = "((?q, f) # ys) @ xs"
  have start: "dm_start_address p = first_addr xs ?q"
    using shape by (auto simp: pool_shape_def bs first_addr_def split: list.splits)
  have lst: "\<not> snd (last bs)" and sg: "seg hs pp (fst (last bs)) bs (dm_start_address p)"
    and ord: "ordered bs" and ne: "bs \<noteq> []"
    using shape by (auto simp: pool_shape_def)
  have fl: "set (free_list ?zs ?q) = set (free_list bs (dm_start_address p))"
    by (auto simp: bs start)
  have "gaps bs (dm_start_address p)"
    by (rule gaps_ordered [OF ord ne lst])
  then have gz: "gaps ?zs ?q"
    by (simp add: bs start)
  have "seg hs pp (fst (last bs)) bs (fst (hd bs))"
    using shape unfolding pool_shape_def by blast
  then have sz': "seg hs pp (fst (last ?zs)) ?zs ?q"
    using seg_rotate [of xs "(?q, f) # ys" hs pp] by (cases "xs = []") (simp_all add: bs)
  have "?q \<notin> fst ` set (tl ?zs)"
    using ordered_distinct [OF ord] by (auto simp: bs)
  from search_seg [OF sz' gz _ sz this] obtain a fs where
    run: "dm_search hs ?q sz ?q = Some (a, fs)"
    and res: "case find_fit (unat sz) ?zs ?q of None \<Rightarrow> fs < sz
      | Some b \<Rightarrow> a = b \<and> sz \<le> fs \<and> (b, unat fs) \<in> set (free_list ?zs ?q)"
    by auto
  define none where
    "none \<longleftrightarrow> (\<forall>(b, k)\<in>set (free_list bs (dm_start_address p)). k < unat sz)"
  have "find_fit (unat sz) ?zs ?q = None \<longleftrightarrow> none"
    unfolding none_def find_fit_None fl ..
  then show ?thesis
    using run res unfolding none_def [symmetric] fl
    by (cases "find_fit (unat sz) ?zs ?q") (simp_all del: append_Cons find_fit.simps)
qed

section \<open>Allocation\<close>

text \<open>The block list after the block at \<open>a\<close> has been taken: split when what is left can
  hold a header and a minimal block.\<close>

definition take_block :: "u32 \<Rightarrow> u32 \<Rightarrow> blocks \<Rightarrow> u32 \<Rightarrow> u32 \<Rightarrow> blocks \<Rightarrow> blocks" where
  "take_block m sz us a fs vs =
     (if unat sz + 16 + unat m \<le> unat fs
      then us @ (a, False) # (a + sz + 16, True) # vs else us @ (a, False) # vs)"

lemma dm_round_ok:
  assumes "unat r + 3 < 4294967296" and "0 < unat m" and "4 dvd unat m"
  shows "unat r \<le> unat (dm_round m r) \<and> unat m \<le> unat (dm_round m r) \<and> 4 dvd unat (dm_round m r)"
proof (cases "r < m")
  case True
  then show ?thesis using assms by (auto simp: dm_round_def word_less_nat_alt)
next
  case False
  have "unat (r + 3) = unat r + 3" using assms by (simp add: unat_add_small)
  then have "unat (dm_round m r) = (unat r + 3) div 4 * 4"
    using False unat_round4 [of "r + 3"] by (simp add: dm_round_def add.commute)
  moreover have "unat m \<le> unat r" using False by (simp add: word_less_nat_alt)
  ultimately show ?thesis using assms(3) by (auto simp: dvd_def)
qed

text \<open>The facts about a free block in the middle of a well-formed pool.\<close>

lemma block_facts:
  assumes shape: "pool_shape hs pp p bs" and bs: "bs = us @ (a, f) # vs" and vs: "vs \<noteq> []"
  shows "hs a = Some \<lparr>dm_next_memory = fst (hd vs), dm_previous_memory = last_addr (trailer_addr p) us,
           dm_memory_free = f, dm_memory_pool = pp\<rparr>"
    and "unat a + 16 \<le> unat (fst (hd vs))" and "4 dvd unat a" and "4 dvd unat (fst (hd vs))"
    and "unat (fst (hd vs)) \<le> unat (trailer_addr p)" and "unat (dm_start_address p) \<le> unat a"
proof -
  have sg: "seg hs pp (trailer_addr p) bs (dm_start_address p)"
    and ord: "ordered bs" and al: "\<forall>b\<in>set bs. 4 dvd unat (fst b)"
    and lst: "last bs = (trailer_addr p, False)" and hd: "fst (hd bs) = dm_start_address p"
    using shape unfolding pool_shape_def by auto
  show "hs a = Some \<lparr>dm_next_memory = fst (hd vs), dm_previous_memory = last_addr (trailer_addr p) us,
           dm_memory_free = f, dm_memory_pool = pp\<rparr>"
    using sg vs by (simp add: bs first_addr_hd)
  obtain v vs' where v: "vs = v # vs'" using vs by (cases vs) auto
  show "unat a + 16 \<le> unat (fst (hd vs))" "4 dvd unat a" "4 dvd unat (fst (hd vs))"
    using ord al by (auto simp: bs v before_def)
  have "(trailer_addr p, False) \<in> set vs"
    using lst vs by (auto simp: bs) (metis last_in_set)
  then show "unat (fst (hd vs)) \<le> unat (trailer_addr p)"
    using ord by (auto simp: bs v before_def)
  show "unat (dm_start_address p) \<le> unat a"
    using ord hd by (cases us) (auto simp: bs before_def)
qed

text \<open>The pointer surgery, on the list segments: marking a block and splitting it.\<close>

lemma seg_mark:
  assumes "seg hs pp t (us @ (a, f) # vs) st" and "distinct (map fst (us @ (a, f) # vs))"
  shows "\<exists>hs'. set_header hs a (dm_memory_free_update (\<lambda>_. g)) = Some hs'
    \<and> seg hs' pp t (us @ (a, g) # vs) st"
  using assms by (auto simp: set_header_def)

lemma seg_split:
  assumes "seg hs pp t (us @ (a, True) # (v, g) # vs) st"
    and "distinct (map fst (us @ (a, True) # (v, g) # vs))"
    and "a + sz + 16 \<notin> fst ` set (us @ (a, True) # (v, g) # vs)"
  shows "\<exists>hs'. dm_split hs pp a sz = Some hs'
    \<and> seg hs' pp t (us @ (a, True) # (a + sz + 16, True) # (v, g) # vs) st"
proof -
  let ?n = "a + sz + 16"
  have ha: "hs a = Some \<lparr>dm_next_memory = v, dm_previous_memory = last_addr t us,
      dm_memory_free = True, dm_memory_pool = pp\<rparr>"
    and hv: "hs v = Some \<lparr>dm_next_memory = first_addr vs st, dm_previous_memory = a,
      dm_memory_free = g, dm_memory_pool = pp\<rparr>"
    using assms(1) by auto
  have ne: "?n \<noteq> a" "?n \<noteq> v" "a \<noteq> v" "?n \<notin> fst ` set us" "?n \<notin> fst ` set vs"
    using assms(2,3) by auto
  define hs' where "hs' = hs(?n \<mapsto> \<lparr>dm_next_memory = v, dm_previous_memory = a,
      dm_memory_free = True, dm_memory_pool = pp\<rparr>,
    v \<mapsto> \<lparr>dm_next_memory = first_addr vs st, dm_previous_memory = ?n,
      dm_memory_free = g, dm_memory_pool = pp\<rparr>,
    a \<mapsto> \<lparr>dm_next_memory = ?n, dm_previous_memory = last_addr t us,
      dm_memory_free = True, dm_memory_pool = pp\<rparr>)"
  have "dm_split hs pp a sz = Some hs'"
    using ha hv ne by (simp add: dm_split_def set_header_def DM_OVERHEAD_def hs'_def Let_def)
  moreover have "seg hs' pp t (us @ (a, True) # (?n, True) # (v, g) # vs) st"
    using assms(1,2) ne by (auto simp: hs'_def)
  ultimately show ?thesis by blast
qed

lemma getmem_found:
  assumes shape: "pool_shape (dm_headers s) pp p bs" and p: "dm_pools s pp = Some p"
    and bs: "bs = us @ (a, True) # vs" and vs: "vs \<noteq> []"
    and fs: "unat fs = unat (fst (hd vs)) - unat a - 16"
    and sz: "sz = dm_round (dm_min_allocation p) r" "sz \<le> fs" "4 dvd unat sz"
    and run: "dm_search (dm_headers s) (dm_search_ptr p) sz (dm_search_ptr p) = Some (a, fs)"
  shows "\<exists>s'. OS_GetMem s pp r = Some (s', OS_ERR_NONE, a + DM_OVERHEAD)
    \<and> dm_inv s' pp (take_block (dm_min_allocation p) sz us a fs vs)
    \<and> dm_geometry s' pp = dm_geometry s pp"
proof -
  note b = block_facts [OF shape bs vs]
  let ?n = "a + sz + 16" and ?m = "dm_min_allocation p" and ?t = "trailer_addr p"
  let ?st = "dm_start_address p"
  obtain v g vs' where v: "vs = (v, g) # vs'" using vs by (cases vs) auto
  have wf: "pool_wf p" and sg: "seg (dm_headers s) pp ?t bs ?st" and ord: "ordered bs"
    and co: "coalesced bs" and hd: "fst (hd bs) = ?st" and lst: "last bs = (?t, False)"
    and al: "\<forall>b\<in>set bs. 4 dvd unat (fst b)" and se: "dm_search_ptr p \<in> fst ` set bs"
    and av: "unat (dm_available p) = free_bytes bs ?st"
    using shape unfolding pool_shape_def by auto
  have dist: "distinct (map fst bs)" using ord by (rule ordered_distinct)
  have ge: "unat v = unat a + 16 + unat fs" "unat sz \<le> unat fs" "unat v < 4294967296"
    using b fs sz(2) unat_lt_2p32 [of v] by (auto simp: v word_le_nat_alt)
  have m: "unat sz + 16 + unat ?m < 4294967296"
    using wf ge b by (auto simp: pool_wf_def v unat_trailer [OF wf])
  then have fits: "sz + DM_OVERHEAD + ?m \<le> fs \<longleftrightarrow> unat sz + 16 + unat ?m \<le> unat fs"
    by (simp add: DM_OVERHEAD_def word_le_nat_alt unat_add_small)
  have g: "\<not> g" using co by (simp add: bs v coalesced_append coalesced_Cons)
  have avb: "unat (dm_available p) =
      free_bytes us a + unat fs + free_bytes vs ?st"
    using av by (simp add: bs v ge g)
  show ?thesis
  proof (cases "sz + DM_OVERHEAD + ?m \<le> fs")
    case True
    then have n: "unat ?n = unat a + unat sz + 16"
      using ge fits by (simp add: unat_add_small)
    have n_new: "?n \<notin> fst ` set bs"
      using ord n ge True fits by (force simp: bs v before_def)
    obtain hs1 where hs1: "dm_split (dm_headers s) pp a sz = Some hs1"
        "seg hs1 pp ?t (us @ (a, True) # (?n, True) # (v, g) # vs') ?st"
      using seg_split [of "dm_headers s" pp ?t us a v g vs' ?st sz] sg dist n_new
      by (auto simp: bs v)
    let ?bs = "us @ (a, False) # (?n, True) # (v, g) # vs'"
    have d: "distinct (map fst ?bs)" using dist n_new by (auto simp: bs v)
    with seg_mark [of hs1 pp ?t us a True "(?n, True) # (v, g) # vs'" ?st False] hs1(2)
    obtain hs2 where hs2: "set_header hs1 a (dm_memory_free_update (\<lambda>_. False)) = Some hs2"
        "seg hs2 pp ?t ?bs ?st" by auto
    define p' where "p' = p\<lparr>dm_available := dm_available p - sz - 16,
      dm_search_ptr := (if dm_search_ptr p = a then ?n else dm_search_ptr p)\<rparr>"
    have "hs2 a = Some \<lparr>dm_next_memory = ?n, dm_previous_memory = last_addr ?t us,
      dm_memory_free = False, dm_memory_pool = pp\<rparr>" using hs2(2) by simp
    then have go: "OS_GetMem s pp r = Some (s\<lparr>dm_headers := hs2,
        dm_pools := (dm_pools s)(pp \<mapsto> p')\<rparr>, OS_ERR_NONE, a + DM_OVERHEAD)"
      using p run sz(2) True hs1(1) hs2(1)
      by (simp add: OS_GetMem_def Let_def p'_def DM_OVERHEAD_def flip: sz(1))
    have "unat (dm_available p - sz - 16) = unat (dm_available p) - unat sz - 16"
      using avb True fits by (simp add: unat_sub_le)
    then have "unat (dm_available p') = free_bytes ?bs ?st"
      using avb True fits ge n by (simp add: p'_def v g)
    moreover have "ordered ?bs"
      using ord n ge True fits by (force simp: bs v before_def)
    moreover have "coalesced ?bs"
      using co g by (simp add: bs v coalesced_append coalesced_Cons)
    moreover have "fst (hd ?bs) = ?st" "last ?bs = (?t, False)"
      using hd lst by (cases us; simp add: bs v)+
    moreover have "\<forall>b\<in>set ?bs. 4 dvd unat (fst b)"
      using al n sz(3) by (auto simp: bs v)
    moreover have "dm_search_ptr p' \<in> fst ` set ?bs"
      using se by (auto simp: p'_def bs v)
    ultimately have "pool_shape hs2 pp p' ?bs"
      using wf hs2(2) unfolding pool_shape_def by (simp add: p'_def pool_wf_def trailer_addr_def)
    then show ?thesis
      using go True fits p by (simp add: dm_inv_def take_block_def p'_def v dm_geometry_def)
  next
    case False
    let ?bs = "us @ (a, False) # vs"
    obtain hs2 where hs2: "set_header (dm_headers s) a (dm_memory_free_update (\<lambda>_. False)) = Some hs2"
        "seg hs2 pp ?t ?bs ?st"
      using seg_mark [of "dm_headers s" pp ?t us a True vs ?st False] sg dist by (auto simp: bs)
    define p' where "p' = p\<lparr>dm_available := dm_available p - fs,
      dm_search_ptr := (if dm_search_ptr p = a then v else dm_search_ptr p)\<rparr>"
    have "hs2 a = Some \<lparr>dm_next_memory = v, dm_previous_memory = last_addr ?t us,
      dm_memory_free = False, dm_memory_pool = pp\<rparr>" using hs2(2) by (simp add: v)
    then have go: "OS_GetMem s pp r = Some (s\<lparr>dm_headers := hs2,
        dm_pools := (dm_pools s)(pp \<mapsto> p')\<rparr>, OS_ERR_NONE, a + DM_OVERHEAD)"
      using p run sz(2) False hs2(1)
      by (simp add: OS_GetMem_def Let_def p'_def DM_OVERHEAD_def flip: sz(1))
    have "unat (dm_available p') = free_bytes ?bs ?st"
      using avb ge by (simp add: p'_def v g unat_sub_le)
    moreover have "ordered ?bs"
      using ord by (auto simp: bs v before_def)
    moreover have "coalesced ?bs"
      using co g by (auto simp: bs v coalesced_append coalesced_Cons)
    moreover have "fst (hd ?bs) = ?st" "last ?bs = (?t, False)"
      using hd lst by (cases us; simp add: bs v)+
    moreover have "\<forall>b\<in>set ?bs. 4 dvd unat (fst b)"
      using al by (auto simp: bs v)
    moreover have "dm_search_ptr p' \<in> fst ` set ?bs"
      using se by (auto simp: p'_def bs v)
    ultimately have "pool_shape hs2 pp p' ?bs"
      using wf hs2(2) unfolding pool_shape_def by (simp add: p'_def pool_wf_def trailer_addr_def)
    then show ?thesis
      using go False fits p by (simp add: dm_inv_def take_block_def p'_def dm_geometry_def)
  qed
qed

lemma getmem_full:
  assumes shape: "pool_shape (dm_headers s) pp p bs" and p: "dm_pools s pp = Some p"
    and none: "\<forall>(b, k)\<in>set (free_list bs (dm_start_address p)).
      k < unat (dm_round (dm_min_allocation p) r)"
    and pos: "0 < dm_round (dm_min_allocation p) r"
  shows "OS_GetMem s pp r = Some (s, OS_ERR_MEM_FULL, 0)"
proof -
  from search_pool [OF shape pos] none obtain a fs where
    "dm_search (dm_headers s) (dm_search_ptr p) (dm_round (dm_min_allocation p) r)
       (dm_search_ptr p) = Some (a, fs)" "fs < dm_round (dm_min_allocation p) r"
    by auto
  moreover from this(2) have "\<not> dm_round (dm_min_allocation p) r \<le> fs" by simp
  ultimately show ?thesis
    using p by (simp add: OS_GetMem_def Let_def)
qed

section \<open>Release\<close>

text \<open>The ring of headers while \<open>OS_FreeMem\<close> works on it: everything of \<open>pool_shape\<close>
  but coalescing, with the byte count and search pointer as they are on the way.\<close>

definition ring_at :: "dm_heap \<Rightarrow> u32 \<Rightarrow> dm_pcb \<Rightarrow> u32 \<Rightarrow> u32 \<Rightarrow> blocks \<Rightarrow> bool" where
  "ring_at hs pp p av se bs \<longleftrightarrow> bs \<noteq> []
     \<and> seg hs pp (trailer_addr p) bs (dm_start_address p) \<and> ordered bs
     \<and> fst (hd bs) = dm_start_address p \<and> last bs = (trailer_addr p, False)
     \<and> (\<forall>b\<in>set bs. 4 dvd unat (fst b)) \<and> se \<in> fst ` set bs
     \<and> av = of_nat (free_bytes bs (dm_start_address p))"

lemma free_bytes_bound:
  "ordered bs \<Longrightarrow> bs \<noteq> [] \<Longrightarrow> \<not> snd (last bs) \<Longrightarrow>
     free_bytes bs nxt + unat (fst (hd bs)) \<le> unat (fst (last bs))"
proof (induction bs)
  case (Cons x bs)
  then show ?case by (cases x; cases bs) (auto simp: before_def)
qed simp

lemma pool_shape_ring:
  "pool_shape hs pp p bs \<longleftrightarrow> pool_wf p \<and> coalesced bs
     \<and> ring_at hs pp p (dm_available p) (dm_search_ptr p) bs" (is "?L \<longleftrightarrow> ?R")
proof
  assume ?L
  then show ?R
    unfolding pool_shape_def ring_at_def by (auto simp del: free_bytes.simps) (metis of_nat_unat ucast_id)
next
  assume r: ?R
  then have r': "ordered bs" "bs \<noteq> []" "last bs = (trailer_addr p, False)"
    by (simp_all add: ring_at_def)
  have "free_bytes bs (dm_start_address p) \<le> unat (trailer_addr p)"
    using free_bytes_bound [OF r'(1,2), of "dm_start_address p"] r'(3) by simp
  then have "free_bytes bs (dm_start_address p) < 4294967296"
    using unat_lt_2p32 [of "trailer_addr p"] by linarith
  then have "unat (of_nat (free_bytes bs (dm_start_address p)) :: u32)
      = free_bytes bs (dm_start_address p)"
    by (simp add: unat_of_nat)
  with r show ?L
    unfolding pool_shape_def ring_at_def by simp
qed

text \<open>Joining a free block to a free predecessor.\<close>

lemma merge_previous_join:
  assumes "ring_at hs pp p av se (us @ (u, True) # (a, True) # (v, g) # vs)"
  shows "\<exists>hs'. dm_merge_previous hs a av se = Some (hs', av + 16, u, u)
    \<and> ring_at hs' pp p (av + 16) u (us @ (u, True) # (v, g) # vs)"
proof -
  let ?t = "trailer_addr p" and ?st = "dm_start_address p"
  have sg: "seg hs pp ?t (us @ (u, True) # (a, True) # (v, g) # vs) ?st"
    and ord: "ordered (us @ (u, True) # (a, True) # (v, g) # vs)"
    using assms unfolding ring_at_def by blast+
  have hu: "hs u = Some \<lparr>dm_next_memory = a, dm_previous_memory = last_addr ?t us,
      dm_memory_free = True, dm_memory_pool = pp\<rparr>"
    and ha: "hs a = Some \<lparr>dm_next_memory = v, dm_previous_memory = u,
      dm_memory_free = True, dm_memory_pool = pp\<rparr>"
    and hv: "hs v = Some \<lparr>dm_next_memory = first_addr vs ?st, dm_previous_memory = a,
      dm_memory_free = g, dm_memory_pool = pp\<rparr>"
    using sg by auto
  have ne: "u \<noteq> a" "a \<noteq> v" "u \<noteq> v" "u \<notin> fst ` set us" "v \<notin> fst ` set us"
      "u \<notin> fst ` set vs" "v \<notin> fst ` set vs"
    using ordered_distinct [OF ord] by auto
  define hs' where "hs' = hs(u \<mapsto> \<lparr>dm_next_memory = v, dm_previous_memory = last_addr ?t us,
      dm_memory_free = True, dm_memory_pool = pp\<rparr>,
    v \<mapsto> \<lparr>dm_next_memory = first_addr vs ?st, dm_previous_memory = u,
      dm_memory_free = g, dm_memory_pool = pp\<rparr>)"
  have "dm_merge_previous hs a av se = Some (hs', av + 16, u, u)"
    using hu ha hv ne by (simp add: dm_merge_previous_def set_header_def DM_OVERHEAD_def hs'_def)
  moreover have "seg hs' pp ?t (us @ (u, True) # (v, g) # vs) ?st"
    using sg ne by (auto simp: hs'_def)
  moreover have "ordered (us @ (u, True) # (v, g) # vs)"
    using ord by auto
  moreover have "free_bytes (us @ (u, True) # (v, g) # vs) ?st
      = free_bytes (us @ (u, True) # (a, True) # (v, g) # vs) ?st + 16"
    using ord by (auto simp: before_def)
  ultimately show ?thesis
    using assms unfolding ring_at_def by (cases us) (auto simp del: free_bytes.simps)
qed

lemma merge_next_join:
  assumes "ring_at hs pp p av se (us @ (a, True) # (n, True) # (v, g) # vs)"
  shows "\<exists>hs'. dm_merge_next hs a av se = Some (hs', av + 16, a)
    \<and> ring_at hs' pp p (av + 16) a (us @ (a, True) # (v, g) # vs)"
proof -
  obtain hs' where hs': "dm_merge_previous hs n av se = Some (hs', av + 16, a, a)"
      "ring_at hs' pp p (av + 16) a (us @ (a, True) # (v, g) # vs)"
    using merge_previous_join [OF assms] by blast
  have sg: "seg hs pp (trailer_addr p) (us @ (a, True) # (n, True) # (v, g) # vs)
      (dm_start_address p)"
    and ord: "ordered (us @ (a, True) # (n, True) # (v, g) # vs)"
    using assms unfolding ring_at_def by blast+
  have ne: "a \<noteq> n" "n \<noteq> v" "a \<noteq> v" using ordered_distinct [OF ord] by auto
  have "dm_merge_next hs a av se = Some (hs', av + 16, a)"
    using sg ne hs'(1)
    by (auto simp: dm_merge_next_def dm_merge_previous_def set_header_def DM_OVERHEAD_def
        fun_upd_twist)
  with hs'(2) show ?thesis by blast
qed

text \<open>The block list after the block at \<open>a\<close> has been released.\<close>

definition join_next :: "u32 \<Rightarrow> blocks \<Rightarrow> blocks" where
  "join_next a vs = (a, True) # (if snd (hd vs) then tl vs else vs)"

definition free_block :: "blocks \<Rightarrow> u32 \<Rightarrow> blocks \<Rightarrow> blocks" where
  "free_block us a vs =
     (if us \<noteq> [] \<and> snd (last us) then butlast us @ join_next (fst (last us)) vs
      else us @ join_next a vs)"

lemma ring_at_wider: "ring_at hs pp p av se bs \<Longrightarrow> x \<in> fst ` set bs \<Longrightarrow> ring_at hs pp p av x bs"
  by (simp add: ring_at_def)

lemma ring_at_mark:
  assumes "ring_at hs pp p av se (us @ (a, f) # vs)" and "vs \<noteq> []"
    and "seg hs' pp (trailer_addr p) (us @ (a, g) # vs) (dm_start_address p)"
    and "av' = of_nat (free_bytes (us @ (a, g) # vs) (dm_start_address p))"
  shows "ring_at hs' pp p av' se (us @ (a, g) # vs)"
proof -
  have "ordered (us @ (a, g) # vs)" "fst (hd (us @ (a, g) # vs)) = dm_start_address p"
    "last (us @ (a, g) # vs) = (trailer_addr p, False)"
    "\<forall>b\<in>set (us @ (a, g) # vs). 4 dvd unat (fst b)" "se \<in> fst ` set (us @ (a, g) # vs)"
    using assms(1,2) by (cases us; auto simp: ring_at_def before_def)+
  then show ?thesis
    unfolding ring_at_def using assms(3,4) by blast
qed

lemma merge_previous_ok:
  assumes r: "ring_at hs pp p av se (us @ (a, True) # vs)" and vs: "vs \<noteq> []"
    and co: "us \<noteq> [] \<longrightarrow> coalesced us"
  shows "\<exists>hs' av' b se' ws. dm_merge_previous hs a av se = Some (hs', av', b, se')
    \<and> ring_at hs' pp p av' se' (ws @ (b, True) # vs)
    \<and> (if us \<noteq> [] \<and> snd (last us) then ws = butlast us \<and> b = fst (last us) else ws = us \<and> b = a)"
proof (cases "us \<noteq> [] \<and> snd (last us)")
  case True
  then obtain ws u where us: "us = ws @ [(u, True)]"
    by (metis (full_types) append_butlast_last_id prod.collapse)
  obtain v g vs' where v: "vs = (v, g) # vs'" using vs by (cases vs) auto
  show ?thesis using merge_previous_join [of hs pp p av se ws u a v g vs'] r
    by (auto simp: us v)
next
  case False
  let ?t = "trailer_addr p" and ?st = "dm_start_address p"
  have sg: "seg hs pp ?t (us @ (a, True) # vs) ?st" and lst: "last vs = (?t, False)"
    using r vs unfolding ring_at_def by auto
  obtain ts where ts: "vs = ts @ [(?t, False)]"
    using vs lst by (metis append_butlast_last_id)
  obtain p0 where p0: "hs (last_addr ?t us) = Some p0" "\<not> dm_memory_free p0"
  proof (cases "us = []")
    case True
    with sg ts that show ?thesis by auto
  next
    case us: False
    then obtain ws u where "us = ws @ [(u, False)]"
      using False by (metis (full_types) append_butlast_last_id prod.collapse)
    with sg that show ?thesis by auto
  qed
  have "dm_merge_previous hs a av se = Some (hs, av, a, se)"
    using sg p0 by (simp add: dm_merge_previous_def)
  with r False show ?thesis by auto
qed

lemma merge_next_ok:
  assumes r: "ring_at hs pp p av se (us @ (a, True) # vs)" and vs: "vs \<noteq> []"
  shows "\<exists>hs' av' se'. dm_merge_next hs a av se = Some (hs', av', se')
    \<and> ring_at hs' pp p av' se' (us @ join_next a vs)"
proof -
  obtain v g vs' where v: "vs = (v, g) # vs'" using vs by (cases vs) auto
  have lst: "last vs = (trailer_addr p, False)"
    and sg: "seg hs pp (trailer_addr p) (us @ (a, True) # vs) (dm_start_address p)"
    using r vs unfolding ring_at_def by auto
  show ?thesis
  proof (cases g)
    case True
    then obtain w vs'' where "vs' = w # vs''" using lst by (cases vs') (auto simp: v)
    then show ?thesis
      using merge_next_join [of hs pp p av se us a v "fst w" "snd w" vs''] r True
      by (auto simp: v join_next_def)
  next
    case False
    have "dm_merge_next hs a av se = Some (hs, av, se)"
      using sg False by (simp add: dm_merge_next_def v)
    with r False show ?thesis by (auto simp: v join_next_def)
  qed
qed

lemma coalesced_free_block:
  assumes "coalesced (us @ (a, False) # vs)" and "vs \<noteq> []"
  shows "coalesced (free_block us a vs)"
proof -
  have j: "coalesced (join_next b vs)" for b
    using assms by (cases vs; cases "tl vs")
      (auto simp: join_next_def coalesced_append coalesced_Cons)
  have h: "hd (join_next b vs) = (b, True)" "join_next b vs \<noteq> []" for b
    by (simp_all add: join_next_def)
  show ?thesis
  proof (cases "us \<noteq> [] \<and> snd (last us)")
    case True
    then obtain ws u where us: "us = ws @ [(u, True)]"
      by (metis (full_types) append_butlast_last_id prod.collapse)
    show ?thesis
      using assms j [of u] h [of u] by (auto simp: us free_block_def coalesced_append)
  next
    case False
    then show ?thesis
      using assms j [of a] h [of a] by (auto simp: free_block_def coalesced_append)
  qed
qed

lemma freemem_ok:
  assumes inv: "dm_inv s pp (us @ (a, False) # vs)" and vs: "vs \<noteq> []"
  shows "\<exists>s'. OS_FreeMem s (a + DM_OVERHEAD) = Some (s', OS_ERR_NONE)
    \<and> dm_inv s' pp (free_block us a vs)
    \<and> dm_geometry s' pp = dm_geometry s pp"
proof -
  from inv obtain p where p: "dm_pools s pp = Some p"
    and shape: "pool_shape (dm_headers s) pp p (us @ (a, False) # vs)"
    by (auto simp: dm_inv_def)
  then have wf: "pool_wf p" and co: "coalesced (us @ (a, False) # vs)"
    and ring: "ring_at (dm_headers s) pp p (dm_available p) (dm_search_ptr p) (us @ (a, False) # vs)"
    by (simp_all add: pool_shape_ring)
  have sg: "seg (dm_headers s) pp (trailer_addr p) (us @ (a, False) # vs) (dm_start_address p)"
    and ord: "ordered (us @ (a, False) # vs)"
    using ring unfolding ring_at_def by blast+
  obtain v g vs' where v: "vs = (v, g) # vs'" using vs by (cases vs) auto
  have ha: "dm_headers s a = Some \<lparr>dm_next_memory = v,
      dm_previous_memory = last_addr (trailer_addr p) us, dm_memory_free = False, dm_memory_pool = pp\<rparr>"
    using sg by (simp add: v)
  obtain hs0 where hs0: "set_header (dm_headers s) a (dm_memory_free_update (\<lambda>_. True)) = Some hs0"
      "seg hs0 pp (trailer_addr p) (us @ (a, True) # vs) (dm_start_address p)"
    using seg_mark [OF sg ordered_distinct [OF ord], of True] by blast
  let ?av = "dm_available p + (v - a) - 16"
  have "unat a + 16 \<le> unat v" using ord by (auto simp: v before_def)
  then have "unat (v - a - 16) = unat v - unat a - 16"
    by (simp add: unat_sub_le)
  then have "of_nat (unat v - unat a - 16) = v - a - 16"
    by (metis of_nat_unat ucast_id)
  then have gap: "?av = dm_available p + of_nat (unat v - unat a - 16)"
    by simp
  have fb: "free_bytes (us @ (a, True) # vs) (dm_start_address p)
      = free_bytes (us @ (a, False) # vs) (dm_start_address p) + (unat v - unat a - 16)"
    by (simp add: v)
  have r0: "ring_at hs0 pp p ?av (dm_search_ptr p) (us @ (a, True) # vs)"
  proof (rule ring_at_mark [OF ring vs hs0(2)])
    have "dm_available p = of_nat (free_bytes (us @ (a, False) # vs) (dm_start_address p))"
      using ring unfolding ring_at_def by blast
    then show "?av = of_nat (free_bytes (us @ (a, True) # vs) (dm_start_address p))"
      unfolding fb gap of_nat_add by (rule arg_cong)
  qed
  have cu: "us \<noteq> [] \<longrightarrow> coalesced us" using co by (simp add: coalesced_append)
  obtain hs1 av1 b se1 ws where
    m1: "dm_merge_previous hs0 a ?av (dm_search_ptr p) = Some (hs1, av1, b, se1)"
      "ring_at hs1 pp p av1 se1 (ws @ (b, True) # vs)"
      "if us \<noteq> [] \<and> snd (last us) then ws = butlast us \<and> b = fst (last us) else ws = us \<and> b = a"
    using merge_previous_ok [OF r0 vs cu] by blast
  obtain hs2 av2 se2 where
    m2: "dm_merge_next hs1 b av1 se1 = Some (hs2, av2, se2)"
      "ring_at hs2 pp p av2 se2 (ws @ join_next b vs)"
    using merge_next_ok [OF m1(2) vs] by blast
  let ?p = "p\<lparr>dm_available := av2, dm_search_ptr := se2\<rparr>"
  have eq: "ws @ join_next b vs = free_block us a vs"
    using m1(3) by (auto simp: free_block_def split: if_splits)
  have "OS_FreeMem s (a + DM_OVERHEAD) =
      Some (s\<lparr>dm_headers := hs2, dm_pools := (dm_pools s)(pp \<mapsto> ?p)\<rparr>, OS_ERR_NONE)"
    using ha p hs0(1) m1(1) m2(1) by (simp add: OS_FreeMem_def DM_OVERHEAD_def Let_def)
  moreover have "pool_shape hs2 pp ?p (free_block us a vs)"
    using wf m2(2) coalesced_free_block [OF co vs]
    by (simp add: pool_shape_ring eq ring_at_def pool_wf_def trailer_addr_def)
  ultimately show ?thesis
    using p by (simp add: dm_inv_def dm_geometry_def)
qed

section \<open>The system pool\<close>

text \<open>\<open>pool\<close> and \<open>storage\<close> are the addresses of the globals \<open>OS_system_mempool\<close> and
  \<open>sysemPool\<close>.  The payload bytes are not part of the store, so \<open>OSMCalloc\<close> returns the
  number of bytes its \<open>memset\<close> clears beside the pointer.\<close>

definition OS_DMEM_POOL_SIZE :: u32 where
  "OS_DMEM_POOL_SIZE = 40 * 1024"

definition OS_DMemInit :: "u32 \<Rightarrow> u32 \<Rightarrow> dmem \<Rightarrow> dmem option" where
  "OS_DMemInit pool storage s = map_option fst
     (OS_Create_Memory_Pool (s\<lparr>DMD_Total_Pools := 0\<rparr>) pool [0x53, 0x79, 0x73, 0] storage
        OS_DMEM_POOL_SIZE 16)"

definition OSMMalloc :: "u32 \<Rightarrow> dmem \<Rightarrow> u32 \<Rightarrow> (dmem \<times> u32) option" where
  "OSMMalloc pool s sz =
     map_option (\<lambda>(s', err, p). (s', if err = OS_ERR_NONE then p else 0)) (OS_GetMem s pool sz)"

definition OSMCalloc :: "u32 \<Rightarrow> dmem \<Rightarrow> u32 \<Rightarrow> u32 \<Rightarrow> (dmem \<times> u32 \<times> u32) option" where
  "OSMCalloc pool s count sz = do {
     (s', p) \<leftarrow> OSMMalloc pool s (count * sz);
     Some (s', p, if p \<noteq> 0 then count * sz else 0)
   }"

definition OSMFree :: "dmem \<Rightarrow> u32 \<Rightarrow> dmem option" where
  "OSMFree s p = map_option fst (OS_FreeMem s p)"

text \<open>The blocks in use, as the caller sees them: payload address and size.\<close>

fun used :: "blocks \<Rightarrow> u32 \<Rightarrow> (u32 \<times> nat) list" where
  "used [] nxt = []"
| "used ((a, f) # bs) nxt =
     (if f then [] else [(a + 16, unat (first_addr bs nxt) - unat a - 16)]) @ used bs nxt"

lemma used_append [simp]: "used (xs @ ys) nxt = used xs (first_addr ys nxt) @ used ys nxt"
  by (induction xs) auto

definition handed_out :: "blocks \<Rightarrow> (u32 \<times> nat) set" where
  "handed_out bs = set (used (butlast bs) (fst (last bs)))"

definition dm_owned ::
  "u32 \<Rightarrow> u32 \<times> u32 \<times> u32 \<Rightarrow> dmem \<Rightarrow> (u32 \<times> nat) set \<Rightarrow> bool" where
  "dm_owned pp g s L \<longleftrightarrow>
     dm_geometry s pp = Some g \<and> (\<exists>bs. dm_inv s pp bs \<and> L = handed_out bs)"

lemma handed_out_mid:
  "vs \<noteq> [] \<Longrightarrow> handed_out (us @ (a, f) # vs) =
     set (used us a) \<union> (if f then {} else {(a + 16, unat (fst (hd vs)) - unat a - 16)})
       \<union> handed_out vs"
  by (cases vs) (auto simp: handed_out_def butlast_append)

lemma used_split:
  "(q, k) \<in> set (used bs nxt) \<Longrightarrow>
     \<exists>us a vs. bs = us @ (a, False) # vs \<and> q = a + 16 \<and> k = unat (first_addr vs nxt) - unat a - 16"
proof (induction bs)
  case (Cons x bs)
  obtain a f where x: "x = (a, f)" by (cases x)
  show ?case
  proof (cases "(q, k) \<in> set (used bs nxt)")
    case True
    with Cons.IH show ?thesis by (metis append_Cons)
  next
    case False
    with Cons.prems show ?thesis by (auto simp: x split: if_splits)
  qed
qed simp

lemma used_bounds:
  "ordered (bs @ [(nxt, g)]) \<Longrightarrow> (q, k) \<in> set (used bs nxt) \<Longrightarrow>
     (\<exists>a f. (a, f) \<in> set bs \<and> q = a + 16 \<and> unat q = unat a + 16) \<and> unat q + k \<le> unat nxt"
proof (induction bs)
  case (Cons x bs)
  obtain a f where x: "x = (a, f)" by (cases x)
  let ?n = "first_addr bs nxt"
  have n: "unat a + 16 \<le> unat ?n" "unat ?n \<le> unat nxt"
    using Cons.prems(1) by (cases bs; auto simp: x before_def)+
  then have "unat (a + 16) = unat a + 16"
    using unat_lt_2p32 [of ?n] by (simp add: unat_add_small)
  then show ?case
    using Cons n by (auto simp: x split: if_splits)
qed simp

lemma used_apart:
  "ordered (bs @ [(nxt, g)]) \<Longrightarrow> x \<in> set (used bs nxt) \<Longrightarrow> y \<in> set (used bs nxt) \<Longrightarrow>
     x = y \<or> (fst x \<noteq> fst y \<and> disjoint_blocks x y)"
proof (induction bs)
  case (Cons b bs)
  obtain a f where b: "b = (a, f)" by (cases b)
  let ?n = "first_addr bs nxt" and ?h = "(a + 16, unat (first_addr bs nxt) - unat a - 16)"
  have ord: "ordered (bs @ [(nxt, g)])" using Cons.prems(1) by simp
  have n: "unat a + 16 \<le> unat ?n"
    using Cons.prems(1) by (cases bs) (auto simp: b before_def)
  then have a: "unat (a + 16) = unat a + 16"
    using unat_lt_2p32 [of ?n] by (simp add: unat_add_small)
  have far: "unat ?n + 16 \<le> unat (fst z)" if "z \<in> set (used bs nxt)" for z
  proof -
    obtain q k where z: "z = (q, k)" by (cases z)
    with that used_bounds [OF ord, of q k] obtain c h where
      "(c, h) \<in> set bs" "unat q = unat c + 16" by auto
    then show ?thesis using ord by (cases bs) (auto simp: z before_def)
  qed
  have apart: "fst ?h \<noteq> fst z \<and> disjoint_blocks ?h z \<and> disjoint_blocks z ?h"
    if "z \<in> set (used bs nxt)" for z
    using far [OF that] n a by (auto simp: disjoint_blocks_def)
  have "x = ?h \<or> x \<in> set (used bs nxt)" "y = ?h \<or> y \<in> set (used bs nxt)"
    using Cons.prems(2,3) by (auto simp: b split: if_splits)
  then show ?case
    using Cons.IH [OF ord] apart [of x] apart [of y] by metis
qed simp

lemma handed_out_take:
  assumes "vs \<noteq> []" and "unat fs = unat (fst (hd vs)) - unat a - 16" and "sz \<le> fs"
    and "unat a + 16 \<le> unat (fst (hd vs))"
  shows "\<exists>k. unat sz \<le> k \<and> handed_out (take_block m sz us a fs vs)
    = insert (a + 16, k) (handed_out (us @ (a, True) # vs))"
proof (cases "unat sz + 16 + unat m \<le> unat fs")
  case True
  then have "unat (a + sz + 16) = unat a + unat sz + 16"
    using assms unat_lt_2p32 [of "fst (hd vs)"] by (simp add: unat_add_small)
  then show ?thesis
    using True assms(1) handed_out_mid [of vs "[]" "a + sz + 16" True]
    by (auto simp: take_block_def handed_out_mid)
next
  case False
  then show ?thesis
    using assms by (auto simp: take_block_def handed_out_mid word_le_nat_alt)
qed

lemma handed_out_free:
  assumes "vs \<noteq> []" and "last vs = (t, False)"
  shows "handed_out (free_block us a vs) = set (used us a) \<union> handed_out vs"
proof -
  have j: "handed_out (ws @ join_next b vs) = set (used ws b) \<union> handed_out vs" for ws b
  proof (cases "snd (hd vs)")
    case True
    then obtain v vs' where "vs = (v, True) # vs'" "vs' \<noteq> []"
      using assms by (cases vs; cases "tl vs") auto
    then show ?thesis
      using handed_out_mid [of vs' ws b True] handed_out_mid [of vs' "[]" v True]
      by (simp add: join_next_def)
  next
    case False
    then show ?thesis
      using handed_out_mid [of vs ws b True] assms(1) by (simp add: join_next_def)
  qed
  show ?thesis
  proof (cases "us \<noteq> [] \<and> snd (last us)")
    case True
    then obtain ws u where "us = ws @ [(u, True)]"
      by (metis (full_types) append_butlast_last_id prod.collapse)
    then show ?thesis by (simp add: free_block_def j)
  next
    case False
    then show ?thesis by (auto simp: free_block_def j)
  qed
qed

lemma dm_inv_parts:
  assumes "dm_inv s pp bs"
  shows "\<exists>p xs t. dm_pools s pp = Some p \<and> pool_shape (dm_headers s) pp p bs
    \<and> bs = xs @ [(t, False)] \<and> t = trailer_addr p \<and> ordered bs"
  using assms unfolding dm_inv_def pool_shape_def
  by (metis append_butlast_last_id)

lemma owned_apart:
  assumes "dm_owned pp g s L" and "x \<in> L" and "y \<in> L"
  shows "x = y \<or> (fst x \<noteq> fst y \<and> disjoint_blocks x y)"
proof -
  from assms(1) obtain bs where "dm_inv s pp bs" and L: "L = handed_out bs"
    by (auto simp: dm_owned_def)
  with dm_inv_parts obtain xs t where "bs = xs @ [(t, False)]" "ordered bs" by blast
  then show ?thesis
    using used_apart [of xs t False x y] assms(2,3) by (simp add: L handed_out_def)
qed

lemma OSMMalloc_cases:
  assumes inv: "dm_inv s pp bs" and p: "dm_pools s pp = Some p" and r: "unat r + 3 < 4294967296"
  shows "(\<exists>us a vs sz fs m s'. bs = us @ (a, True) # vs \<and> vs \<noteq> [] \<and> sz \<le> fs \<and> unat r \<le> unat sz
      \<and> unat fs = unat (fst (hd vs)) - unat a - 16 \<and> unat a + 16 \<le> unat (fst (hd vs))
      \<and> OSMMalloc pp s r = Some (s', a + 16) \<and> dm_inv s' pp (take_block m sz us a fs vs)
      \<and> dm_geometry s' pp = dm_geometry s pp
      \<and> (a, unat fs) \<in> set (free_list bs (dm_start_address p))
      \<and> sz = dm_round (dm_min_allocation p) r \<and> a + 16 \<noteq> 0)
    \<or> (OSMMalloc pp s r = Some (s, 0)
      \<and> (\<forall>(b, k)\<in>set (free_list bs (dm_start_address p)). k < unat (dm_round (dm_min_allocation p) r)))"
proof -
  from dm_inv_parts [OF inv] p obtain xs t where
    shape: "pool_shape (dm_headers s) pp p bs" and bs: "bs = xs @ [(t, False)]" by auto
  then have wf: "pool_wf p" unfolding pool_shape_def by blast
  let ?sz = "dm_round (dm_min_allocation p) r" and ?fl = "free_list bs (dm_start_address p)"
  have sz: "unat r \<le> unat ?sz" "4 dvd unat ?sz" "0 < ?sz"
    using dm_round_ok [of r "dm_min_allocation p"] wf r
    by (auto simp: pool_wf_def word_less_nat_alt)
  show ?thesis
  proof (cases "\<forall>(b, k)\<in>set ?fl. k < unat ?sz")
    case True
    then show ?thesis
      using getmem_full [OF shape p True sz(3)] by (simp add: OSMMalloc_def)
  next
    case False
    with search_pool [OF shape sz(3)] obtain a fs where
      run: "dm_search (dm_headers s) (dm_search_ptr p) ?sz (dm_search_ptr p) = Some (a, fs)"
      and fit: "?sz \<le> fs" and mem: "(a, unat fs) \<in> set ?fl"
      by (auto split: if_splits)
    from free_list_split [OF mem] obtain us vs where
      us: "bs = us @ (a, True) # vs" "unat fs = unat (first_addr vs (dm_start_address p)) - unat a - 16"
      by blast
    then have vs: "vs \<noteq> []" using bs by (cases vs rule: rev_cases) auto
    then have fs: "unat fs = unat (fst (hd vs)) - unat a - 16"
      using us(2) by (simp add: first_addr_hd)
    note b = block_facts [OF shape us(1) vs]
    have nz: "a + 16 \<noteq> 0"
    proof
      assume "a + 16 = 0"
      moreover have "unat (a + 16) = unat a + 16"
        using b(2) unat_lt_2p32 [of "fst (hd vs)"] by (simp add: unat_add_small)
      ultimately show False by simp
    qed
    from getmem_found [OF shape p us(1) vs fs refl fit sz(2) run] obtain s' where
      "OS_GetMem s pp r = Some (s', OS_ERR_NONE, a + DM_OVERHEAD)"
      "dm_inv s' pp (take_block (dm_min_allocation p) ?sz us a fs vs)"
      "dm_geometry s' pp = dm_geometry s pp" by blast
    then show ?thesis
      using us(1) vs fit sz(1) fs b(2) mem nz
      by (intro disjI1 exI [of _ us] exI [of _ a] exI [of _ vs] exI [of _ ?sz] exI [of _ fs]
          exI [of _ "dm_min_allocation p"] exI [of _ s'])
        (simp add: OSMMalloc_def DM_OVERHEAD_def)
  qed
qed

lemma handed_out_fresh:
  assumes "ordered (us @ (a, f) # vs)" and "vs \<noteq> []"
  shows "(a + 16, k) \<notin> set (used us a) \<union> handed_out vs"
proof
  assume "(a + 16, k) \<in> set (used us a) \<union> handed_out vs"
  then have "(a + 16, k) \<in> set (used us a) \<or> (a + 16, k) \<in> handed_out vs"
    by blast
  moreover have "b \<in> set us \<union> set vs"
    if "(a + 16, k) \<in> set (used xs n)" "set xs \<subseteq> set us \<union> set vs" "b = (a, False)" for xs n b
    using used_split [OF that(1)] that(2,3) by auto
  moreover have "set (butlast vs) \<subseteq> set us \<union> set vs"
    using in_set_butlastD by fastforce
  ultimately have "(a, False) \<in> set us \<union> set vs"
    unfolding handed_out_def by blast
  then show False using ordered_distinct [OF assms(1)] by force
qed

lemma dm_malloc_law:
  assumes own: "dm_owned pp g s L" and n: "unat (n :: u32) + 3 < 4294967296"
  shows "\<exists>s' q. OSMMalloc pp s n = Some (s', q) \<and>
      (if q = 0 then dm_owned pp g s' L
       else \<exists>k. unat n \<le> k \<and> q \<notin> fst ` L \<and> dm_owned pp g s' (insert (q, k) L))"
proof -
  from own obtain bs where inv: "dm_inv s pp bs" and L: "L = handed_out bs"
    by (auto simp: dm_owned_def)
  then obtain p where p: "dm_pools s pp = Some p" using dm_inv_parts by blast
  from OSMMalloc_cases [OF inv p n] show ?thesis
  proof
    assume "\<exists>us a vs sz fs m s'. bs = us @ (a, True) # vs \<and> vs \<noteq> [] \<and> sz \<le> fs \<and> unat n \<le> unat sz
      \<and> unat fs = unat (fst (hd vs)) - unat a - 16 \<and> unat a + 16 \<le> unat (fst (hd vs))
      \<and> OSMMalloc pp s n = Some (s', a + 16) \<and> dm_inv s' pp (take_block m sz us a fs vs)
      \<and> dm_geometry s' pp = dm_geometry s pp
      \<and> (a, unat fs) \<in> set (free_list bs (dm_start_address p))
      \<and> sz = dm_round (dm_min_allocation p) n \<and> a + 16 \<noteq> 0"
    then obtain us a vs sz fs m s' where *: "bs = us @ (a, True) # vs" "vs \<noteq> []" "sz \<le> fs"
      "unat n \<le> unat sz" "unat fs = unat (fst (hd vs)) - unat a - 16"
      "unat a + 16 \<le> unat (fst (hd vs))" "OSMMalloc pp s n = Some (s', a + 16)"
      "dm_inv s' pp (take_block m sz us a fs vs)" "dm_geometry s' pp = dm_geometry s pp" "a + 16 \<noteq> 0" by blast
    from handed_out_take [OF *(2,5,3,6), of m us] obtain k where
      k: "unat sz \<le> k" "handed_out (take_block m sz us a fs vs) = insert (a + 16, k) L"
      by (auto simp: L *(1))
    have "ordered bs" using dm_inv_parts [OF inv] by blast
    then have "(a + 16, j) \<notin> L" for j
      using handed_out_fresh [of us a True vs j] *(2) by (simp add: L *(1) handed_out_mid)
    then have "a + 16 \<notin> fst ` L"
      by (metis (no_types) image_iff prod.collapse)
    moreover have "dm_owned pp g s' (insert (a + 16, k) L)"
      using *(8,9) k(2) own by (auto simp: dm_owned_def)
    ultimately show ?thesis using *(4,7,10) k(1) by (auto intro: exI [of _ k])
  next
    assume "OSMMalloc pp s n = Some (s, 0)
      \<and> (\<forall>(b, k)\<in>set (free_list bs (dm_start_address p)). k < unat (dm_round (dm_min_allocation p) n))"
    then show ?thesis using own by simp
  qed
qed

lemma dm_free_law:
  assumes own: "dm_owned pp g s L" and q: "(q, k) \<in> L"
  shows "\<exists>s'. OSMFree s q = Some s' \<and> dm_owned pp g s' (L - {(q, k)})"
proof -
  from own obtain bs where inv: "dm_inv s pp bs" and L: "L = handed_out bs"
    by (auto simp: dm_owned_def)
  from dm_inv_parts [OF inv] obtain xs t where bs: "bs = xs @ [(t, False)]" and ord: "ordered bs"
    by blast
  from q have "(q, k) \<in> set (used xs t)" by (simp add: L bs handed_out_def)
  from used_split [OF this] obtain us a ws where xs: "xs = us @ (a, False) # ws"
    and q': "q = a + 16" "k = unat (first_addr ws t) - unat a - 16" by blast
  let ?vs = "ws @ [(t, False)]"
  have bs': "bs = us @ (a, False) # ?vs" by (simp add: bs xs)
  from freemem_ok [of s pp us a ?vs] inv obtain s' where
    s': "OS_FreeMem s (a + DM_OVERHEAD) = Some (s', OS_ERR_NONE)"
      "dm_inv s' pp (free_block us a ?vs)" "dm_geometry s' pp = dm_geometry s pp"
    by (auto simp: bs')
  have "fst (hd ?vs) = first_addr ws t" by (cases ws) simp_all
  then have "handed_out bs = insert (q, k) (set (used us a) \<union> handed_out ?vs)"
    by (simp add: bs' handed_out_mid q')
  moreover have "(q, k) \<notin> set (used us a) \<union> handed_out ?vs"
    unfolding q'(1) by (rule handed_out_fresh [of us a False]) (use ord bs' in simp_all)
  ultimately have "L - {(q, k)} = set (used us a) \<union> handed_out ?vs"
    unfolding L by (metis Diff_insert_absorb)
  moreover have "handed_out (free_block us a ?vs) = set (used us a) \<union> handed_out ?vs"
    by (rule handed_out_free) simp_all
  ultimately have "handed_out (free_block us a ?vs) = L - {(q, k)}"
    by simp
  then show ?thesis
    using s' own by (auto simp: OSMFree_def q' DM_OVERHEAD_def dm_owned_def)
qed

text \<open>The pool is an allocator.\<close>

interpretation heap: allocator "OSMMalloc pp" OSMFree "dm_owned pp g" for pp g
proof unfold_locales
  show "inj_on fst L" if "dm_owned pp g s L" for s L
    using owned_apart [OF that] by (intro inj_onI) blast
qed (use dm_malloc_law dm_free_law owned_apart in blast)+

section \<open>The system pool from its initialisation on\<close>

text \<open>Where the linker may put the pool: 40 KB, word aligned, not touching the last address.\<close>

definition storage_ok :: "u32 \<Rightarrow> bool" where
  "storage_ok storage \<longleftrightarrow> unat storage + 40960 < 4294967296 \<and> 4 dvd unat storage"

lemma init_inv:
  assumes "storage_ok storage"
  shows "\<exists>s'. OS_DMemInit pp storage s = Some s'
    \<and> dm_inv s' pp [(storage, True), (storage + 40944, False)]
    \<and> dm_geometry s' pp = Some (storage, 40960, 16)"
proof -
  from create_pool_ok [of "[0x53, 0x79, 0x73, 0]" OS_DMEM_POOL_SIZE storage 16
      "s\<lparr>DMD_Total_Pools := 0\<rparr>" pp] assms
  obtain s' p where c: "OS_Create_Memory_Pool (s\<lparr>DMD_Total_Pools := 0\<rparr>) pp [0x53, 0x79, 0x73, 0]
      storage OS_DMEM_POOL_SIZE 16 = Some (s', OS_ERR_NONE)"
    and p: "dm_pools s' pp = Some p" "dm_start_address p = storage"
    and i: "dm_inv s' pp [(storage, True), (trailer_addr p, False)]"
    and av: "unat (dm_available p) = unat OS_DMEM_POOL_SIZE div 4 * 4 - 32"
    and geo: "dm_pool_size p = 40960" "dm_min_allocation p = 16"
    by (auto simp: storage_ok_def OS_DMEM_POOL_SIZE_def)
  from i p(1) have sh: "pool_shape (dm_headers s') pp p [(storage, True), (trailer_addr p, False)]"
    by (auto simp: dm_inv_def)
  then have wf: "pool_wf p"
    and fb: "unat (dm_available p) = free_bytes [(storage, True), (trailer_addr p, False)] storage"
    unfolding pool_shape_def by auto
  have "unat (trailer_addr p) = unat storage + 40944"
    using fb av unat_trailer [OF wf] wf
    by (simp add: OS_DMEM_POOL_SIZE_def p(2) pool_wf_def)
  then have "trailer_addr p = storage + 40944"
    using assms by (simp add: word_unat_eq_iff unat_add_small storage_ok_def)
  then show ?thesis
    using c i p geo by (simp add: OS_DMemInit_def dm_geometry_def)
qed

lemma init_owned:
  assumes "storage_ok storage"
  shows "\<exists>s'. OS_DMemInit pp storage s = Some s' \<and> dm_owned pp (storage, 40960, 16) s' {}"
proof -
  from init_inv [OF assms, of pp s] obtain s' where
    s': "OS_DMemInit pp storage s = Some s'" "dm_geometry s' pp = Some (storage, 40960, 16)"
      "dm_inv s' pp [(storage, True), (storage + 40944, False)]" by blast
  moreover have "handed_out [(storage, True), (storage + 40944, False)] = {}"
    by (simp add: handed_out_def)
  ultimately show ?thesis unfolding dm_owned_def by metis
qed

text \<open>A pool whose blocks are all free is one block.\<close>

lemma nothing_used_one_block:
  assumes "dm_inv s pp bs" and "handed_out bs = {}"
  shows "\<exists>p. dm_pools s pp = Some p \<and> bs = [(dm_start_address p, True), (trailer_addr p, False)]
    \<and> unat (dm_available p) = unat (dm_pool_size p) - 32"
proof -
  from dm_inv_parts [OF assms(1)] obtain p xs where p: "dm_pools s pp = Some p"
    and sh: "pool_shape (dm_headers s) pp p bs" and bs: "bs = xs @ [(trailer_addr p, False)]"
    by blast
  then have wf: "pool_wf p" and co: "coalesced bs" and hd: "fst (hd bs) = dm_start_address p"
    and av: "unat (dm_available p) = free_bytes bs (fst (hd bs))"
    unfolding pool_shape_def by auto
  note t = unat_trailer [OF wf]
  have "set (used xs (trailer_addr p)) = {}"
    using assms(2) by (simp add: bs handed_out_def)
  then have all: "\<forall>x\<in>set xs. snd x"
    by (induction xs) (auto simp: split_paired_all split: if_splits)
  have "xs \<noteq> []"
  proof
    assume "xs = []"
    then have "trailer_addr p = dm_start_address p" using hd by (simp add: bs)
    moreover have "32 \<le> unat (dm_pool_size p)" using wf by (simp add: pool_wf_def)
    ultimately show False using t by simp
  qed
  then obtain x xs' where x: "xs = x # xs'" by (cases xs) auto
  have "xs' = []"
    using co all by (cases xs') (auto simp: bs x coalesced_Cons)
  then have "bs = [(dm_start_address p, True), (trailer_addr p, False)]"
    using all hd by (cases x) (simp add: bs x)
  then show ?thesis
    using p av t wf by (simp add: pool_wf_def)
qed

text \<open>A request of the last three sizes wraps to 0 in the rounding, and the search is happy with
  any header.\<close>

lemma wrap_round:
  assumes "4294967293 \<le> unat r" and "unat m < 4294967293"
  shows "dm_round m r = 0"
proof -
  have "unat r = 4294967293 \<or> unat r = 4294967294 \<or> unat r = 4294967295"
    using assms(1) unat_lt_2p32 [of r] by linarith
  then have "r = 4294967293 \<or> r = 4294967294 \<or> r = 4294967295"
    by (auto simp: word_unat_eq_iff)
  moreover have "\<not> r < m" using assms by (simp add: word_less_nat_alt)
  ultimately show ?thesis by (auto simp: dm_round_def)
qed

lemma dm_search_zero:
  assumes "hs a = Some h"
  shows "dm_search hs q 0 a = Some (a, if dm_memory_free h then dm_next_memory h - a - DM_OVERHEAD else 0)"
  by (subst dm_search.simps) (simp add: assms Let_def)

lemma dm_search_at:
  "dm_search hs q sz a =
     (case hs a of
        None \<Rightarrow> None
      | Some h \<Rightarrow>
          (let fs = (if dm_memory_free h then dm_next_memory h - a - DM_OVERHEAD else 0) in
           if fs < sz then
             (if dm_next_memory h \<noteq> q then dm_search hs q sz (dm_next_memory h)
              else Some (dm_next_memory h, fs))
           else Some (a, fs)))"
  by (subst dm_search.simps) (rule refl)

lemmas dm_eval = OS_DMemInit_def OS_Create_Memory_Pool_def OSMMalloc_def OSMFree_def OS_GetMem_def
  OS_FreeMem_def Let_def OS_DMEM_POOL_SIZE_def mem_get_def DM_OVERHEAD_def dm_round_def
  dm_split_def set_header_def dm_merge_previous_def dm_merge_next_def

section \<open>Properties\<close>

text \<open>C1: from \<open>OS_DMemInit\<close> on, a client that frees only what it holds never makes the
  allocator fault, whatever the order of its requests, and the blocks it holds at any moment are
  pairwise disjoint (requests above 2^32 - 4 excepted).\<close>

theorem osm_alloc_safe:
  assumes "storage_ok storage"
    and "\<forall>n. Alloc n \<in> set ops \<longrightarrow> unat n + 3 < 4294967296"
  shows "\<exists>s0 t K held. OS_DMemInit pp storage s = Some s0
    \<and> alloc_run (OSMMalloc pp) OSMFree s0 [] ops = Some (t, held)
    \<and> dm_owned pp (storage, 40960, 16) t K \<and> fst ` K = set held \<and> pairwise disjoint_blocks K"
proof -
  from init_owned [OF assms(1), of pp s] obtain s0 where
    "OS_DMemInit pp storage s = Some s0" "dm_owned pp (storage, 40960, 16) s0 {}" by blast
  with heap.run_safe [OF this(2) _ assms(2), of "[]"] show ?thesis by auto
qed

definition no_pools :: dmem where
  "no_pools = \<lparr>dm_headers = Map.empty, dm_pools = Map.empty, DMD_Total_Pools = 0\<rparr>"

lemma osm_alloc_safe_witness:
  "\<exists>s0 t K held. OS_DMemInit 0x10003000 0x10004000 no_pools = Some s0
    \<and> alloc_run (OSMMalloc 0x10003000) OSMFree s0 []
        [Alloc 100, Alloc 20, Release 0x10004010, Alloc 40000] = Some (t, held)
    \<and> dm_owned 0x10003000 (0x10004000, 40960, 16) t K \<and> fst ` K = set held
    \<and> pairwise disjoint_blocks K"
  by (rule osm_alloc_safe) (auto simp: storage_ok_def)

text \<open>C2: freeing is complete: when every block has been given back, however the pool was cut
  in between, it is again the one free block it was after \<open>OS_DMemInit\<close> and all its bytes are
  available.\<close>

theorem osm_free_restores:
  assumes "storage_ok storage"
    and "\<forall>n. Alloc n \<in> set ops \<longrightarrow> unat n + 3 < 4294967296"
    and "OS_DMemInit pp storage s = Some s0"
    and "alloc_run (OSMMalloc pp) OSMFree s0 [] ops = Some (t, [])"
  shows "\<exists>p. dm_pools t pp = Some p \<and> dm_available p = 40928
    \<and> dm_inv t pp [(storage, True), (storage + 40944, False)]"
proof -
  from init_owned [OF assms(1), of pp s] assms(3) have "dm_owned pp (storage, 40960, 16) s0 {}"
    by auto
  with heap.run_safe [OF this _ assms(2), of "[]"] assms(4)
  have own: "dm_owned pp (storage, 40960, 16) t {}" by auto
  then obtain bs where "dm_inv t pp bs" "handed_out bs = {}" by (auto simp: dm_owned_def)
  from nothing_used_one_block [OF this] this(1) obtain p where p: "dm_pools t pp = Some p"
    "dm_inv t pp [(dm_start_address p, True), (trailer_addr p, False)]"
    "unat (dm_available p) = unat (dm_pool_size p) - 32" by blast
  have geo: "dm_start_address p = storage" "dm_pool_size p = 40960"
    using own p(1) by (simp_all add: dm_owned_def dm_geometry_def)
  have "dm_available p = 40928"
    using p(3) by (simp add: geo word_unat_eq_iff)
  moreover have "trailer_addr p = storage + 40944"
    by (simp add: geo trailer_addr_def)
  ultimately show ?thesis
    using p by (simp only: geo) auto
qed

lemma osm_run_example:
  "\<exists>s0 t. OS_DMemInit 0x10003000 0x10004000 no_pools = Some s0
     \<and> alloc_run (OSMMalloc 0x10003000) OSMFree s0 [] [Alloc 100, Release 0x10004010] = Some (t, [])"
  by (simp add: dm_eval no_pools_def dm_search_at [of _ _ _ "0x10004000"])

lemma osm_free_restores_witness:
  "\<exists>s0 t p. OS_DMemInit 0x10003000 0x10004000 no_pools = Some s0
     \<and> alloc_run (OSMMalloc 0x10003000) OSMFree s0 [] [Alloc 100, Release 0x10004010] = Some (t, [])
     \<and> dm_pools t 0x10003000 = Some p \<and> dm_available p = 40928
     \<and> dm_inv t 0x10003000 [(0x10004000, True), (0x10004000 + 40944, False)]"
proof -
  have ok: "storage_ok 0x10004000" by (simp add: storage_ok_def)
  from osm_run_example obtain s0 t where "OS_DMemInit 0x10003000 0x10004000 no_pools = Some s0"
    "alloc_run (OSMMalloc 0x10003000) OSMFree s0 [] [Alloc 100, Release 0x10004010] = Some (t, [])"
    by blast
  with osm_free_restores [OF ok _ this] show ?thesis by auto
qed

text \<open>C3: a request succeeds exactly when some free block can hold it after rounding; the
  block returned was free and is large enough, and a failure changes nothing.\<close>

theorem osm_malloc_complete:
  assumes "dm_inv s pp bs" and "dm_pools s pp = Some p" and "unat r + 3 < 4294967296"
  shows "\<exists>s' q. OSMMalloc pp s r = Some (s', q)
    \<and> (q = 0 \<longleftrightarrow> (\<forall>(b, k)\<in>set (free_list bs (dm_start_address p)).
         k < unat (dm_round (dm_min_allocation p) r)))
    \<and> (if q = 0 then s' = s
       else \<exists>k. unat r \<le> k \<and> (q - 16, k) \<in> set (free_list bs (dm_start_address p)))"
  using OSMMalloc_cases [OF assms]
proof
  assume "\<exists>us a vs sz fs m s'. bs = us @ (a, True) # vs \<and> vs \<noteq> [] \<and> sz \<le> fs \<and> unat r \<le> unat sz
      \<and> unat fs = unat (fst (hd vs)) - unat a - 16 \<and> unat a + 16 \<le> unat (fst (hd vs))
      \<and> OSMMalloc pp s r = Some (s', a + 16) \<and> dm_inv s' pp (take_block m sz us a fs vs)
      \<and> dm_geometry s' pp = dm_geometry s pp
      \<and> (a, unat fs) \<in> set (free_list bs (dm_start_address p))
      \<and> sz = dm_round (dm_min_allocation p) r \<and> a + 16 \<noteq> 0"
  then obtain a fs s' where "dm_round (dm_min_allocation p) r \<le> fs"
    "unat r \<le> unat (dm_round (dm_min_allocation p) r)"
    "OSMMalloc pp s r = Some (s', a + 16)" "a + 16 \<noteq> 0"
    "(a, unat fs) \<in> set (free_list bs (dm_start_address p))" by blast
  moreover from this(1,5) have "\<not> (\<forall>(b, k)\<in>set (free_list bs (dm_start_address p)).
      k < unat (dm_round (dm_min_allocation p) r))"
    by (auto simp: word_le_nat_alt intro!: bexI [of _ "(a, unat fs)"])
  moreover have "unat r \<le> unat fs"
    using calculation(1,2) by (simp add: word_le_nat_alt)
  ultimately show ?thesis
    by (intro exI [of _ s'] exI [of _ "a + 16"]) auto
qed simp

lemma osm_malloc_complete_witness:
  "\<exists>s0 p s' q. OS_DMemInit 0x10003000 0x10004000 no_pools = Some s0
    \<and> dm_pools s0 0x10003000 = Some p \<and> OSMMalloc 0x10003000 s0 40928 = Some (s', q)
    \<and> (q = 0 \<longleftrightarrow> (\<forall>(b, k)\<in>set (free_list [(0x10004000, True), (0x10004000 + 40944, False)]
         (dm_start_address p)). k < unat (dm_round (dm_min_allocation p) 40928)))"
proof -
  have ok: "storage_ok 0x10004000" by (simp add: storage_ok_def)
  from init_inv [OF ok] obtain s0 p where s0: "OS_DMemInit 0x10003000 0x10004000 no_pools = Some s0"
    "dm_inv s0 0x10003000 [(0x10004000, True), (0x10004000 + 40944, False)]"
    "dm_pools s0 0x10003000 = Some p"
    by (metis dm_inv_def)
  from osm_malloc_complete [OF s0(2,3), of 40928] s0(1,3) show ?thesis by auto
qed

text \<open>What the rounding does to the three largest requests: the size wraps to 0, every
  header satisfies the search, and \<open>OSMMalloc\<close> reports success with the block at the search
  pointer, even when that block is in use or is the trailer of the pool.\<close>

theorem osm_malloc_wrap:
  assumes "dm_inv s pp bs" and "dm_pools s pp = Some p" and "4294967293 \<le> unat r"
    and "(dm_search_ptr p, False) \<in> set bs"
  shows "\<exists>s'. OSMMalloc pp s r = Some (s', dm_search_ptr p + 16)"
proof -
  let ?q = "dm_search_ptr p"
  from dm_inv_parts [OF assms(1)] assms(2) have shape: "pool_shape (dm_headers s) pp p bs"
    by auto
  then have "unat (dm_min_allocation p) < 4294967293"
    by (auto simp: pool_shape_def pool_wf_def)
  then have sz: "dm_round (dm_min_allocation p) r = 0" by (rule wrap_round [OF assms(3)])
  from assms(4) obtain us vs where bs: "bs = us @ (?q, False) # vs"
    by (meson split_list)
  have "seg (dm_headers s) pp (fst (last bs)) bs (fst (hd bs))" and wf: "pool_wf p"
    using shape unfolding pool_shape_def by blast+
  then obtain h where h: "dm_headers s ?q = Some h" "\<not> dm_memory_free h"
    by (auto simp: bs)
  have "\<not> DM_OVERHEAD + dm_min_allocation p \<le> 0"
  proof
    assume "DM_OVERHEAD + dm_min_allocation p \<le> 0"
    then have "unat (DM_OVERHEAD + dm_min_allocation p) = 0" by (simp add: word_le_nat_alt)
    moreover have "unat (DM_OVERHEAD + dm_min_allocation p) = 16 + unat (dm_min_allocation p)"
      using wf by (simp add: DM_OVERHEAD_def unat_add_small pool_wf_def)
    ultimately show False by simp
  qed
  then show ?thesis
    using assms(2) h sz dm_search_zero [where hs = "dm_headers s" and a = ?q and q = ?q and h = h, OF h(1)]
    by (simp add: OSMMalloc_def OS_GetMem_def Let_def set_header_def DM_OVERHEAD_def)
qed

lemma osm_exhausted_example:
  "\<exists>s0 s1 p. OS_DMemInit 0x10003000 0x10004000 no_pools = Some s0
    \<and> OSMMalloc 0x10003000 s0 40928 = Some (s1, 0x10004010)
    \<and> dm_pools s1 0x10003000 = Some p \<and> dm_search_ptr p = 0x1000dff0
    \<and> dm_inv s1 0x10003000 [(0x10004000, False), (0x1000dff0, False)]"
  by (simp add: dm_eval no_pools_def dm_search_at [of _ _ _ "0x10004000"] dm_inv_def
      pool_shape_def pool_wf_def trailer_addr_def before_def coalesced_Cons)

lemma osm_malloc_wrap_witness:
  "\<exists>s0 s1 s2. OS_DMemInit 0x10003000 0x10004000 no_pools = Some s0
    \<and> OSMMalloc 0x10003000 s0 40928 = Some (s1, 0x10004010)
    \<and> OSMMalloc 0x10003000 s1 0xffffffff = Some (s2, 0x1000e000)"
proof -
  from osm_exhausted_example obtain s0 s1 p where s:
    "OS_DMemInit 0x10003000 0x10004000 no_pools = Some s0"
    "OSMMalloc 0x10003000 s0 40928 = Some (s1, 0x10004010)"
    "dm_pools s1 0x10003000 = Some p" "dm_search_ptr p = 0x1000dff0"
    "dm_inv s1 0x10003000 [(0x10004000, False), (0x1000dff0, False)]" by blast
  with osm_malloc_wrap [OF s(5,3), of "0xffffffff"] show ?thesis by auto
qed

end
