(* ===== verification/RingBuf.thy ===== *)
theory RingBuf
  imports DynMem
begin

text \<open>
  The UART ring buffer, \<^verbatim>\<open>App/SerialNet/ring_buffer.c\<close>.  The indices are the C
  \<open>unsigned int\<close>s (32-bit words, so \<open>tail + 1\<close> and \<open>size - 1\<close> wrap as they do on the
  chip), the counts are C \<open>int\<close>s.  \<open>None\<close> is a \<open>memcpy\<close> outside the buffer.
  The theory shows that the buffer is a bounded FIFO: it interprets the locale
  \<open>bounded_fifo\<close>, whose client lemma says that no interleaving of writes and reads loses,
  reorders or invents a byte.
\<close>

section \<open>The code\<close>

record ring_buffer =
  rb_size :: u32
  rb_head :: u32
  rb_tail :: u32
  rb_buffer :: "u8 list"

definition ring_buf_clear :: "ring_buffer \<Rightarrow> ring_buffer" where
  "ring_buf_clear ring = ring\<lparr>rb_head := 0, rb_tail := 0\<rparr>"

definition ring_buf_empty :: "ring_buffer \<Rightarrow> bool" where
  "ring_buf_empty ring \<longleftrightarrow> rb_tail ring = rb_head ring"

definition ring_buf_full :: "ring_buffer \<Rightarrow> bool" where
  "ring_buf_full ring \<longleftrightarrow> (rb_tail ring + 1) mod rb_size ring = rb_head ring"

definition ring_buf_cnt :: "ring_buffer \<Rightarrow> int" where
  "ring_buf_cnt ring =
     (if rb_head ring \<le> rb_tail ring then sint (rb_tail ring - rb_head ring)
      else sint (rb_size ring + rb_tail ring - rb_head ring))"

definition ring_buf_space :: "ring_buffer \<Rightarrow> int" where
  "ring_buf_space ring =
     (if rb_tail ring < rb_head ring then sint (rb_head ring - rb_tail ring - 1)
      else sint (rb_size ring - 1 + rb_head ring - rb_tail ring))"

definition ring_buf_cnt_to_end :: "ring_buffer \<Rightarrow> int" where
  "ring_buf_cnt_to_end ring =
     (if rb_head ring \<le> rb_tail ring then sint (rb_tail ring - rb_head ring)
      else sint (rb_size ring - rb_head ring))"

definition ring_buf_space_to_end :: "ring_buffer \<Rightarrow> int" where
  "ring_buf_space_to_end ring =
     (if rb_tail ring < rb_head ring then sint (rb_head ring - rb_tail ring - 1)
      else sint (rb_size ring - 1 - rb_tail ring + (if 0 < rb_head ring then 1 else 0)))"

text \<open>\<open>ring_buf_write_char\<close>: the store, then \<open>tail++\<close> and the wrap.\<close>

definition ring_buf_write_char :: "ring_buffer \<Rightarrow> u8 \<Rightarrow> (ring_buffer \<times> bool) option" where
  "ring_buf_write_char cb d =
     (if \<not> ring_buf_full cb then
        do {
          b \<leftarrow> mem_put (rb_buffer cb) (unat (rb_tail cb)) [d];
          let t = rb_tail cb + 1;
          Some (cb\<lparr>rb_buffer := b,
                   rb_tail := (if rb_size cb \<le> t then t - rb_size cb else t)\<rparr>, True)
        }
      else Some (cb, False))"

text \<open>The loop of \<open>ring_buf_write\<close>: each round copies the contiguous part, moves the tail
  and goes on with what is left of the user's buffer.\<close>

function ring_buf_write_loop ::
  "ring_buffer \<Rightarrow> u8 list \<Rightarrow> int \<Rightarrow> int \<Rightarrow> (ring_buffer \<times> int) option" where
  "ring_buf_write_loop cb buf count ret =
     (let c = min count (ring_buf_space_to_end cb) in
      if c \<le> 0 then Some (cb, ret)
      else do {
        xs \<leftarrow> mem_get buf 0 (nat c);
        b \<leftarrow> mem_put (rb_buffer cb) (unat (rb_tail cb)) xs;
        let t = rb_tail cb + word_of_int c;
        let t' = (if rb_size cb \<le> t then t - rb_size cb else t);
        ring_buf_write_loop (cb\<lparr>rb_buffer := b, rb_tail := t'\<rparr>) (drop (nat c) buf)
          (count - c) (ret + c)
      })"
  by pat_completeness auto
termination
  by (relation "measure (\<lambda>(cb, buf, count, ret). nat count)") auto

declare ring_buf_write_loop.simps [simp del]

definition ring_buf_write ::
  "ring_buffer \<Rightarrow> u8 list \<Rightarrow> int \<Rightarrow> (ring_buffer \<times> int) option" where
  "ring_buf_write cb buf count = ring_buf_write_loop cb buf count 0"

text \<open>\<open>ring_buf_read\<close> appends what it copies to the caller's buffer: the third component
  is the bytes stored so far at \<open>buf\<close>.\<close>

function ring_buf_read_loop ::
  "ring_buffer \<Rightarrow> u8 list \<Rightarrow> int \<Rightarrow> int \<Rightarrow> (ring_buffer \<times> u8 list \<times> int) option" where
  "ring_buf_read_loop cb out count ret =
     (let c = min count (ring_buf_cnt_to_end cb) in
      if c \<le> 0 then Some (cb, out, ret)
      else do {
        xs \<leftarrow> mem_get (rb_buffer cb) (unat (rb_head cb)) (nat c);
        let h = rb_head cb + word_of_int c;
        let h' = (if rb_size cb \<le> h then h - rb_size cb else h);
        ring_buf_read_loop (cb\<lparr>rb_head := h'\<rparr>) (out @ xs) (count - c) (ret + c)
      })"
  by pat_completeness auto
termination
  by (relation "measure (\<lambda>(cb, out, count, ret). nat count)") auto

declare ring_buf_read_loop.simps [simp del]

definition ring_buf_read :: "ring_buffer \<Rightarrow> int \<Rightarrow> (ring_buffer \<times> u8 list \<times> int) option" where
  "ring_buf_read cb count = ring_buf_read_loop cb [] count 0"

text \<open>\<open>ring_buf_alloc\<close>: \<open>storage\<close> is what lies at the block the pool returns; a null pointer is
  the empty buffer.  \<open>ring_buf_free\<close> gives the pool the address of the ring structure itself,
  as the code does, and not that of the storage.\<close>

definition ring_buf_alloc ::
  "u32 \<Rightarrow> dmem \<Rightarrow> u8 list \<Rightarrow> u32 \<Rightarrow> (dmem \<times> ring_buffer \<times> int) option" where
  "ring_buf_alloc pool s storage data_len = do {
     (s', p) \<leftarrow> OSMMalloc pool s data_len;
     Some (s', \<lparr>rb_size = data_len, rb_head = 0, rb_tail = 0,
                rb_buffer = (if p = 0 then [] else storage)\<rparr>, 0)
   }"

definition ring_buf_free :: "dmem \<Rightarrow> u32 \<Rightarrow> ring_buffer \<Rightarrow> (dmem \<times> ring_buffer) option" where
  "ring_buf_free s ring_addr ring =
     map_option (\<lambda>s'. (s', ring_buf_clear ring)) (OSMFree s ring_addr)"

section \<open>Invariant and abstraction\<close>

definition ring_ok :: "ring_buffer \<Rightarrow> bool" where
  "ring_ok r \<longleftrightarrow> unat (rb_size r) < 2147483648 \<and> unat (rb_head r) < unat (rb_size r)
     \<and> unat (rb_tail r) < unat (rb_size r) \<and> length (rb_buffer r) = unat (rb_size r)"

text \<open>The bytes in the buffer, oldest first.\<close>

definition contents :: "ring_buffer \<Rightarrow> u8 list" where
  "contents r =
     (let h = unat (rb_head r); t = unat (rb_tail r); b = rb_buffer r in
      if h \<le> t then take (t - h) (drop h b) else drop h b @ take t b)"

definition capacity :: "ring_buffer \<Rightarrow> nat" where
  "capacity r = unat (rb_size r) - 1"

lemmas ring_defs = ring_ok_def contents_def capacity_def Let_def word_le_nat_alt
  word_less_nat_alt

lemma length_contents:
  "ring_ok r \<Longrightarrow> length (contents r) =
     (if unat (rb_head r) \<le> unat (rb_tail r) then unat (rb_tail r) - unat (rb_head r)
      else unat (rb_size r) + unat (rb_tail r) - unat (rb_head r))"
  by (auto simp: ring_defs)

lemma contents_within_capacity: "ring_ok r \<Longrightarrow> length (contents r) \<le> capacity r"
  by (auto simp: length_contents capacity_def) (auto simp: ring_ok_def)

lemma cnt_is_length: "ring_ok r \<Longrightarrow> ring_buf_cnt r = int (length (contents r))"
  by (simp add: length_contents)
    (auto simp: ring_buf_cnt_def ring_defs sint_small unat_sub_le unat_add_small)

lemma space_is_rest:
  "ring_ok r \<Longrightarrow> ring_buf_space r = int (capacity r - length (contents r))"
  by (simp add: length_contents)
    (auto simp: ring_buf_space_def ring_defs sint_small unat_sub_le unat_add_small)

lemma empty_iff: "ring_ok r \<Longrightarrow> ring_buf_empty r \<longleftrightarrow> contents r = []"
  by (auto simp: ring_buf_empty_def ring_defs unat_arith_simps(3))

lemma full_iff:
  assumes "ring_ok r"
  shows "ring_buf_full r \<longleftrightarrow> length (contents r) = capacity r"
proof -
  have lt: "unat (rb_tail r) < unat (rb_size r)" "unat (rb_size r) < 2147483648"
    using assms by (simp_all add: ring_ok_def)
  have "unat ((rb_tail r + 1) mod rb_size r) = (unat (rb_tail r) + 1) mod unat (rb_size r)"
    using lt by (simp add: unat_mod unat_add_small)
  also have "\<dots> = (if unat (rb_tail r) + 1 = unat (rb_size r) then 0 else unat (rb_tail r) + 1)"
    using lt by auto
  finally have "ring_buf_full r \<longleftrightarrow>
      (if unat (rb_tail r) + 1 = unat (rb_size r) then 0 else unat (rb_tail r) + 1)
        = unat (rb_head r)"
    by (simp add: ring_buf_full_def word_unat_eq_iff)
  then show ?thesis
    using assms by (auto simp: length_contents capacity_def) (auto simp: ring_ok_def)
qed

lemma cnt_to_end_eq:
  "ring_ok r \<Longrightarrow> ring_buf_cnt_to_end r =
     int (if unat (rb_head r) \<le> unat (rb_tail r) then unat (rb_tail r) - unat (rb_head r)
          else unat (rb_size r) - unat (rb_head r))"
  by (auto simp: ring_buf_cnt_to_end_def ring_defs sint_small unat_sub_le)

lemma space_to_end_eq:
  "ring_ok r \<Longrightarrow> ring_buf_space_to_end r =
     int (if unat (rb_tail r) < unat (rb_head r)
          then unat (rb_head r) - unat (rb_tail r) - 1
          else unat (rb_size r) - 1 - unat (rb_tail r) + (if 0 < unat (rb_head r) then 1 else 0))"
  by (auto simp: ring_buf_space_to_end_def ring_defs sint_small unat_sub_le unat_add_small)

lemma space_to_end_pos:
  "ring_ok r \<Longrightarrow> 0 < ring_buf_space_to_end r \<longleftrightarrow> length (contents r) < capacity r"
  by (auto simp: space_to_end_eq length_contents capacity_def) (auto simp: ring_ok_def)

lemma cnt_to_end_pos: "ring_ok r \<Longrightarrow> 0 < ring_buf_cnt_to_end r \<longleftrightarrow> contents r \<noteq> []"
  by (auto simp: cnt_to_end_eq ring_defs split: if_splits)

section \<open>One contiguous transfer\<close>

text \<open>Both write operations store a block at the tail and move the tail; both are this
  step, whose effect on the abstraction is to append the block.\<close>

definition push :: "ring_buffer \<Rightarrow> u8 list \<Rightarrow> u32 \<Rightarrow> ring_buffer" where
  "push r xs n = r\<lparr>
     rb_buffer := take (unat (rb_tail r)) (rb_buffer r) @ xs
       @ drop (unat (rb_tail r) + length xs) (rb_buffer r),
     rb_tail := (if rb_size r \<le> rb_tail r + n then rb_tail r + n - rb_size r else rb_tail r + n)\<rparr>"

definition pop :: "ring_buffer \<Rightarrow> u32 \<Rightarrow> ring_buffer" where
  "pop r n = r\<lparr>rb_head :=
     (if rb_size r \<le> rb_head r + n then rb_head r + n - rb_size r else rb_head r + n)\<rparr>"

lemma wrap_unat:
  fixes t n s :: u32
  assumes "unat t < unat s" "unat s < 2147483648" "unat t + unat n \<le> unat s"
  shows "unat (if s \<le> t + n then t + n - s else t + n) =
    (if unat t + unat n = unat s then 0 else unat t + unat n)"
  using assms by (auto simp: word_le_nat_alt unat_add_small unat_sub_le)

lemma push_ok:
  assumes ok: "ring_ok r" and n: "unat n = length xs"
    and fit: "int (length xs) \<le> ring_buf_space_to_end r"
  shows "ring_ok (push r xs n) \<and> contents (push r xs n) = contents r @ xs
    \<and> mem_put (rb_buffer r) (unat (rb_tail r)) xs = Some (rb_buffer (push r xs n))"
proof -
  let ?t = "unat (rb_tail r)" and ?h = "unat (rb_head r)" and ?s = "unat (rb_size r)"
  have b: "?t < ?s" "?s < 2147483648" "?h < ?s" "length (rb_buffer r) = ?s"
    using ok by (simp_all add: ring_ok_def)
  have f: "length xs \<le> (if ?t < ?h then ?h - ?t - 1 else ?s - 1 - ?t + (if 0 < ?h then 1 else 0))"
    using fit ok by (simp add: space_to_end_eq split: if_splits)
  have room: "?t + length xs \<le> ?s"
    using f b by (auto split: if_splits)
  then have tail: "unat (rb_tail (push r xs n)) =
      (if ?t + length xs = ?s then 0 else ?t + length xs)"
    using wrap_unat [of "rb_tail r" "rb_size r" n] b n by (simp add: push_def)
  show ?thesis
    using b f room tail by (auto simp: ring_ok_def contents_def Let_def push_def drop_take
      mem_put_def split: if_splits)
qed

lemma push_frame [simp]:
  "rb_size (push r xs n) = rb_size r" "rb_head (push r xs n) = rb_head r"
  "capacity (push r xs n) = capacity r"
  by (simp_all add: push_def capacity_def)

lemma pop_frame [simp]:
  "rb_size (pop r n) = rb_size r" "rb_tail (pop r n) = rb_tail r"
  "rb_buffer (pop r n) = rb_buffer r" "capacity (pop r n) = capacity r"
  by (simp_all add: pop_def capacity_def)

lemma pop_ok:
  assumes ok: "ring_ok r" and fit: "int (unat n) \<le> ring_buf_cnt_to_end r"
  shows "ring_ok (pop r n) \<and> contents (pop r n) = drop (unat n) (contents r)
    \<and> mem_get (rb_buffer r) (unat (rb_head r)) (unat n) = Some (take (unat n) (contents r))"
proof -
  let ?t = "unat (rb_tail r)" and ?h = "unat (rb_head r)" and ?s = "unat (rb_size r)"
  have b: "?t < ?s" "?s < 2147483648" "?h < ?s" "length (rb_buffer r) = ?s"
    using ok by (simp_all add: ring_ok_def)
  have f: "unat n \<le> (if ?h \<le> ?t then ?t - ?h else ?s - ?h)"
    using fit ok by (simp add: cnt_to_end_eq split: if_splits)
  have room: "?h + unat n \<le> ?s"
    using f b by (auto split: if_splits)
  then have head: "unat (rb_head (pop r n)) =
      (if ?h + unat n = ?s then 0 else ?h + unat n)"
    using wrap_unat [of "rb_head r" "rb_size r" n] b by (simp add: pop_def)
  have get: "mem_get (rb_buffer r) ?h (unat n) = Some (take (unat n) (drop ?h (rb_buffer r)))"
    using room b by (simp add: mem_get_Some)
  have ok': "ring_ok (pop r n)"
    using b head room by (auto simp: ring_ok_def)
  show ?thesis
    using b f room head get ok'
    by (auto simp: contents_def Let_def min_def drop_take ac_simps split: if_splits)
qed

section \<open>The operations\<close>

lemma ring_buf_write_char_ok:
  assumes "ring_ok r"
  shows "\<exists>r'. ring_buf_write_char r d = Some (r', length (contents r) < capacity r)
    \<and> ring_ok r' \<and> capacity r' = capacity r
    \<and> contents r' = (if length (contents r) < capacity r then contents r @ [d] else contents r)"
proof (cases "length (contents r) < capacity r")
  case True
  have c: "int (length [d]) \<le> ring_buf_space_to_end r"
    using True assms by (auto simp: space_to_end_eq length_contents capacity_def split: if_splits)
  have "\<not> ring_buf_full r" using True assms by (simp add: full_iff)
  moreover have "unat (rb_tail r) < length (rb_buffer r)"
    using assms by (simp add: ring_ok_def)
  ultimately have "ring_buf_write_char r d = Some (push r [d] 1, True)"
    by (simp add: ring_buf_write_char_def push_def mem_put_def Let_def)
  then show ?thesis using push_ok [OF assms _ c, of 1] True by simp
next
  case False
  then have "ring_buf_full r"
    using assms contents_within_capacity [of r] by (simp add: full_iff)
  with False assms show ?thesis by (simp add: ring_buf_write_char_def)
qed

lemma ring_buf_write_loop_ok:
  assumes "ring_ok r" and "count \<le> int (length buf)" and "length buf < 2147483648"
  shows "\<exists>r' k. ring_buf_write_loop r buf count ret = Some (r', ret + int k)
    \<and> ring_ok r' \<and> capacity r' = capacity r \<and> contents r' = contents r @ take k buf
    \<and> k = min (nat count) (capacity r - length (contents r))"
  using assms
proof (induction r buf count ret rule: ring_buf_write_loop.induct)
  case (1 cb buf count ret)
  define c where "c = min count (ring_buf_space_to_end cb)"
  show ?case
  proof (cases "c \<le> 0")
    case True
    then have "ring_buf_write_loop cb buf count ret = Some (cb, ret)"
      by (simp add: ring_buf_write_loop.simps c_def Let_def)
    moreover have "min (nat count) (capacity cb - length (contents cb)) = 0"
      using True space_to_end_pos [OF "1.prems"(1)] by (auto simp: c_def min_def split: if_splits)
    ultimately show ?thesis using "1.prems" by simp
  next
    case False
    define xs where "xs = take (nat c) buf"
    define cb' where "cb' = push cb xs (word_of_int c)"
    have c: "0 < c" "c \<le> count" "c \<le> int (length buf)" "c < 2147483648"
      using False "1.prems" by (auto simp: c_def)
    then have len: "length xs = nat c" and n: "unat (word_of_int c :: u32) = length xs"
      by (simp_all add: xs_def unat_of_int_small)
    have get: "mem_get buf 0 (nat c) = Some xs"
      using c by (simp add: mem_get_def xs_def)
    have fit: "int (length xs) \<le> ring_buf_space_to_end cb"
      using c by (simp add: len c_def)
    note p = push_ok [OF "1.prems"(1) n fit, folded cb'_def]
    have eq: "cb\<lparr>rb_buffer := rb_buffer cb',
        rb_tail := (if rb_size cb \<le> rb_tail cb + word_of_int c
          then rb_tail cb + word_of_int c - rb_size cb else rb_tail cb + word_of_int c)\<rparr> = cb'"
      by (simp add: cb'_def push_def)
    have step: "ring_buf_write_loop cb buf count ret =
        ring_buf_write_loop cb' (drop (nat c) buf) (count - c) (ret + c)"
      using False get p eq
      by (subst ring_buf_write_loop.simps) (simp flip: c_def add: Let_def)
    have abs: "capacity cb' = capacity cb" "contents cb' = contents cb @ take (nat c) buf"
        "length (contents cb @ take (nat c) buf) = length (contents cb) + nat c"
      using p len by (simp_all add: cb'_def xs_def)
    have "\<exists>r' k. ring_buf_write_loop cb' (drop (nat c) buf) (count - c) (ret + c)
          = Some (r', ret + c + int k)
        \<and> ring_ok r' \<and> capacity r' = capacity cb'
        \<and> contents r' = contents cb' @ take k (drop (nat c) buf)
        \<and> k = min (nat (count - c)) (capacity cb' - length (contents cb'))"
      using "1.IH" [OF c_def False get _ refl refl, of "rb_buffer cb'"]
      using p c "1.prems" eq by simp
    then obtain r' k where r': "ring_buf_write_loop cb buf count ret = Some (r', ret + c + int k)"
        "ring_ok r'" "capacity r' = capacity cb"
        "contents r' = contents cb @ take (nat c) buf @ take k (drop (nat c) buf)"
      and k: "k = min (nat (count - c)) (capacity cb - (length (contents cb) + nat c))"
      unfolding step abs by auto
    have "nat c + length (contents cb) \<le> capacity cb"
      using contents_within_capacity [of cb'] p len by (simp add: cb'_def)
    then have "nat c + k = min (nat count) (capacity cb - length (contents cb))"
      using chunk_count [of c count "capacity cb - length (contents cb)"] k c by simp
    moreover have "ret + c + int k = ret + int (nat c + k)"
      using c by simp
    ultimately show ?thesis
      using r' by (intro exI [of _ r'] exI [of _ "nat c + k"]) (simp flip: take_add)
  qed
qed

lemma ring_buf_read_loop_ok:
  assumes "ring_ok r"
  shows "\<exists>r' k. ring_buf_read_loop r out count ret
      = Some (r', out @ take k (contents r), ret + int k)
    \<and> ring_ok r' \<and> capacity r' = capacity r \<and> contents r' = drop k (contents r)
    \<and> k = min (nat count) (length (contents r))"
  using assms
proof (induction r out count ret rule: ring_buf_read_loop.induct)
  case (1 cb out count ret)
  define c where "c = min count (ring_buf_cnt_to_end cb)"
  show ?case
  proof (cases "c \<le> 0")
    case True
    then have "ring_buf_read_loop cb out count ret = Some (cb, out, ret)"
      by (simp add: ring_buf_read_loop.simps c_def Let_def)
    moreover have "min (nat count) (length (contents cb)) = 0"
      using True cnt_to_end_pos [OF "1.prems"] by (auto simp: c_def min_def split: if_splits)
    ultimately show ?thesis using "1.prems" by simp
  next
    case False
    define cb' where "cb' = pop cb (word_of_int c)"
    have c: "0 < c" "c \<le> count" "c < 4294967296"
      using False "1.prems" by (auto simp: c_def cnt_to_end_eq ring_ok_def)
    then have n: "unat (word_of_int c :: u32) = nat c"
      by (simp add: unat_of_int_small)
    have "int (unat (word_of_int c :: u32)) \<le> ring_buf_cnt_to_end cb"
      unfolding n using c by (simp add: c_def)
    note p = pop_ok [OF "1.prems" this, folded cb'_def, unfolded n]
    have eq: "cb\<lparr>rb_head := (if rb_size cb \<le> rb_head cb + word_of_int c
          then rb_head cb + word_of_int c - rb_size cb else rb_head cb + word_of_int c)\<rparr> = cb'"
      by (simp add: cb'_def pop_def)
    have step: "ring_buf_read_loop cb out count ret =
        ring_buf_read_loop cb' (out @ take (nat c) (contents cb)) (count - c) (ret + c)"
      using False p eq by (subst ring_buf_read_loop.simps) (simp flip: c_def add: Let_def)
    have abs: "capacity cb' = capacity cb" "contents cb' = drop (nat c) (contents cb)"
      using p by (simp_all add: cb'_def)
    have "ring_ok cb'" using p by simp
    then have "\<exists>r' k. ring_buf_read_loop cb' (out @ take (nat c) (contents cb)) (count - c) (ret + c)
          = Some (r', (out @ take (nat c) (contents cb)) @ take k (contents cb'), ret + c + int k)
        \<and> ring_ok r' \<and> capacity r' = capacity cb' \<and> contents r' = drop k (contents cb')
        \<and> k = min (nat (count - c)) (length (contents cb'))"
      using "1.IH" [OF c_def False _ refl refl, of "take (nat c) (contents cb)"] p eq by simp
    then obtain r' k where r': "ring_buf_read_loop cb out count ret
          = Some (r', out @ take (nat c) (contents cb) @ take k (drop (nat c) (contents cb)), ret + c + int k)"
        "ring_ok r'" "capacity r' = capacity cb"
        "contents r' = drop k (drop (nat c) (contents cb))"
      and k: "k = min (nat (count - c)) (length (contents cb) - nat c)"
      unfolding step abs by auto
    have "nat c \<le> length (contents cb)"
      using "1.prems" by (auto simp: c_def cnt_to_end_eq length_contents ring_ok_def min_def)
    then have "nat c + k = min (nat count) (length (contents cb))"
      using chunk_count [of c count "length (contents cb)"] k c by simp
    moreover have "ret + c + int k = ret + int (nat c + k)"
      using c by simp
    ultimately show ?thesis
      using r' by (intro exI [of _ r'] exI [of _ "nat c + k"]) (simp flip: take_add add: add.commute [of k])
  qed
qed

lemma ring_buf_write_ok:
  assumes "ring_ok r" and "count \<le> int (length buf)" and "length buf < 2147483648"
  shows "\<exists>r' k. ring_buf_write r buf count = Some (r', int k)
    \<and> ring_ok r' \<and> capacity r' = capacity r \<and> contents r' = contents r @ take k buf
    \<and> k = min (nat count) (capacity r - length (contents r))"
  using ring_buf_write_loop_ok [OF assms, of 0] by (simp add: ring_buf_write_def)

lemma ring_buf_read_ok:
  assumes "ring_ok r"
  shows "\<exists>r' k. ring_buf_read r count = Some (r', take k (contents r), int k)
    \<and> ring_ok r' \<and> capacity r' = capacity r \<and> contents r' = drop k (contents r)
    \<and> k = min (nat count) (length (contents r))"
  using ring_buf_read_loop_ok [OF assms, of "[]" count 0] by (simp add: ring_buf_read_def)

lemma ring_buf_clear_ok:
  "ring_ok r \<Longrightarrow> ring_ok (ring_buf_clear r) \<and> contents (ring_buf_clear r) = []
     \<and> capacity (ring_buf_clear r) = capacity r"
  by (auto simp: ring_buf_clear_def ring_defs)

lemma ring_buf_alloc_ok:
  assumes "OSMMalloc pool s n = Some (s', p)" and "p \<noteq> 0"
    and "length storage = unat n" and "0 < unat n" and "unat n < 2147483648"
  shows "\<exists>r. ring_buf_alloc pool s storage n = Some (s', r, 0) \<and> ring_ok r \<and> contents r = []
    \<and> capacity r = unat n - 1"
  using assms by (auto simp: ring_buf_alloc_def ring_defs)

section \<open>The buffer is a bounded FIFO\<close>

text \<open>The read as the sender uses it: the bytes stored at \<open>send_buf\<close>.\<close>

definition ring_take :: "ring_buffer \<Rightarrow> nat \<Rightarrow> (ring_buffer \<times> u8 list) option" where
  "ring_take r n = map_option (\<lambda>(r', xs, _). (r', xs)) (ring_buf_read r (int n))"

interpretation ring: bounded_fifo ring_buf_write_char ring_take contents capacity ring_ok
proof unfold_locales
  fix s x assume "ring_ok s"
  then show "\<exists>s'. ring_buf_write_char s x = Some (s', length (contents s) < capacity s)
      \<and> ring_ok s' \<and> capacity s' = capacity s
      \<and> contents s' = (if length (contents s) < capacity s then contents s @ [x] else contents s)"
    by (rule ring_buf_write_char_ok)
next
  fix s n assume "ring_ok s"
  then show "\<exists>s'. ring_take s n = Some (s', take n (contents s)) \<and> ring_ok s'
      \<and> capacity s' = capacity s \<and> contents s' = drop n (contents s)"
    using ring_buf_read_ok [of s "int n"] by (auto simp: ring_take_def min_def)
next
  fix s assume "ring_ok s"
  then show "length (contents s) \<le> capacity s"
    by (rule contents_within_capacity)
qed

section \<open>Properties\<close>

text \<open>C4: for every interleaving of \<open>ring_buf_write_char\<close> and \<open>ring_buf_read\<close> no access leaves
  the storage, the bytes accepted come out in order, each once, and the rest is still inside;
  no more than \<open>size - 1\<close> bytes are ever held.\<close>

theorem ring_buf_conserves:
  assumes "ring_ok r"
  shows "\<exists>t ins outs. fifo_run ring_buf_write_char ring_take r ops = Some (t, ins, outs)
    \<and> ring_ok t \<and> capacity t = capacity r \<and> contents r @ ins = outs @ contents t
    \<and> length (contents t) \<le> unat (rb_size r) - 1"
  using ring.run_conserves [OF assms, of ops] contents_within_capacity
  by (fastforce simp: capacity_def)

definition ring_example :: ring_buffer where
  "ring_example = \<lparr>rb_size = 4, rb_head = 2, rb_tail = 1, rb_buffer = [3, 0, 1, 2]\<rparr>"

lemma ring_buf_conserves_witness:
  "\<exists>t ins outs. fifo_run ring_buf_write_char ring_take ring_example
      [Put 9, Get 2, Put 4, Put 5, Put 6] = Some (t, ins, outs)
    \<and> ring_ok t \<and> capacity t = capacity ring_example
    \<and> contents ring_example @ ins = outs @ contents t
    \<and> length (contents t) \<le> unat (rb_size ring_example) - 1"
  by (rule ring_buf_conserves) (simp add: ring_example_def ring_ok_def)

text \<open>\<open>ring_buf_write\<close> appends exactly the longest prefix of the caller's bytes that fits and
  returns its length, across the wrap of the tail, reading nothing beyond \<open>count\<close> bytes of the
  caller's buffer; a non-positive count writes nothing.\<close>

theorem ring_buf_write_prefix:
  assumes "ring_ok r" and "count \<le> int (length buf)" and "length buf < 2147483648"
  shows "\<exists>r' k. ring_buf_write r buf count = Some (r', int k)
    \<and> ring_ok r' \<and> contents r' = contents r @ take k buf
    \<and> k = min (nat count) (capacity r - length (contents r))"
  using ring_buf_write_ok [OF assms] by blast

lemma ring_buf_write_prefix_witness:
  "\<exists>r' k. ring_buf_write ring_example [7, 8, 9] 3 = Some (r', int k)
    \<and> ring_ok r' \<and> contents r' = contents ring_example @ take k [7, 8, 9]
    \<and> k = min (nat 3) (capacity ring_example - length (contents ring_example))"
  by (rule ring_buf_write_prefix) (simp_all add: ring_example_def ring_ok_def)

text \<open>\<open>ring_buf_read\<close> stores the oldest bytes, as many as are there and were asked for, and
  removes exactly those.\<close>

theorem ring_buf_read_oldest:
  assumes "ring_ok r"
  shows "\<exists>r' k. ring_buf_read r count = Some (r', take k (contents r), int k)
    \<and> ring_ok r' \<and> contents r' = drop k (contents r)
    \<and> k = min (nat count) (length (contents r))"
  using ring_buf_read_ok [OF assms] by blast

lemma ring_buf_read_oldest_witness:
  "\<exists>r' k. ring_buf_read ring_example 2 = Some (r', take k (contents ring_example), int k)
    \<and> ring_ok r' \<and> contents r' = drop k (contents ring_example)
    \<and> k = min (nat 2) (length (contents ring_example))"
  by (rule ring_buf_read_oldest) (simp add: ring_example_def ring_ok_def)

text \<open>The four counters tell the truth about the contents in every reachable position of the
  indices: the bytes held, the bytes that still fit, and the two contiguous parts.\<close>

theorem ring_buf_counters:
  assumes "ring_ok r"
  shows "ring_buf_cnt r = int (length (contents r))
    \<and> ring_buf_space r = int (capacity r - length (contents r))
    \<and> ring_buf_cnt_to_end r = int (min (length (contents r)) (unat (rb_size r) - unat (rb_head r)))
    \<and> ring_buf_space_to_end r
        = int (min (capacity r - length (contents r)) (unat (rb_size r) - unat (rb_tail r)))
    \<and> (ring_buf_empty r \<longleftrightarrow> contents r = []) \<and> (ring_buf_full r \<longleftrightarrow> length (contents r) = capacity r)"
proof (intro conjI)
  show "ring_buf_cnt r = int (length (contents r))" by (rule cnt_is_length [OF assms])
  show "ring_buf_space r = int (capacity r - length (contents r))"
    using space_is_rest [OF assms] contents_within_capacity [OF assms] by simp
  show "ring_buf_cnt_to_end r = int (min (length (contents r)) (unat (rb_size r) - unat (rb_head r)))"
    using assms by (auto simp: cnt_to_end_eq length_contents ring_ok_def)
  show "ring_buf_space_to_end r
      = int (min (capacity r - length (contents r)) (unat (rb_size r) - unat (rb_tail r)))"
    using assms by (auto simp: space_to_end_eq length_contents ring_ok_def capacity_def)
  show "ring_buf_empty r \<longleftrightarrow> contents r = []" by (rule empty_iff [OF assms])
  show "ring_buf_full r \<longleftrightarrow> length (contents r) = capacity r"
    using full_iff [OF assms] contents_within_capacity [OF assms] by auto
qed

lemma ring_buf_counters_witness:
  "ring_buf_cnt ring_example = int (length (contents ring_example))
    \<and> ring_buf_cnt ring_example = 3 \<and> ring_buf_space ring_example = 0"
  using ring_buf_counters [of ring_example]
  by (simp add: ring_example_def ring_ok_def contents_def capacity_def)

end
