(* ===== verification/DhcpServer.thy ===== *)
theory DhcpServer
  imports Prelude
begin

text \<open>
  The DHCP server of the soft access point, \<^verbatim>\<open>App/DhcpServer/dhcp_server.c\<close> with the
  structures of \<^verbatim>\<open>dhcp_server.h\<close>.  The static objects \<open>DhcpServer\<close> and \<open>DhcpMsg\<close> are the
  state; client pointers are indices into the table of eight; the message buffer is the 548
  bytes of \<open>DHCP_MSG\<close>, shared by reception and transmission as in the code.  The datagrams an
  operation hands to \<open>udp_sendto\<close> are its output; \<open>pbuf_alloc\<close>, \<open>udp_new\<close> and
  \<open>APGetStationStatus\<close> are not code of the firmware, their results are arguments.

  Memory behind the message (\<open>beyond\<close>, by offset) is an argument of the option parser, which
  can read past the buffer.
\<close>

section \<open>The code\<close>

datatype dhcp_client_state =
  DHCP_CLIENT_STATE_IDLE | DHCP_CLIENT_STATE_SELECT | DHCP_CLIENT_STATE_REQUEST
| DHCP_CLIENT_STATE_BIND

type_synonym mac = "u8 list"

record dhcp_client =
  cl_State :: dhcp_client_state
  cl_Timeout :: u32
  cl_IpAddr :: u32
  cl_MacAddr :: mac
  cl_Lease :: u32

record dhcp_server =
  ds_Enable :: u8
  ds_Socket :: u32
  ds_ServerIpAddr :: u32
  ds_StartIpAddr :: u32
  ds_SubnetMask :: u32
  ds_GateWay :: u32
  ds_Dns1 :: u32
  ds_Dns2 :: u32
  ds_LeaseTime :: u32
  ds_Clients :: "dhcp_client list"

record dhcp =
  DhcpServer :: dhcp_server
  DhcpMsg :: "u8 list"
  dhcp_tick_armed :: bool

record netif_view =
  nif_up :: bool
  nif_ip_addr :: u32
  nif_netmask :: u32

abbreviation DHCPS_HISTORY_CLIENT_NUM :: nat where "DHCPS_HISTORY_CLIENT_NUM \<equiv> 8"
abbreviation DHCP_MSG_SIZE :: nat where "DHCP_MSG_SIZE \<equiv> 548"
abbreviation DHCP_OPTIONS_OFFSET :: nat where "DHCP_OPTIONS_OFFSET \<equiv> 240"

definition DHCP_DEFAULT_LEASE_TIME :: u32 where
  "DHCP_DEFAULT_LEASE_TIME = 3600 * 24 * 365 * 10"

definition DHCP_DEFFAULT_TIMEOUT :: u32 where
  "DHCP_DEFFAULT_TIMEOUT = 10"

abbreviation DHCP_MAGIC :: u32 where "DHCP_MAGIC \<equiv> 0x63825363"
abbreviation DHCP_OPTION_ID_PAD :: u8 where "DHCP_OPTION_ID_PAD \<equiv> 0"
abbreviation DHCP_OPTION_ID_REQ_IP_ADDR :: u8 where "DHCP_OPTION_ID_REQ_IP_ADDR \<equiv> 50"
abbreviation DHCP_OPTION_ID_MSG_TYPE :: u8 where "DHCP_OPTION_ID_MSG_TYPE \<equiv> 53"
abbreviation DHCP_OPTION_ID_SERVER_ID :: u8 where "DHCP_OPTION_ID_SERVER_ID \<equiv> 54"
abbreviation DHCP_OPTION_ID_END :: u8 where "DHCP_OPTION_ID_END \<equiv> 255"
abbreviation DHCP_MSG_DISCOVER :: u8 where "DHCP_MSG_DISCOVER \<equiv> 1"
abbreviation DHCP_MSG_OFFER :: u8 where "DHCP_MSG_OFFER \<equiv> 2"
abbreviation DHCP_MSG_REQUEST :: u8 where "DHCP_MSG_REQUEST \<equiv> 3"
abbreviation DHCP_MSG_DECLINE :: u8 where "DHCP_MSG_DECLINE \<equiv> 4"
abbreviation DHCP_MSG_ACK :: u8 where "DHCP_MSG_ACK \<equiv> 5"
abbreviation DHCP_MSG_NAK :: u8 where "DHCP_MSG_NAK \<equiv> 6"
abbreviation DHCP_MSG_RELEASE :: u8 where "DHCP_MSG_RELEASE \<equiv> 7"

abbreviation zero_mac :: mac where "zero_mac \<equiv> replicate 6 0"

subsection \<open>The tick\<close>

definition tick_client :: "(mac \<Rightarrow> u8) \<Rightarrow> dhcp_client \<Rightarrow> dhcp_client" where
  "tick_client station c =
     (if cl_State c = DHCP_CLIENT_STATE_REQUEST then
        (if cl_Timeout c \<noteq> 0 then
           (let c1 = c\<lparr>cl_Timeout := cl_Timeout c - 1\<rparr> in
            if cl_Timeout c1 = 0
            then c1\<lparr>cl_MacAddr := zero_mac, cl_State := DHCP_CLIENT_STATE_IDLE\<rparr> else c1)
         else c)
      else if cl_State c = DHCP_CLIENT_STATE_BIND then
        (let c1 = (if cl_Lease c \<noteq> 0 then c\<lparr>cl_Lease := cl_Lease c - 1\<rparr> else c) in
         if cl_Lease c \<noteq> 0 \<and> cl_Lease c1 = 0 then c1\<lparr>cl_State := DHCP_CLIENT_STATE_IDLE\<rparr>
         else if station (cl_MacAddr c1) = 0 then c1\<lparr>cl_State := DHCP_CLIENT_STATE_IDLE\<rparr>
         else c1)
      else c)"

definition DhcpTickHandle :: "(mac \<Rightarrow> u8) \<Rightarrow> dhcp \<Rightarrow> dhcp" where
  "DhcpTickHandle station s =
     (let s0 = s\<lparr>dhcp_tick_armed := False\<rparr>; srv = DhcpServer s in
      if ds_Enable srv = 0 then s0
      else s0\<lparr>DhcpServer := srv\<lparr>ds_Clients := map (tick_client station) (ds_Clients srv)\<rparr>,
              dhcp_tick_armed := True\<rparr>)"

subsection \<open>Parsing the options\<close>

record dhcp_options =
  opt_MsgType :: u8
  opt_ReqIpAddr :: u32
  opt_ServerId :: u32
  opt_Ret :: u8

definition msg_read :: "(nat \<Rightarrow> u8) \<Rightarrow> u8 list \<Rightarrow> nat \<Rightarrow> u8" where
  "msg_read beyond msg p = (if p < DHCP_MSG_SIZE then msg ! p else beyond p)"

definition msg_read32 :: "(nat \<Rightarrow> u8) \<Rightarrow> u8 list \<Rightarrow> nat \<Rightarrow> u32" where
  "msg_read32 beyond msg p = of_le32 (map (msg_read beyond msg) [p, p + 1, p + 2, p + 3])"

text \<open>One option at \<open>p\<close>, as the loop body treats it.\<close>

definition parse_option ::
  "(nat \<Rightarrow> u8) \<Rightarrow> u8 list \<Rightarrow> nat \<Rightarrow> dhcp_options \<Rightarrow> dhcp_options" where
  "parse_option beyond msg p st =
     (let o1 = msg_read beyond msg p in
      if o1 = DHCP_OPTION_ID_MSG_TYPE
      then st\<lparr>opt_MsgType := msg_read beyond msg (p + 2), opt_Ret := opt_Ret st OR 1\<rparr>
      else if o1 = DHCP_OPTION_ID_REQ_IP_ADDR
      then st\<lparr>opt_ReqIpAddr := msg_read32 beyond msg (p + 2), opt_Ret := opt_Ret st OR 2\<rparr>
      else if o1 = DHCP_OPTION_ID_SERVER_ID
      then st\<lparr>opt_ServerId := msg_read32 beyond msg (p + 2), opt_Ret := opt_Ret st OR 4\<rparr>
      else st)"

function ParseDhcpOptions ::
  "(nat \<Rightarrow> u8) \<Rightarrow> u8 list \<Rightarrow> nat \<Rightarrow> dhcp_options \<Rightarrow> dhcp_options" where
  "ParseDhcpOptions beyond msg p st =
     (if msg_read beyond msg p \<noteq> DHCP_OPTION_ID_END \<and> p < DHCP_MSG_SIZE then
        (if msg_read beyond msg p = DHCP_OPTION_ID_PAD
         then ParseDhcpOptions beyond msg (p + 1) st
         else ParseDhcpOptions beyond msg (p + 2 + unat (msg_read beyond msg (p + 1)))
                (parse_option beyond msg p st))
      else st)"
  by pat_completeness auto
termination
  by (relation "measure (\<lambda>(beyond, msg, p, st). DHCP_MSG_SIZE - p)") auto

declare ParseDhcpOptions.simps [simp del]

subsection \<open>The client table\<close>

record lookup_ptrs =
  pFreeClient :: "nat option"
  pReqClient :: "nat option"
  pHistoryClient :: "nat option"
  pMyHistoryClient :: "nat option"
  pMyClient :: "nat option"
  IpUnavailable :: bool

definition no_ptrs :: lookup_ptrs where
  "no_ptrs = \<lparr>pFreeClient = None, pReqClient = None, pHistoryClient = None,
     pMyHistoryClient = None, pMyClient = None, IpUnavailable = False\<rparr>"

definition first_ptr :: "nat option \<Rightarrow> bool \<Rightarrow> nat \<Rightarrow> nat option" where
  "first_ptr old found i = (if old = None \<and> found then Some i else old)"

definition scan_client :: "mac \<Rightarrow> u32 \<Rightarrow> nat \<Rightarrow> dhcp_client \<Rightarrow> lookup_ptrs \<Rightarrow> lookup_ptrs" where
  "scan_client mac req i c p =
     (if cl_State c = DHCP_CLIENT_STATE_IDLE then
        p\<lparr>pMyHistoryClient := first_ptr (pMyHistoryClient p) (cl_MacAddr c = mac) i,
          pReqClient := first_ptr (pReqClient p) (cl_IpAddr c = req) i,
          pFreeClient := first_ptr (pFreeClient p) (cl_MacAddr c = zero_mac) i,
          pHistoryClient := first_ptr (pHistoryClient p) (cl_MacAddr c \<noteq> zero_mac) i\<rparr>
      else if cl_MacAddr c = mac then p\<lparr>pMyClient := Some i\<rparr>
      else if cl_IpAddr c = req then p\<lparr>IpUnavailable := True\<rparr>
      else p)"

fun scan_clients ::
  "mac \<Rightarrow> u32 \<Rightarrow> nat \<Rightarrow> dhcp_client list \<Rightarrow> lookup_ptrs \<Rightarrow> lookup_ptrs" where
  "scan_clients mac req i [] p = p"
| "scan_clients mac req i (c # cs) p = scan_clients mac req (Suc i) cs (scan_client mac req i c p)"

text \<open>What REQUEST, RELEASE and DECLINE do to the sender's entry.\<close>

definition release_client :: "dhcp_client \<Rightarrow> dhcp_client" where
  "release_client c =
     (let c1 = (if cl_State c \<noteq> DHCP_CLIENT_STATE_BIND then c\<lparr>cl_MacAddr := zero_mac\<rparr> else c) in
      c1\<lparr>cl_State := DHCP_CLIENT_STATE_IDLE\<rparr>)"

definition upd_client :: "dhcp_client list \<Rightarrow> nat \<Rightarrow> (dhcp_client \<Rightarrow> dhcp_client) \<Rightarrow> dhcp_client list" where
  "upd_client cs i f = cs[i := f (cs ! i)]"

definition lookup_discover :: "dhcp_client list \<Rightarrow> lookup_ptrs \<Rightarrow> dhcp_client list \<times> nat option" where
  "lookup_discover cs p =
     (case pMyClient p of
        Some my \<Rightarrow>
          (let cs1 = upd_client cs my (cl_State_update (\<lambda>_. DHCP_CLIENT_STATE_IDLE)) in
           case pReqClient p of
             Some r \<Rightarrow>
               ((if cl_State (cs1 ! my) \<noteq> DHCP_CLIENT_STATE_BIND
                 then upd_client cs1 my (cl_MacAddr_update (\<lambda>_. zero_mac)) else cs1), Some r)
           | None \<Rightarrow> (cs1, Some my))
      | None \<Rightarrow>
          (cs, if pReqClient p \<noteq> None then pReqClient p
               else if pMyHistoryClient p \<noteq> None then pMyHistoryClient p
               else if pFreeClient p \<noteq> None then pFreeClient p
               else pHistoryClient p))"

definition lookup_request ::
  "dhcp_client list \<Rightarrow> lookup_ptrs \<Rightarrow> u32 \<Rightarrow> u32 \<Rightarrow> dhcp_client list \<times> nat option" where
  "lookup_request cs p server_ip server_id =
     (let mine = (server_id = 0 \<or> server_ip = server_id) in
      case pMyClient p of
        Some my \<Rightarrow>
          if IpUnavailable p then (upd_client cs my release_client, None)
          else if pReqClient p \<noteq> None
          then (upd_client cs my release_client, if mine then pReqClient p else None)
          else if mine then (cs, Some my)
          else (cs, None)
      | None \<Rightarrow>
          if IpUnavailable p then (cs, None)
          else if mine then (cs, pReqClient p)
          else (cs, None))"

definition lookup_release :: "dhcp_client list \<Rightarrow> lookup_ptrs \<Rightarrow> dhcp_client list \<times> nat option" where
  "lookup_release cs p =
     (case pMyClient p of
        Some my \<Rightarrow> (upd_client cs my release_client, None)
      | None \<Rightarrow> (cs, None))"

definition ClientTableLookup ::
  "dhcp_client list \<Rightarrow> u32 \<Rightarrow> mac \<Rightarrow> u8 \<Rightarrow> u32 \<Rightarrow> u32 \<Rightarrow> dhcp_client list \<times> nat option" where
  "ClientTableLookup cs server_ip mac msg_type req server_id =
     (let p = scan_clients mac req 0 cs no_ptrs;
          (cs1, ret) =
            (if msg_type = DHCP_MSG_DISCOVER then lookup_discover cs p
             else if msg_type = DHCP_MSG_REQUEST then lookup_request cs p server_ip server_id
             else if msg_type = DHCP_MSG_RELEASE then lookup_release cs p
             else if msg_type = DHCP_MSG_DECLINE then lookup_release cs p
             else (cs, None)) in
      case ret of
        None \<Rightarrow> (cs1, None)
      | Some i \<Rightarrow> (upd_client cs1 i (cl_MacAddr_update (\<lambda>_. mac)), Some i))"

subsection \<open>Replies\<close>

text \<open>The option macros append to the body; \<open>put_at\<close> writes a field of the message.\<close>

definition put_at :: "nat \<Rightarrow> u8 list \<Rightarrow> u8 list \<Rightarrow> u8 list" where
  "put_at off xs msg = take off msg @ xs @ drop (off + length xs) msg"

definition DHCP_SET_OPTION32 :: "u8 \<Rightarrow> u32 \<Rightarrow> u8 list" where
  "DHCP_SET_OPTION32 option_id v = [option_id, 4] @ le32 v"

definition DHCP_SET_OPTION_MSG_TYPE :: "u8 \<Rightarrow> u8 list" where
  "DHCP_SET_OPTION_MSG_TYPE msg_type = [DHCP_OPTION_ID_MSG_TYPE, 1, msg_type]"

definition dhcp_header :: "u32 \<Rightarrow> u32 \<Rightarrow> u32 \<Rightarrow> mac \<Rightarrow> u8 list" where
  "dhcp_header yiaddr siaddr xid mac =
     put_at 236 (le32 (lwip_htonl DHCP_MAGIC))
      (put_at 28 (take 6 mac)
      (put_at 20 (le32 siaddr)
      (put_at 16 (le32 yiaddr)
      (put_at 4 (le32 (lwip_htonl xid))
      (put_at 0 [2, 1, 6] (replicate DHCP_MSG_SIZE 0))))))"

text \<open>\<open>send s alloc msg body\<close>: the message with its options in \<open>DhcpMsg\<close>, the datagram of
  \<open>Len\<close> bytes sent.  Without a packet buffer nothing happens.\<close>

definition dhcp_send :: "dhcp \<Rightarrow> bool \<Rightarrow> u8 list \<Rightarrow> u8 list \<Rightarrow> dhcp \<times> u8 list list" where
  "dhcp_send s alloc header body =
     (if alloc then
        (let m = put_at DHCP_OPTIONS_OFFSET body header in
         (s\<lparr>DhcpMsg := m\<rparr>, [take (DHCP_OPTIONS_OFFSET + length body) m]))
      else (s, []))"

definition DHCPNakGenAndSend :: "dhcp \<Rightarrow> bool \<Rightarrow> mac \<Rightarrow> u32 \<Rightarrow> dhcp \<times> u8 list list" where
  "DHCPNakGenAndSend s alloc mac xid =
     dhcp_send s alloc (dhcp_header 0 (ds_ServerIpAddr (DhcpServer s)) xid mac)
       (DHCP_SET_OPTION_MSG_TYPE DHCP_MSG_NAK @ [DHCP_OPTION_ID_END])"

text \<open>The options that ACK and OFFER share.\<close>

definition dhcp_offer_body :: "dhcp_server \<Rightarrow> u8 \<Rightarrow> u8 list" where
  "dhcp_offer_body srv msg_type =
     DHCP_SET_OPTION_MSG_TYPE msg_type
     @ DHCP_SET_OPTION32 51 (lwip_htonl DHCP_DEFAULT_LEASE_TIME)
     @ DHCP_SET_OPTION32 DHCP_OPTION_ID_SERVER_ID (ds_ServerIpAddr srv)
     @ DHCP_SET_OPTION32 1 (ds_SubnetMask srv)
     @ DHCP_SET_OPTION32 3 (ds_GateWay srv)
     @ DHCP_SET_OPTION32 6 (ds_Dns1 srv)
     @ [DHCP_OPTION_ID_END]"

definition DHCPAckGenAndSend ::
  "dhcp \<Rightarrow> bool \<Rightarrow> dhcp_client \<Rightarrow> mac \<Rightarrow> u32 \<Rightarrow> dhcp \<times> u8 list list" where
  "DHCPAckGenAndSend s alloc c mac xid =
     dhcp_send s alloc (dhcp_header (cl_IpAddr c) 0 xid mac)
       (dhcp_offer_body (DhcpServer s) DHCP_MSG_ACK)"

definition DHCPOfferGenAndSend ::
  "dhcp \<Rightarrow> bool \<Rightarrow> dhcp_client \<Rightarrow> mac \<Rightarrow> u32 \<Rightarrow> dhcp \<times> u8 list list" where
  "DHCPOfferGenAndSend s alloc c mac xid =
     dhcp_send s alloc (dhcp_header (cl_IpAddr c) 0 xid mac)
       (dhcp_offer_body (DhcpServer s) DHCP_MSG_OFFER)"

definition CleanClientHistory :: "dhcp_client list \<Rightarrow> mac \<Rightarrow> dhcp_client list" where
  "CleanClientHistory cs mac = map (\<lambda>c.
     if cl_State c = DHCP_CLIENT_STATE_IDLE \<and> cl_MacAddr c = mac
     then c\<lparr>cl_MacAddr := zero_mac\<rparr> else c) cs"

subsection \<open>The client state machine\<close>

definition set_clients :: "(dhcp_client list \<Rightarrow> dhcp_client list) \<Rightarrow> dhcp \<Rightarrow> dhcp" where
  "set_clients f s = s\<lparr>DhcpServer := (DhcpServer s)\<lparr>ds_Clients := f (ds_Clients (DhcpServer s))\<rparr>\<rparr>"

definition sme_ack :: "dhcp \<Rightarrow> bool \<Rightarrow> nat \<Rightarrow> u32 \<Rightarrow> dhcp \<times> u8 list list" where
  "sme_ack s alloc i xid =
     (let c = ds_Clients (DhcpServer s) ! i;
          (s1, out) = DHCPAckGenAndSend s alloc c (cl_MacAddr c) xid;
          s2 = set_clients (\<lambda>cs. upd_client cs i (\<lambda>c. c\<lparr>cl_Lease := DHCP_DEFAULT_LEASE_TIME,
                 cl_State := DHCP_CLIENT_STATE_BIND\<rparr>)) s1 in
      (set_clients (\<lambda>cs. CleanClientHistory cs (cl_MacAddr c)) s2, out))"

definition sme_offer :: "dhcp \<Rightarrow> bool \<Rightarrow> nat \<Rightarrow> u32 \<Rightarrow> dhcp \<times> u8 list list" where
  "sme_offer s alloc i xid =
     (let c = ds_Clients (DhcpServer s) ! i;
          (s1, out) = DHCPOfferGenAndSend s alloc c (cl_MacAddr c) xid in
      (set_clients (\<lambda>cs. upd_client cs i (\<lambda>c. c\<lparr>cl_Timeout := DHCP_DEFFAULT_TIMEOUT,
         cl_State := DHCP_CLIENT_STATE_REQUEST\<rparr>)) s1, out))"

definition DhcpClientSMEHandle :: "dhcp \<Rightarrow> bool \<Rightarrow> nat \<Rightarrow> u8 \<Rightarrow> u32 \<Rightarrow> dhcp \<times> u8 list list" where
  "DhcpClientSMEHandle s alloc i msg_type xid =
     (case cl_State (ds_Clients (DhcpServer s) ! i) of
        DHCP_CLIENT_STATE_IDLE \<Rightarrow>
          (if msg_type = DHCP_MSG_DISCOVER then
             sme_offer (set_clients (\<lambda>cs. upd_client cs i
               (cl_State_update (\<lambda>_. DHCP_CLIENT_STATE_SELECT))) s) alloc i xid
           else if msg_type = DHCP_MSG_REQUEST then sme_ack s alloc i xid
           else sme_offer s alloc i xid)
      | DHCP_CLIENT_STATE_SELECT \<Rightarrow> sme_offer s alloc i xid
      | DHCP_CLIENT_STATE_REQUEST \<Rightarrow> sme_ack s alloc i xid
      | DHCP_CLIENT_STATE_BIND \<Rightarrow> sme_ack s alloc i xid)"

subsection \<open>The entry points\<close>

definition DHCPS_RecvCb ::
  "(nat \<Rightarrow> u8) \<Rightarrow> bool \<Rightarrow> dhcp \<Rightarrow> u8 list \<Rightarrow> dhcp \<times> u8 list list" where
  "DHCPS_RecvCb beyond alloc s packet =
     (let n = min (length packet) DHCP_MSG_SIZE;
          msg = take n packet @ drop n (DhcpMsg s);
          s1 = s\<lparr>DhcpMsg := msg\<rparr> in
      if n = 0 \<or> msg ! 0 \<noteq> 1 \<or> lwip_htonl (of_le32 (take 4 (drop 236 msg))) \<noteq> DHCP_MAGIC
         \<or> msg ! 1 \<noteq> 1
      then (s1, [])
      else
        (let opts = ParseDhcpOptions beyond msg DHCP_OPTIONS_OFFSET
               \<lparr>opt_MsgType = 0xff, opt_ReqIpAddr = 0, opt_ServerId = 0, opt_Ret = 0\<rparr> in
         if opt_Ret opts AND 1 = 0 then (s1, [])
         else
           (let xid = lwip_htonl (of_le32 (take 4 (drop 4 msg)));
                mac = take 6 (drop 28 msg);
                srv = DhcpServer s1;
                (cs, ret) = ClientTableLookup (ds_Clients srv) (ds_ServerIpAddr srv) mac
                  (opt_MsgType opts) (opt_ReqIpAddr opts) (opt_ServerId opts);
                s2 = set_clients (\<lambda>_. cs) s1 in
            case ret of
              None \<Rightarrow>
                (if opt_MsgType opts \<noteq> DHCP_MSG_RELEASE \<and> opt_MsgType opts \<noteq> DHCP_MSG_DECLINE
                 then DHCPNakGenAndSend s2 alloc mac xid else (s2, []))
            | Some i \<Rightarrow> DhcpClientSMEHandle s2 alloc i (opt_MsgType opts) xid)))"

abbreviation DHCPS_ERR_SUCCESS :: int where "DHCPS_ERR_SUCCESS \<equiv> 0"
abbreviation DHCPS_ERR_LINKDOWN :: int where "DHCPS_ERR_LINKDOWN \<equiv> -1"
abbreviation DHCPS_ERR_PARAM :: int where "DHCPS_ERR_PARAM \<equiv> -2"
abbreviation DHCPS_ERR_MEM :: int where "DHCPS_ERR_MEM \<equiv> -3"
abbreviation DHCPS_ERR_NOT_BIND :: int where "DHCPS_ERR_NOT_BIND \<equiv> -4"
abbreviation DHCPS_ERR_NOT_FOUND :: int where "DHCPS_ERR_NOT_FOUND \<equiv> -5"
abbreviation DHCPS_ERR_INACTIVE :: int where "DHCPS_ERR_INACTIVE \<equiv> -6"

fun delete_loop :: "mac \<Rightarrow> dhcp_client list \<Rightarrow> dhcp_client list \<times> int" where
  "delete_loop mac [] = ([], DHCPS_ERR_NOT_FOUND)"
| "delete_loop mac (c # cs) =
     (if cl_State c \<noteq> DHCP_CLIENT_STATE_IDLE \<and> cl_MacAddr c = mac then
        (if cl_State c \<noteq> DHCP_CLIENT_STATE_BIND then (c # cs, DHCPS_ERR_NOT_BIND)
         else (c\<lparr>cl_State := DHCP_CLIENT_STATE_IDLE\<rparr> # cs, DHCPS_ERR_SUCCESS))
      else (let (cs', r) = delete_loop mac cs in (c # cs', r)))"

text \<open>A null \<open>MacAddr\<close> is \<^term>\<open>None\<close>.\<close>

definition DHCPS_ClientDelete :: "mac option \<Rightarrow> dhcp \<Rightarrow> dhcp \<times> int" where
  "DHCPS_ClientDelete mac_ptr s =
     (if ds_Enable (DhcpServer s) = 0 then (s, DHCPS_ERR_INACTIVE)
      else (case mac_ptr of
        None \<Rightarrow> (s, DHCPS_ERR_PARAM)
      | Some mac \<Rightarrow>
          (let (cs, r) = delete_loop mac (ds_Clients (DhcpServer s)) in
           (set_clients (\<lambda>_. cs) s, r))))"

text \<open>\<open>x % (~Mask)\<close> with the replacement of 0 by 1; a zero divisor is the fault
  \<^term>\<open>None\<close>.\<close>

definition pool_host :: "u32 \<Rightarrow> u32 \<Rightarrow> u32 option" where
  "pool_host netmask x =
     (if NOT netmask = 0 then None
      else Some (if x mod (NOT netmask) \<noteq> 0 then x mod (NOT netmask) else 1))"

definition zero_client :: dhcp_client where
  "zero_client = \<lparr>cl_State = DHCP_CLIENT_STATE_IDLE, cl_Timeout = 0, cl_IpAddr = 0,
     cl_MacAddr = zero_mac, cl_Lease = 0\<rparr>"

definition zero_server :: dhcp_server where
  "zero_server = \<lparr>ds_Enable = 0, ds_Socket = 0, ds_ServerIpAddr = 0, ds_StartIpAddr = 0,
     ds_SubnetMask = 0, ds_GateWay = 0, ds_Dns1 = 0, ds_Dns2 = 0, ds_LeaseTime = 0,
     ds_Clients = replicate DHCPS_HISTORY_CLIENT_NUM zero_client\<rparr>"

fun init_clients :: "u32 \<Rightarrow> u32 \<Rightarrow> nat list \<Rightarrow> dhcp_client list option" where
  "init_clients start_ip netmask [] = Some []"
| "init_clients start_ip netmask (i # is) = do {
     let v = lwip_htonl start_ip;
     h \<leftarrow> pool_host netmask ((v AND NOT netmask) + of_nat i);
     cs \<leftarrow> init_clients start_ip netmask is;
     Some (zero_client\<lparr>cl_IpAddr := lwip_htonl ((v AND netmask) OR h),
             cl_Lease := DHCP_DEFAULT_LEASE_TIME\<rparr> # cs)
   }"

definition DHCPS_Start :: "u32 \<Rightarrow> netif_view \<Rightarrow> dhcp \<Rightarrow> (dhcp \<times> int) option" where
  "DHCPS_Start new_pcb netif s =
     (if \<not> nif_up netif then Some (s, DHCPS_ERR_LINKDOWN)
      else do {
        let v = lwip_htonl (nif_ip_addr netif);
        let netmask = lwip_htonl (nif_netmask netif);
        h \<leftarrow> pool_host netmask ((v AND NOT netmask) + 1);
        let start = lwip_htonl ((v AND netmask) OR h);
        cs \<leftarrow> init_clients start netmask [0..<DHCPS_HISTORY_CLIENT_NUM];
        let srv = zero_server\<lparr>ds_ServerIpAddr := nif_ip_addr netif, ds_StartIpAddr := start,
          ds_SubnetMask := nif_netmask netif, ds_GateWay := nif_ip_addr netif,
          ds_Dns1 := nif_ip_addr netif, ds_LeaseTime := DHCP_DEFAULT_LEASE_TIME,
          ds_Clients := cs, ds_Socket := new_pcb\<rparr>;
        if new_pcb = 0 then Some (s\<lparr>DhcpServer := srv\<rparr>, DHCPS_ERR_MEM)
        else Some (s\<lparr>DhcpServer := srv\<lparr>ds_Enable := 1\<rparr>, dhcp_tick_armed := True\<rparr>,
                   DHCPS_ERR_SUCCESS)
      })"

definition DHCPS_Stop :: "dhcp \<Rightarrow> dhcp" where
  "DHCPS_Stop s = s\<lparr>dhcp_tick_armed := False, DhcpServer := zero_server\<rparr>"

section \<open>The table invariant\<close>

definition active :: "dhcp_client \<Rightarrow> bool" where
  "active c \<longleftrightarrow> cl_State c \<noteq> DHCP_CLIENT_STATE_IDLE"

text \<open>At most one entry negotiates with, or is bound to, a hardware address.\<close>

definition one_entry :: "dhcp_client list \<Rightarrow> bool" where
  "one_entry cs \<longleftrightarrow> (\<forall>i<length cs. \<forall>j<length cs.
     active (cs ! i) \<longrightarrow> active (cs ! j) \<longrightarrow> cl_MacAddr (cs ! i) = cl_MacAddr (cs ! j) \<longrightarrow> i = j)"

definition settled :: "dhcp_client list \<Rightarrow> bool" where
  "settled cs \<longleftrightarrow> (\<forall>c\<in>set cs. cl_State c \<noteq> DHCP_CLIENT_STATE_SELECT)"

definition dhcp_wf :: "dhcp \<Rightarrow> bool" where
  "dhcp_wf s \<longleftrightarrow> length (DhcpMsg s) = DHCP_MSG_SIZE
     \<and> length (ds_Clients (DhcpServer s)) = DHCPS_HISTORY_CLIENT_NUM
     \<and> one_entry (ds_Clients (DhcpServer s)) \<and> settled (ds_Clients (DhcpServer s))"

text \<open>What the messages of one client may do to the table: no address of the pool changes, and
  no entry that is active for somebody else changes at all.\<close>

definition others_kept :: "mac \<Rightarrow> dhcp_client list \<Rightarrow> dhcp_client list \<Rightarrow> bool" where
  "others_kept m cs cs' \<longleftrightarrow> length cs' = length cs
     \<and> (\<forall>j<length cs. cl_IpAddr (cs' ! j) = cl_IpAddr (cs ! j)
          \<and> (active (cs ! j) \<longrightarrow> cl_MacAddr (cs ! j) \<noteq> m \<longrightarrow> cs' ! j = cs ! j))"

lemma others_kept_length: "others_kept m cs cs' \<Longrightarrow> length cs' = length cs"
  by (simp add: others_kept_def)

lemma others_kept_pool: "others_kept m cs cs' \<Longrightarrow> map cl_IpAddr cs' = map cl_IpAddr cs"
  by (auto simp: others_kept_def intro: nth_equalityI)

lemma others_kept_refl [simp]: "others_kept m cs cs"
  by (simp add: others_kept_def)

lemma others_kept_trans:
  "others_kept m cs cs1 \<Longrightarrow> others_kept m cs1 cs2 \<Longrightarrow> others_kept m cs cs2"
  by (simp add: others_kept_def)

lemma length_upd_client [simp]: "length (upd_client cs i f) = length cs"
  by (simp add: upd_client_def)

lemma nth_upd_client:
  "j < length cs \<Longrightarrow> upd_client cs i f ! j = (if j = i then f (cs ! j) else cs ! j)"
  by (auto simp: upd_client_def)

section \<open>The lookup\<close>

definition points_at :: "(nat \<Rightarrow> bool) \<Rightarrow> nat \<Rightarrow> nat option \<Rightarrow> bool" where
  "points_at P k ptr \<longleftrightarrow> (case ptr of Some i \<Rightarrow> i < k \<and> P i | None \<Rightarrow> \<forall>i<k. \<not> P i)"

lemma points_at_Some [simp]: "points_at P k (Some i) \<longleftrightarrow> i < k \<and> P i"
  by (simp add: points_at_def)

lemma points_at_None [simp]: "points_at P k None \<longleftrightarrow> (\<forall>i<k. \<not> P i)"
  by (simp add: points_at_def)

lemma points_at_first: "points_at P k ptr \<Longrightarrow> points_at P (Suc k) (first_ptr ptr (P k) k)"
  by (cases ptr) (auto simp: first_ptr_def less_Suc_eq)

lemma points_at_skip: "points_at P k ptr \<Longrightarrow> \<not> P k \<Longrightarrow> points_at P (Suc k) ptr"
  by (cases ptr) (auto simp: less_Suc_eq)

definition mine :: "mac \<Rightarrow> dhcp_client \<Rightarrow> bool" where
  "mine m c \<longleftrightarrow> active c \<and> cl_MacAddr c = m"

definition taken :: "mac \<Rightarrow> u32 \<Rightarrow> dhcp_client \<Rightarrow> bool" where
  "taken m req c \<longleftrightarrow> active c \<and> cl_MacAddr c \<noteq> m \<and> cl_IpAddr c = req"

definition ptrs_ok :: "mac \<Rightarrow> u32 \<Rightarrow> dhcp_client list \<Rightarrow> nat \<Rightarrow> lookup_ptrs \<Rightarrow> bool" where
  "ptrs_ok m req cs k p \<longleftrightarrow>
     points_at (\<lambda>i. mine m (cs ! i)) k (pMyClient p)
     \<and> points_at (\<lambda>i. \<not> active (cs ! i) \<and> cl_IpAddr (cs ! i) = req) k (pReqClient p)
     \<and> points_at (\<lambda>i. \<not> active (cs ! i) \<and> cl_MacAddr (cs ! i) = m) k (pMyHistoryClient p)
     \<and> points_at (\<lambda>i. \<not> active (cs ! i) \<and> cl_MacAddr (cs ! i) = zero_mac) k (pFreeClient p)
     \<and> points_at (\<lambda>i. \<not> active (cs ! i) \<and> cl_MacAddr (cs ! i) \<noteq> zero_mac) k (pHistoryClient p)
     \<and> (IpUnavailable p \<longleftrightarrow> (\<exists>i<k. taken m req (cs ! i)))"

lemma ptrs_ok_step:
  assumes "ptrs_ok m req cs k p"
  shows "ptrs_ok m req cs (Suc k) (scan_client m req k (cs ! k) p)"
proof (cases "active (cs ! k)")
  case False
  then have idle: "cl_State (cs ! k) = DHCP_CLIENT_STATE_IDLE" by (simp add: active_def)
  have f: "points_at (\<lambda>i. \<not> active (cs ! i) \<and> P (cs ! i)) (Suc k) (first_ptr ptr (P (cs ! k)) k)"
    if "points_at (\<lambda>i. \<not> active (cs ! i) \<and> P (cs ! i)) k ptr" for P ptr
    using points_at_first [OF that] False by simp
  have "\<not> taken m req (cs ! k)" using False by (simp add: taken_def)
  then have u: "(\<exists>i<Suc k. taken m req (cs ! i)) \<longleftrightarrow> (\<exists>i<k. taken m req (cs ! i))"
    by (auto simp: less_Suc_eq)
  from assms show ?thesis
    unfolding ptrs_ok_def u
    by (auto simp: scan_client_def idle mine_def False intro!: points_at_skip f)
next
  case True
  then have act: "cl_State (cs ! k) \<noteq> DHCP_CLIENT_STATE_IDLE" by (simp add: active_def)
  have u: "(\<exists>i<Suc k. taken m req (cs ! i)) \<longleftrightarrow> taken m req (cs ! k) \<or> (\<exists>i<k. taken m req (cs ! i))"
    by (auto simp: less_Suc_eq)
  from assms show ?thesis
    unfolding ptrs_ok_def u
    by (auto simp: scan_client_def act mine_def taken_def True intro!: points_at_skip)
qed

lemma ptrs_ok_scan_from:
  "ptrs_ok m req (bs @ cs) (length bs) p \<Longrightarrow>
     ptrs_ok m req (bs @ cs) (length (bs @ cs)) (scan_clients m req (length bs) cs p)"
proof (induction cs arbitrary: bs p)
  case (Cons c cs)
  from ptrs_ok_step [OF Cons.prems] Cons.IH [of "bs @ [c]"] show ?case
    by simp
qed simp

lemma scan_ok: "ptrs_ok m req cs (length cs) (scan_clients m req 0 cs no_ptrs)"
  using ptrs_ok_scan_from [of m req "[]" cs no_ptrs] by (simp add: ptrs_ok_def no_ptrs_def)

text \<open>After the lookup: nobody else's entry changed, nothing became active, and the entry
  returned carries the sender's address and is the only one that may be active for it.\<close>

definition kept :: "mac \<Rightarrow> dhcp_client \<Rightarrow> dhcp_client \<Rightarrow> bool" where
  "kept m c c' \<longleftrightarrow> cl_IpAddr c' = cl_IpAddr c \<and> (active c \<longrightarrow> cl_MacAddr c \<noteq> m \<longrightarrow> c' = c)
     \<and> (active c' \<longrightarrow> cl_MacAddr c' = cl_MacAddr c \<and> cl_State c' = cl_State c)"

lemma kept_refl [simp]: "kept m c c"
  by (simp add: kept_def)

lemma kept_idle:
  "\<not> active c' \<Longrightarrow> cl_IpAddr c' = cl_IpAddr c \<Longrightarrow> \<not> active c \<or> mine m c \<Longrightarrow> kept m c c'"
  by (auto simp: kept_def mine_def)

definition looked_up :: "mac \<Rightarrow> dhcp_client list \<Rightarrow> dhcp_client list \<Rightarrow> nat option \<Rightarrow> bool" where
  "looked_up m cs cs' ret \<longleftrightarrow> length cs' = length cs \<and> (\<forall>j<length cs. kept m (cs ! j) (cs' ! j))
     \<and> (\<forall>i. ret = Some i \<longrightarrow> i < length cs \<and> cl_MacAddr (cs' ! i) = m
          \<and> (\<forall>j<length cs. mine m (cs' ! j) \<longrightarrow> j = i))"

lemma looked_upI:
  assumes "length cs' = length cs" and "\<And>j. j < length cs \<Longrightarrow> kept m (cs ! j) (cs' ! j)"
    and "r < length cs" and "cl_MacAddr (cs' ! r) = m"
    and "\<And>j. j < length cs \<Longrightarrow> mine m (cs' ! j) \<Longrightarrow> j = r"
  shows "looked_up m cs cs' (Some r)"
  unfolding looked_up_def option.inject using assms by blast

lemma looked_up_others: "looked_up m cs cs' ret \<Longrightarrow> others_kept m cs cs'"
  by (simp add: looked_up_def others_kept_def kept_def)

lemma one_entryD:
  "one_entry cs \<Longrightarrow> i < length cs \<Longrightarrow> j < length cs \<Longrightarrow> mine m (cs ! i) \<Longrightarrow> mine m (cs ! j) \<Longrightarrow> i = j"
  unfolding one_entry_def mine_def by blast

text \<open>The lookup either returns an idle entry, after having idled the sender's own one, or
  the sender's own one.\<close>

lemma looked_up_idle:
  assumes one: "one_entry cs" and r: "r < length cs" "\<not> active (cs ! r)"
    and p: "points_at (\<lambda>i. mine m (cs ! i)) (length cs) my"
    and f: "\<And>c. \<not> active (f c) \<and> cl_IpAddr (f c) = cl_IpAddr c"
  shows "looked_up m cs (upd_client (case my of None \<Rightarrow> cs | Some i \<Rightarrow> upd_client cs i f) r
           (cl_MacAddr_update (\<lambda>_. m))) (Some r)"
proof -
  define cs1 where cs1: "cs1 = (case my of None \<Rightarrow> cs | Some i \<Rightarrow> upd_client cs i f)"
  have len: "length cs1 = length cs" by (cases my) (simp_all add: cs1)
  have step: "cs1 ! j = (if my = Some j then f (cs ! j) else cs ! j)" if "j < length cs" for j
    using that by (cases my) (auto simp: nth_upd_client cs1)
  have own: "my = Some j" if "j < length cs" "mine m (cs ! j)" for j
  proof (cases my)
    case None
    then show ?thesis using p that by simp
  next
    case (Some i)
    then show ?thesis using p one_entryD [OF one that(1) _ that(2), of i] by simp
  qed
  have idle: "\<not> active (c\<lparr>cl_MacAddr := m\<rparr>)" if "\<not> active c" for c
    using that by (simp add: active_def)
  have my: "mine m (cs ! i)" if "my = Some i" for i
    using p that by simp
  let ?cs' = "upd_client cs1 r (cl_MacAddr_update (\<lambda>_. m))"
  have new: "?cs' ! j = (if j = r then (cs1 ! j)\<lparr>cl_MacAddr := m\<rparr> else cs1 ! j)"
    if "j < length cs" for j using that len by (simp add: nth_upd_client)
  have r1: "cs1 ! r = cs ! r" using r my by (auto simp: step mine_def)
  have k: "kept m (cs ! j) (?cs' ! j)" if j: "j < length cs" for j
  proof (cases "j = r")
    case True
    then show ?thesis using r idle by (simp add: new r1 kept_idle)
  next
    case False
    then show ?thesis
      using my f by (cases "my = Some j") (simp_all add: new j step kept_idle)
  qed
  have o: "j = r" if j: "j < length cs" and "mine m (?cs' ! j)" for j
  proof (rule ccontr)
    assume "j \<noteq> r"
    with that have "mine m (cs1 ! j)" by (simp add: new)
    then show False
      using own [OF j] f by (cases "my = Some j") (simp_all add: step j mine_def)
  qed
  show ?thesis
    unfolding cs1 [symmetric]
    by (rule looked_upI [OF _ k r(1) _ o]) (simp_all add: len r nth_upd_client)
qed

lemma looked_up_none [simp]: "looked_up m cs cs None"
  by (simp add: looked_up_def)

lemma looked_up_released:
  assumes "i < length cs" and "mine m (cs ! i)"
    and f: "\<And>c. \<not> active (f c) \<and> cl_IpAddr (f c) = cl_IpAddr c"
  shows "looked_up m cs (upd_client cs i f) None"
proof -
  have "kept m (cs ! j) (upd_client cs i f ! j)" if "j < length cs" for j
    using assms that by (cases "j = i") (simp_all add: nth_upd_client kept_idle)
  then show ?thesis by (simp add: looked_up_def)
qed

lemma looked_up_mine:
  assumes one: "one_entry cs" and i: "i < length cs" "mine m (cs ! i)"
    and f: "\<And>c. (\<not> active (f c) \<or> cl_State (f c) = cl_State c) \<and> cl_IpAddr (f c) = cl_IpAddr c"
  shows "looked_up m cs (upd_client (upd_client cs i f) i (cl_MacAddr_update (\<lambda>_. m))) (Some i)"
proof -
  let ?cs' = "upd_client (upd_client cs i f) i (cl_MacAddr_update (\<lambda>_. m))"
  have new: "?cs' ! j = (if j = i then (f (cs ! j))\<lparr>cl_MacAddr := m\<rparr> else cs ! j)"
    if "j < length cs" for j using that by (simp add: nth_upd_client)
  have k: "kept m (cs ! j) (?cs' ! j)" if "j < length cs" for j
    using i f [of "cs ! i"] that
    by (cases "j = i") (auto simp: new kept_def mine_def active_def)
  have o: "j = i" if "j < length cs" "mine m (?cs' ! j)" for j
  proof (rule ccontr)
    assume ne: "j \<noteq> i"
    with that have "mine m (cs ! j)" by (simp add: new)
    from one_entryD [OF one that(1) i(1) this i(2)] ne show False by simp
  qed
  show ?thesis
    by (rule looked_upI [OF _ k i(1) _ o]) (simp_all add: i nth_upd_client)
qed

lemma upd_client_upd: "i < length cs \<Longrightarrow> upd_client (upd_client cs i f) i g = upd_client cs i (\<lambda>c. g (f c))"
  by (simp add: upd_client_def)

lemma upd_client_id [simp]: "upd_client cs i (\<lambda>c. c) = cs"
  by (simp add: upd_client_def)

lemma release_client_idle [simp]:
  "\<not> active (release_client c)" "cl_IpAddr (release_client c) = cl_IpAddr c"
  by (simp_all add: release_client_def active_def Let_def)

text \<open>The three outcomes of the switch, before the sender's address is written.\<close>

inductive chosen :: "mac \<Rightarrow> dhcp_client list \<Rightarrow> dhcp_client list \<Rightarrow> nat option \<Rightarrow> bool"
  for m cs where
  chosen_none: "points_at (\<lambda>i. mine m (cs ! i)) (length cs) my \<Longrightarrow>
     (\<And>c. \<not> active (f c) \<and> cl_IpAddr (f c) = cl_IpAddr c) \<Longrightarrow>
     chosen m cs (case my of None \<Rightarrow> cs | Some i \<Rightarrow> upd_client cs i f) None"
| chosen_keep: "chosen m cs cs None"
| chosen_idle: "points_at (\<lambda>i. mine m (cs ! i)) (length cs) my \<Longrightarrow> r < length cs \<Longrightarrow>
     \<not> active (cs ! r) \<Longrightarrow> (\<And>c. \<not> active (f c) \<and> cl_IpAddr (f c) = cl_IpAddr c) \<Longrightarrow>
     chosen m cs (case my of None \<Rightarrow> cs | Some i \<Rightarrow> upd_client cs i f) (Some r)"
| chosen_mine: "i < length cs \<Longrightarrow> mine m (cs ! i) \<Longrightarrow>
     (\<And>c. (\<not> active (f c) \<or> cl_State (f c) = cl_State c) \<and> cl_IpAddr (f c) = cl_IpAddr c) \<Longrightarrow>
     chosen m cs (upd_client cs i f) (Some i)"

lemma chosen_looked_up:
  assumes "chosen m cs cs1 ret" and one: "one_entry cs"
  shows "looked_up m cs (case ret of None \<Rightarrow> cs1 | Some i \<Rightarrow> upd_client cs1 i (cl_MacAddr_update (\<lambda>_. m))) ret"
  using assms(1)
proof cases
  case (chosen_none my f)
  then show ?thesis
    by (cases my) (auto intro: looked_up_released)
next
  case (chosen_idle my r f)
  then show ?thesis using looked_up_idle [OF one chosen_idle(4,5,3,6)] by simp
next
  case (chosen_mine i f)
  then show ?thesis using looked_up_mine [OF one chosen_mine(3-5)] by simp
qed simp

lemma discover_chosen:
  assumes "ptrs_ok m req cs (length cs) p" and "lookup_discover cs p = (cs1, ret)"
  shows "chosen m cs cs1 ret"
proof -
  note p = assms(1) [unfolded ptrs_ok_def]
  show ?thesis
  proof (cases "pMyClient p")
    case None
    from p None have my: "points_at (\<lambda>i. mine m (cs ! i)) (length cs) None" by simp
    have idle: "chosen m cs cs (Some r)" if "r < length cs" "\<not> active (cs ! r)" for r
      using chosen_idle [OF my that, of "\<lambda>c. c\<lparr>cl_State := DHCP_CLIENT_STATE_IDLE\<rparr>"]
      by (simp add: active_def)
    have "points_at P (length cs) q \<Longrightarrow> (\<And>i. P i \<Longrightarrow> \<not> active (cs ! i)) \<Longrightarrow> chosen m cs cs q" for P q
      by (cases q) (auto intro: idle chosen_keep)
    note cand = this [of "\<lambda>i. \<not> active (cs ! i) \<and> Q i" for Q]
    show ?thesis
      using p assms(2) None cand
      by (simp add: lookup_discover_def split: if_splits)
  next
    case (Some i)
    then have i: "i < length cs" "mine m (cs ! i)"
      and my: "points_at (\<lambda>i. mine m (cs ! i)) (length cs) (Some i)" using p by simp_all
    show ?thesis
    proof (cases "pReqClient p")
      case None
      then show ?thesis
        using assms(2) Some chosen_mine [OF i, of "cl_State_update (\<lambda>_. DHCP_CLIENT_STATE_IDLE)"]
        by (simp add: lookup_discover_def Let_def active_def)
    next
      case (Some r)
      then have r: "r < length cs" "\<not> active (cs ! r)" using p by simp_all
      let ?f = "\<lambda>c. c\<lparr>cl_State := DHCP_CLIENT_STATE_IDLE, cl_MacAddr := zero_mac\<rparr>"
      have "lookup_discover cs p = (upd_client cs i ?f, Some r)"
        using i Some \<open>pMyClient p = Some i\<close>
        by (simp add: lookup_discover_def Let_def nth_upd_client upd_client_upd)
      then show ?thesis
        using assms(2) chosen_idle [OF my r, of ?f] by (simp add: active_def)
    qed
  qed
qed

lemma request_chosen:
  assumes "ptrs_ok m req cs (length cs) p" and "lookup_request cs p ip sid = (cs1, ret)"
  shows "chosen m cs cs1 ret"
proof -
  note p = assms(1) [unfolded ptrs_ok_def]
  have my: "points_at (\<lambda>i. mine m (cs ! i)) (length cs) (pMyClient p)" using p by simp
  have idle: "chosen m cs (case pMyClient p of None \<Rightarrow> cs | Some i \<Rightarrow> upd_client cs i release_client) (Some r)"
    if "pReqClient p = Some r" for r
    using chosen_idle [OF my, of r release_client] p that by simp
  have none: "chosen m cs (case pMyClient p of None \<Rightarrow> cs | Some i \<Rightarrow> upd_client cs i release_client) None"
    using chosen_none [OF my, of release_client] by simp
  have keep: "chosen m cs cs (Some i)" if "pMyClient p = Some i" for i
    using chosen_mine [of i cs m "\<lambda>c. c"] p that by simp
  show ?thesis
  proof (cases "pReqClient p")
    case None
    then show ?thesis
      using assms(2) none keep chosen_keep [of m cs]
      by (auto simp: lookup_request_def Let_def split: if_splits option.splits)
  next
    case (Some r)
    then show ?thesis
      using assms(2) idle [OF Some] none chosen_keep [of m cs]
      by (auto simp: lookup_request_def Let_def split: if_splits option.splits)
  qed
qed

lemma release_chosen:
  assumes "ptrs_ok m req cs (length cs) p" and "lookup_release cs p = (cs1, ret)"
  shows "chosen m cs cs1 ret"
proof -
  have my: "points_at (\<lambda>i. mine m (cs ! i)) (length cs) (pMyClient p)"
    using assms(1) by (simp add: ptrs_ok_def)
  have "lookup_release cs p = ((case pMyClient p of None \<Rightarrow> cs | Some i \<Rightarrow> upd_client cs i release_client), None)"
    by (simp add: lookup_release_def split: option.splits)
  then show ?thesis
    using assms(2) chosen_none [OF my, of release_client] by auto
qed

lemma lookup_ok:
  assumes "one_entry cs" and "ClientTableLookup cs ip m typ req sid = (cs', ret)"
  shows "looked_up m cs cs' ret"
proof -
  let ?p = "scan_clients m req 0 cs no_ptrs"
  obtain cs1 r1 where sw: "(if typ = DHCP_MSG_DISCOVER then lookup_discover cs ?p
      else if typ = DHCP_MSG_REQUEST then lookup_request cs ?p ip sid
      else if typ = DHCP_MSG_RELEASE then lookup_release cs ?p
      else if typ = DHCP_MSG_DECLINE then lookup_release cs ?p else (cs, None)) = (cs1, r1)"
    by fastforce
  then have "chosen m cs cs1 r1"
    using discover_chosen [OF scan_ok] request_chosen [OF scan_ok] release_chosen [OF scan_ok]
      chosen_keep by (auto split: if_splits)
  from chosen_looked_up [OF this assms(1)] assms(2) show ?thesis
    by (auto simp: ClientTableLookup_def Let_def sw split: option.splits)
qed

section \<open>The state machine keeps the table\<close>

text \<open>\<open>solo m cs i\<close>: entry \<open>i\<close> carries \<open>m\<close> and no other entry is active for \<open>m\<close>.\<close>

definition solo :: "mac \<Rightarrow> dhcp_client list \<Rightarrow> nat \<Rightarrow> bool" where
  "solo m cs i \<longleftrightarrow> i < length cs \<and> cl_MacAddr (cs ! i) = m \<and> one_entry cs
     \<and> (\<forall>j<length cs. mine m (cs ! j) \<longrightarrow> j = i)"

lemma one_entryI:
  assumes "\<And>m i j. i < length cs \<Longrightarrow> j < length cs \<Longrightarrow> mine m (cs ! i) \<Longrightarrow> mine m (cs ! j) \<Longrightarrow> i = j"
  shows "one_entry cs"
  unfolding one_entry_def using assms by (auto simp: mine_def)

lemma looked_up_one_entry:
  assumes l: "looked_up m cs cs' ret" and one: "one_entry cs"
  shows "one_entry cs'"
proof (rule one_entryI)
  fix n i j
  assume *: "i < length cs'" "j < length cs'" "mine n (cs' ! i)" "mine n (cs' ! j)"
  have len: "length cs' = length cs" using l by (simp add: looked_up_def)
  have "mine n (cs ! k)" if "k < length cs" "mine n (cs' ! k)" for k
  proof -
    have "kept m (cs ! k) (cs' ! k)" using l that(1) by (simp add: looked_up_def)
    then show ?thesis using that(2) by (auto simp: kept_def mine_def active_def)
  qed
  then show "i = j" using one_entryD [OF one] * len by metis
qed

lemma looked_up_solo:
  "looked_up m cs cs' (Some i) \<Longrightarrow> one_entry cs \<Longrightarrow> solo m cs' i"
  using looked_up_one_entry [of m cs cs' "Some i"] by (simp add: solo_def looked_up_def)

lemma looked_up_settled:
  assumes l: "looked_up m cs cs' ret" and s: "settled cs"
  shows "settled cs'"
  unfolding settled_def
proof
  fix c assume "c \<in> set cs'"
  then obtain j where j: "j < length cs" "c = cs' ! j"
    using l by (metis in_set_conv_nth looked_up_def)
  then have "kept m (cs ! j) c" using l by (simp add: looked_up_def)
  moreover have "cl_State (cs ! j) \<noteq> DHCP_CLIENT_STATE_SELECT"
    using s j(1) by (simp add: settled_def)
  ultimately show "cl_State c \<noteq> DHCP_CLIENT_STATE_SELECT"
    by (auto simp: kept_def active_def)
qed

lemma solo_upd:
  assumes s: "solo m cs i" and f: "cl_MacAddr (f (cs ! i)) = m"
  shows "solo m (upd_client cs i f) i"
proof -
  let ?cs' = "upd_client cs i f"
  have i: "i < length cs" and one: "one_entry cs"
    and o: "\<And>j. j < length cs \<Longrightarrow> mine m (cs ! j) \<Longrightarrow> j = i"
    using s by (auto simp: solo_def)
  have o': "j = i" if "j < length cs" "mine m (?cs' ! j)" for j
  proof (rule ccontr)
    assume ne: "j \<noteq> i"
    with that have "mine m (cs ! j)" by (simp add: nth_upd_client)
    with o [OF that(1)] ne show False by simp
  qed
  have "one_entry ?cs'"
  proof (rule one_entryI)
    fix n j k
    assume *: "j < length ?cs'" "k < length ?cs'" "mine n (?cs' ! j)" "mine n (?cs' ! k)"
    show "j = k"
    proof (cases "n = m")
      case True
      then show ?thesis using o' [of j] o' [of k] * by simp
    next
      case False
      with * f have "j \<noteq> i" "k \<noteq> i" by (auto simp: nth_upd_client mine_def)
      then show ?thesis using one_entryD [OF one, of j k n] * by (simp add: nth_upd_client)
    qed
  qed
  moreover have "cl_MacAddr (?cs' ! i) = m" using i f by (simp add: nth_upd_client)
  ultimately show ?thesis
    unfolding solo_def length_upd_client using i o' by blast
qed

lemma solo_others:
  assumes "solo m cs i" and "cl_IpAddr (f (cs ! i)) = cl_IpAddr (cs ! i)"
  shows "others_kept m cs (upd_client cs i f)"
  using assms by (auto simp: others_kept_def solo_def nth_upd_client)

lemma length_clean [simp]: "length (CleanClientHistory cs m) = length cs"
  by (simp add: CleanClientHistory_def)

lemma nth_clean:
  "j < length cs \<Longrightarrow> CleanClientHistory cs m ! j =
     (if \<not> active (cs ! j) \<and> cl_MacAddr (cs ! j) = m then (cs ! j)\<lparr>cl_MacAddr := zero_mac\<rparr>
      else cs ! j)"
  by (simp add: CleanClientHistory_def active_def)

lemma clean_mine: "j < length cs \<Longrightarrow> mine n (CleanClientHistory cs m ! j) \<longleftrightarrow> mine n (cs ! j)"
  by (auto simp: nth_clean mine_def active_def)

lemma clean_others: "others_kept m cs (CleanClientHistory cs m)"
  by (auto simp: others_kept_def nth_clean)

lemma clean_solo:
  assumes "solo m cs i" and "active (cs ! i)"
  shows "solo m (CleanClientHistory cs m) i"
  using assms unfolding solo_def one_entry_def
  by (auto simp: nth_clean clean_mine mine_def active_def)

lemma settled_nth: "settled cs \<longleftrightarrow> (\<forall>j<length cs. cl_State (cs ! j) \<noteq> DHCP_CLIENT_STATE_SELECT)"
  by (auto simp: settled_def all_set_conv_all_nth)

text \<open>What a handler does to the state: only the table and the message buffer change.\<close>

definition table_step :: "mac \<Rightarrow> dhcp \<Rightarrow> dhcp \<Rightarrow> bool" where
  "table_step m s s' \<longleftrightarrow>
     (\<exists>cs'. DhcpServer s' = (DhcpServer s)\<lparr>ds_Clients := cs'\<rparr>
        \<and> others_kept m (ds_Clients (DhcpServer s)) cs')
     \<and> dhcp_tick_armed s' = dhcp_tick_armed s"

lemma put_at_length: "off + length xs \<le> length msg \<Longrightarrow> length (put_at off xs msg) = length msg"
  by (simp add: put_at_def)

lemma dhcp_header_length [simp]: "length (dhcp_header y si xid m) = DHCP_MSG_SIZE"
  by (simp add: dhcp_header_def put_at_length)

lemma dhcp_offer_body_length [simp]: "length (dhcp_offer_body srv typ) = 34"
  by (simp add: dhcp_offer_body_def DHCP_SET_OPTION_MSG_TYPE_def DHCP_SET_OPTION32_def)

lemma dhcp_send_frame:
  assumes "dhcp_send s alloc h b = (s', out)" and "length h = DHCP_MSG_SIZE"
    and "length b \<le> 308" and "length (DhcpMsg s) = DHCP_MSG_SIZE"
  shows "DhcpServer s' = DhcpServer s" "dhcp_tick_armed s' = dhcp_tick_armed s"
    "length (DhcpMsg s') = DHCP_MSG_SIZE"
  using assms by (auto simp: dhcp_send_def Let_def put_at_length split: if_splits)

lemma set_clients_simps [simp]:
  "ds_Clients (DhcpServer (set_clients f s)) = f (ds_Clients (DhcpServer s))"
  "DhcpMsg (set_clients f s) = DhcpMsg s"
  "dhcp_tick_armed (set_clients f s) = dhcp_tick_armed s"
  "ds_ServerIpAddr (DhcpServer (set_clients f s)) = ds_ServerIpAddr (DhcpServer s)"
  "DhcpServer (set_clients f s) = (DhcpServer s)\<lparr>ds_Clients := f (ds_Clients (DhcpServer s))\<rparr>"
  by (simp_all add: set_clients_def)

text \<open>The packets of the server.\<close>

definition dhcp_packet :: "dhcp_server \<Rightarrow> u8 \<Rightarrow> u32 \<Rightarrow> mac \<Rightarrow> u32 \<Rightarrow> u8 list" where
  "dhcp_packet srv typ yiaddr m xid =
     take (DHCP_OPTIONS_OFFSET + 34) (put_at DHCP_OPTIONS_OFFSET (dhcp_offer_body srv typ)
       (dhcp_header yiaddr 0 xid m))"

definition dhcp_nak :: "dhcp_server \<Rightarrow> mac \<Rightarrow> u32 \<Rightarrow> u8 list" where
  "dhcp_nak srv m xid = take (DHCP_OPTIONS_OFFSET + 4)
     (put_at DHCP_OPTIONS_OFFSET [DHCP_OPTION_ID_MSG_TYPE, 1, DHCP_MSG_NAK, DHCP_OPTION_ID_END]
       (dhcp_header 0 (ds_ServerIpAddr srv) xid m))"

text \<open>One client's message: the table after it, who was granted what, and the answer.\<close>

definition granted :: "mac \<Rightarrow> dhcp \<Rightarrow> u8 \<Rightarrow> u32 \<Rightarrow> nat \<Rightarrow> bool" where
  "granted m s typ ip i \<longleftrightarrow> solo m (ds_Clients (DhcpServer s)) i
     \<and> cl_IpAddr (ds_Clients (DhcpServer s) ! i) = ip
     \<and> (if typ = DHCP_MSG_ACK
        then cl_State (ds_Clients (DhcpServer s) ! i) = DHCP_CLIENT_STATE_BIND
          \<and> cl_Lease (ds_Clients (DhcpServer s) ! i) = DHCP_DEFAULT_LEASE_TIME
        else typ = DHCP_MSG_OFFER
          \<and> cl_State (ds_Clients (DhcpServer s) ! i) = DHCP_CLIENT_STATE_REQUEST
          \<and> cl_Timeout (ds_Clients (DhcpServer s) ! i) = DHCP_DEFFAULT_TIMEOUT)"

lemma set_clients_step:
  assumes "solo m (ds_Clients (DhcpServer s)) i"
    and "cl_MacAddr (f (ds_Clients (DhcpServer s) ! i)) = m"
    and "cl_IpAddr (f (ds_Clients (DhcpServer s) ! i)) = cl_IpAddr (ds_Clients (DhcpServer s) ! i)"
  shows "others_kept m (ds_Clients (DhcpServer s)) (upd_client (ds_Clients (DhcpServer s)) i f)
    \<and> solo m (upd_client (ds_Clients (DhcpServer s)) i f) i"
  using assms solo_upd solo_others by blast

lemma sme_offer_ok:
  assumes run: "sme_offer s alloc i xid = (s', out)"
    and solo: "solo m (ds_Clients (DhcpServer s)) i" and len: "length (DhcpMsg s) = DHCP_MSG_SIZE"
    and sel: "\<forall>j<length (ds_Clients (DhcpServer s)). j \<noteq> i \<longrightarrow>
      cl_State (ds_Clients (DhcpServer s) ! j) \<noteq> DHCP_CLIENT_STATE_SELECT"
  shows "table_step m s s' \<and> length (DhcpMsg s') = DHCP_MSG_SIZE
    \<and> settled (ds_Clients (DhcpServer s'))
    \<and> (\<exists>ip. granted m s' DHCP_MSG_OFFER ip i
         \<and> out = (if alloc then [dhcp_packet (DhcpServer s) DHCP_MSG_OFFER ip m xid] else []))"
proof -
  let ?cs = "ds_Clients (DhcpServer s)"
  let ?f = "\<lambda>c. c\<lparr>cl_Timeout := DHCP_DEFFAULT_TIMEOUT, cl_State := DHCP_CLIENT_STATE_REQUEST\<rparr>"
  have i: "i < length ?cs" "cl_MacAddr (?cs ! i) = m" using solo by (auto simp: solo_def)
  obtain s1 o1 where s1: "DHCPOfferGenAndSend s alloc (?cs ! i) m xid = (s1, o1)" by fastforce
  note fr = dhcp_send_frame [OF s1 [unfolded DHCPOfferGenAndSend_def] _ _ len, simplified]
  have s': "s' = set_clients (\<lambda>cs. upd_client cs i ?f) s1" "out = o1"
    using run i(2) s1 by (auto simp: sme_offer_def Let_def)
  have cs': "ds_Clients (DhcpServer s') = upd_client ?cs i ?f" by (simp add: s' fr)
  have st: "others_kept m ?cs (upd_client ?cs i ?f) \<and> solo m (upd_client ?cs i ?f) i"
    by (rule set_clients_step [OF solo]) (simp_all add: i)
  have "table_step m s s'"
    unfolding table_step_def using st fr by (intro conjI exI [of _ "upd_client ?cs i ?f"]) (simp_all add: s')
  moreover have "settled (ds_Clients (DhcpServer s'))"
    unfolding cs' settled_nth using sel i by (simp add: nth_upd_client)
  moreover have "granted m s' DHCP_MSG_OFFER (cl_IpAddr (?cs ! i)) i"
    using st i by (simp add: granted_def cs' nth_upd_client)
  moreover have "out = (if alloc then [dhcp_packet (DhcpServer s) DHCP_MSG_OFFER (cl_IpAddr (?cs ! i)) m xid] else [])"
    using s1 by (auto simp: s' DHCPOfferGenAndSend_def dhcp_send_def dhcp_packet_def Let_def)
  ultimately show ?thesis using fr(3) by (auto simp: s')
qed

lemma sme_ack_ok:
  assumes run: "sme_ack s alloc i xid = (s', out)"
    and solo: "solo m (ds_Clients (DhcpServer s)) i" and len: "length (DhcpMsg s) = DHCP_MSG_SIZE"
    and sel: "settled (ds_Clients (DhcpServer s))"
  shows "table_step m s s' \<and> length (DhcpMsg s') = DHCP_MSG_SIZE
    \<and> settled (ds_Clients (DhcpServer s'))
    \<and> (\<exists>ip. granted m s' DHCP_MSG_ACK ip i
         \<and> out = (if alloc then [dhcp_packet (DhcpServer s) DHCP_MSG_ACK ip m xid] else []))"
proof -
  let ?cs = "ds_Clients (DhcpServer s)"
  let ?f = "\<lambda>c. c\<lparr>cl_Lease := DHCP_DEFAULT_LEASE_TIME, cl_State := DHCP_CLIENT_STATE_BIND\<rparr>"
  let ?cs' = "CleanClientHistory (upd_client ?cs i ?f) m"
  have i: "i < length ?cs" "cl_MacAddr (?cs ! i) = m" using solo by (auto simp: solo_def)
  obtain s1 o1 where s1: "DHCPAckGenAndSend s alloc (?cs ! i) m xid = (s1, o1)" by fastforce
  note fr = dhcp_send_frame [OF s1 [unfolded DHCPAckGenAndSend_def] _ _ len, simplified]
  have s': "s' = set_clients (\<lambda>cs. CleanClientHistory cs m) (set_clients (\<lambda>cs. upd_client cs i ?f) s1)"
      "out = o1"
    using run i(2) s1 by (auto simp: sme_ack_def Let_def)
  have cs': "ds_Clients (DhcpServer s') = ?cs'" by (simp add: s' fr)
  have st: "others_kept m ?cs (upd_client ?cs i ?f) \<and> solo m (upd_client ?cs i ?f) i"
    by (rule set_clients_step [OF solo]) (simp_all add: i)
  have act: "active (upd_client ?cs i ?f ! i)" using i by (simp add: nth_upd_client active_def)
  have so: "solo m ?cs' i" using clean_solo st act by blast
  have ot: "others_kept m ?cs ?cs'" using others_kept_trans clean_others st by blast
  have "table_step m s s'"
    unfolding table_step_def using ot fr by (intro conjI exI [of _ ?cs']) (simp_all add: s')
  moreover have "settled (ds_Clients (DhcpServer s'))"
    unfolding cs' settled_nth using sel i by (auto simp: nth_upd_client nth_clean settled_nth)
  moreover have "granted m s' DHCP_MSG_ACK (cl_IpAddr (?cs ! i)) i"
    using so i act by (simp add: granted_def cs' nth_clean) (simp add: nth_upd_client)
  moreover have "out = (if alloc then [dhcp_packet (DhcpServer s) DHCP_MSG_ACK (cl_IpAddr (?cs ! i)) m xid] else [])"
    using s1 by (auto simp: s' DHCPAckGenAndSend_def dhcp_send_def dhcp_packet_def Let_def)
  ultimately show ?thesis using fr(3) by (auto simp: s')
qed

lemma packet_clients [simp]:
  "dhcp_packet (srv\<lparr>ds_Clients := cs\<rparr>) typ ip m xid = dhcp_packet srv typ ip m xid"
  "dhcp_nak (srv\<lparr>ds_Clients := cs\<rparr>) m xid = dhcp_nak srv m xid"
  by (simp_all add: dhcp_packet_def dhcp_offer_body_def dhcp_nak_def)

lemma table_step_server: "table_step m s s' \<Longrightarrow> \<exists>cs. DhcpServer s' = (DhcpServer s)\<lparr>ds_Clients := cs\<rparr>"
  by (auto simp: table_step_def)

lemma table_step_packet:
  "table_step m s s' \<Longrightarrow> dhcp_packet (DhcpServer s') = dhcp_packet (DhcpServer s)
     \<and> dhcp_nak (DhcpServer s') = dhcp_nak (DhcpServer s)"
  using table_step_server by (fastforce intro!: ext)

lemma table_step_trans:
  assumes "table_step m s s1" and "table_step m s1 s2"
  shows "table_step m s s2"
proof -
  from assms obtain cs1 cs2 where
    "DhcpServer s1 = (DhcpServer s)\<lparr>ds_Clients := cs1\<rparr>" "others_kept m (ds_Clients (DhcpServer s)) cs1"
    "DhcpServer s2 = (DhcpServer s1)\<lparr>ds_Clients := cs2\<rparr>" "others_kept m cs1 cs2"
    by (auto simp: table_step_def)
  then show ?thesis
    using assms by (auto simp: table_step_def intro!: exI [of _ cs2] intro: others_kept_trans)
qed

lemma table_step_set:
  "others_kept m (ds_Clients (DhcpServer s)) (f (ds_Clients (DhcpServer s))) \<Longrightarrow>
     table_step m s (set_clients f s)"
  unfolding table_step_def by (auto simp: set_clients_def)

lemma sme_ok:
  assumes run: "DhcpClientSMEHandle s alloc i typ xid = (s', out)"
    and solo: "solo m (ds_Clients (DhcpServer s)) i" and len: "length (DhcpMsg s) = DHCP_MSG_SIZE"
    and set: "settled (ds_Clients (DhcpServer s))"
  shows "table_step m s s' \<and> length (DhcpMsg s') = DHCP_MSG_SIZE
    \<and> settled (ds_Clients (DhcpServer s'))
    \<and> (\<exists>t ip. granted m s' t ip i
         \<and> out = (if alloc then [dhcp_packet (DhcpServer s') t ip m xid] else []))"
proof -
  let ?cs = "ds_Clients (DhcpServer s)"
  have i: "i < length ?cs" "cl_MacAddr (?cs ! i) = m" using solo by (auto simp: solo_def)
  have sel: "\<forall>j<length ?cs. cl_State (?cs ! j) \<noteq> DHCP_CLIENT_STATE_SELECT"
    using set by (simp add: settled_nth)
  consider (disc) "cl_State (?cs ! i) = DHCP_CLIENT_STATE_IDLE" "typ = DHCP_MSG_DISCOVER"
    | (offer) "sme_offer s alloc i xid = (s', out)" | (ack) "sme_ack s alloc i xid = (s', out)"
    using run sel i by (auto simp: DhcpClientSMEHandle_def split: dhcp_client_state.splits if_splits)
  then show ?thesis
  proof cases
    case disc
    let ?f = "cl_State_update (\<lambda>_. DHCP_CLIENT_STATE_SELECT)"
    let ?s1 = "set_clients (\<lambda>cs. upd_client cs i ?f) s"
    have st: "others_kept m ?cs (upd_client ?cs i ?f) \<and> solo m (upd_client ?cs i ?f) i"
      by (rule set_clients_step [OF solo]) (simp_all add: i)
    have "sme_offer ?s1 alloc i xid = (s', out)"
      using run disc by (simp add: DhcpClientSMEHandle_def)
    from sme_offer_ok [OF this, of m] st len sel
    have o: "table_step m ?s1 s' \<and> length (DhcpMsg s') = DHCP_MSG_SIZE
      \<and> settled (ds_Clients (DhcpServer s'))
      \<and> (\<exists>ip. granted m s' DHCP_MSG_OFFER ip i
         \<and> out = (if alloc then [dhcp_packet (DhcpServer ?s1) DHCP_MSG_OFFER ip m xid] else []))"
      by (simp add: nth_upd_client)
    have "table_step m s ?s1" by (rule table_step_set) (use st in simp)
    from o obtain ip where g: "granted m s' DHCP_MSG_OFFER ip i"
      "out = (if alloc then [dhcp_packet (DhcpServer s) DHCP_MSG_OFFER ip m xid] else [])"
      by auto
    have st': "table_step m s s'" using table_step_trans [OF \<open>table_step m s ?s1\<close>] o by blast
    then show ?thesis
      using o g table_step_packet [OF st'] by auto
  next
    case offer
    from sme_offer_ok [OF this solo len] sel obtain ip where g: "table_step m s s'"
      "length (DhcpMsg s') = DHCP_MSG_SIZE" "settled (ds_Clients (DhcpServer s'))"
      "granted m s' DHCP_MSG_OFFER ip i"
      "out = (if alloc then [dhcp_packet (DhcpServer s) DHCP_MSG_OFFER ip m xid] else [])"
      by auto
    then show ?thesis using table_step_packet [OF g(1)] by auto
  next
    case ack
    from sme_ack_ok [OF this solo len set] obtain ip where g: "table_step m s s'"
      "length (DhcpMsg s') = DHCP_MSG_SIZE" "settled (ds_Clients (DhcpServer s'))"
      "granted m s' DHCP_MSG_ACK ip i"
      "out = (if alloc then [dhcp_packet (DhcpServer s) DHCP_MSG_ACK ip m xid] else [])"
      by auto
    then show ?thesis using table_step_packet [OF g(1)] by auto
  qed
qed

lemma granted_one_entry: "granted m s t ip i \<Longrightarrow> one_entry (ds_Clients (DhcpServer s))"
  by (simp add: granted_def solo_def)

lemma table_step_length:
  "table_step m s s' \<Longrightarrow> length (ds_Clients (DhcpServer s')) = length (ds_Clients (DhcpServer s))"
  by (auto simp: table_step_def others_kept_length)

lemma table_step_refl: "DhcpServer s' = DhcpServer s \<Longrightarrow> dhcp_tick_armed s' = dhcp_tick_armed s \<Longrightarrow>
  table_step m s s'"
  by (auto simp: table_step_def intro!: exI [of _ "ds_Clients (DhcpServer s)"])

text \<open>The sender's address, as the callback reads it from the message.\<close>

definition sender :: "u8 list \<Rightarrow> dhcp \<Rightarrow> mac" where
  "sender packet s = take 6 (drop 28
     (take DHCP_MSG_SIZE packet @ drop (min (length packet) DHCP_MSG_SIZE) (DhcpMsg s)))"

definition answered :: "mac \<Rightarrow> dhcp \<Rightarrow> u8 list list \<Rightarrow> bool" where
  "answered m s out \<longleftrightarrow> out = [] \<or> (\<exists>xid. out = [dhcp_nak (DhcpServer s) m xid])
     \<or> (\<exists>t ip i xid. granted m s t ip i \<and> out = [dhcp_packet (DhcpServer s) t ip m xid])"

lemma recv_ok:
  assumes wf: "dhcp_wf s" and run: "DHCPS_RecvCb beyond alloc s packet = (s', out)"
  shows "dhcp_wf s' \<and> table_step (sender packet s) s s' \<and> answered (sender packet s) s' out"
proof -
  define n where "n = min (length packet) DHCP_MSG_SIZE"
  define msg where "msg = take n packet @ drop n (DhcpMsg s)"
  define s1 where "s1 = s\<lparr>DhcpMsg := msg\<rparr>"
  define opts where "opts = ParseDhcpOptions beyond msg DHCP_OPTIONS_OFFSET
    \<lparr>opt_MsgType = 0xff, opt_ReqIpAddr = 0, opt_ServerId = 0, opt_Ret = 0\<rparr>"
  define xid where "xid = lwip_htonl (of_le32 (take 4 (drop 4 msg)))"
  let ?m = "sender packet s" and ?cs = "ds_Clients (DhcpServer s)"
  have m: "?m = take 6 (drop 28 msg)"
    by (auto simp: sender_def msg_def n_def min_def)
  have len: "length msg = DHCP_MSG_SIZE"
    using wf by (simp add: msg_def n_def dhcp_wf_def min_def)
  then have wf1: "dhcp_wf s1" using wf by (simp add: s1_def dhcp_wf_def)
  have st1: "table_step ?m s s1" by (rule table_step_refl) (simp_all add: s1_def)
  obtain cs ret where look: "ClientTableLookup ?cs (ds_ServerIpAddr (DhcpServer s)) ?m
      (opt_MsgType opts) (opt_ReqIpAddr opts) (opt_ServerId opts) = (cs, ret)" by fastforce
  define s2 where "s2 = set_clients (\<lambda>_. cs) s1"
  have s1': "DhcpServer s1 = DhcpServer s" by (simp add: s1_def)
  define bad where "bad \<longleftrightarrow> n = 0 \<or> msg ! 0 \<noteq> 1
    \<or> lwip_htonl (of_le32 (take 4 (drop 236 msg))) \<noteq> DHCP_MAGIC \<or> msg ! 1 \<noteq> 1"
  have body: "DHCPS_RecvCb beyond alloc s packet =
      (if bad \<or> opt_Ret opts AND 1 = 0 then (s1, [])
       else case ret of
         None \<Rightarrow> (if opt_MsgType opts \<noteq> DHCP_MSG_RELEASE \<and> opt_MsgType opts \<noteq> DHCP_MSG_DECLINE
           then DHCPNakGenAndSend s2 alloc ?m xid else (s2, []))
       | Some i \<Rightarrow> DhcpClientSMEHandle s2 alloc i (opt_MsgType opts) xid)"
    unfolding DHCPS_RecvCb_def Let_def n_def [symmetric] msg_def [symmetric] opts_def [symmetric]
      s1_def [symmetric] xid_def [symmetric] m [symmetric] bad_def [symmetric]
    unfolding s2_def using look by (simp add: s1')
  have one: "one_entry ?cs" and se: "settled ?cs" and lc: "length ?cs = DHCPS_HISTORY_CLIENT_NUM"
    using wf by (simp_all add: dhcp_wf_def)
  note l = lookup_ok [OF one look]
  have s2: "table_step ?m s s2" "dhcp_wf s2"
  proof -
    have "others_kept ?m ?cs cs" using l by (rule looked_up_others)
    then show st2: "table_step ?m s s2"
      by (auto simp: table_step_def s2_def s1_def set_clients_def)
    show "dhcp_wf s2"
      using looked_up_one_entry [OF l one] looked_up_settled [OF l se] len
        table_step_length [OF st2] lc
      by (simp add: dhcp_wf_def s2_def s1_def)
  qed
  define stop where "stop \<longleftrightarrow> bad \<or> opt_Ret opts AND 1 = 0"
  note run' = run [unfolded body, folded stop_def]
  consider (drop) "s' = s1" "out = []"
    | (quiet) "s' = s2" "out = []"
    | (nak) "DHCPNakGenAndSend s2 alloc ?m xid = (s', out)"
    | (sme) i where "ret = Some i" "DhcpClientSMEHandle s2 alloc i (opt_MsgType opts) xid = (s', out)"
  proof (cases "stop")
    case True
    then show thesis using run' drop by (simp only: if_True prod.inject)
  next
    case go: False
    show thesis
    proof (cases ret)
      case None
      then show thesis
        using run' go quiet nak
        by (cases "opt_MsgType opts = DHCP_MSG_RELEASE"; cases "opt_MsgType opts = DHCP_MSG_DECLINE") simp_all
    next
      case (Some i)
      then show thesis using run' go sme [of i] by simp
    qed
  qed
  then show ?thesis
  proof cases
    case drop
    then show ?thesis using wf1 st1 by (simp add: answered_def)
  next
    case quiet
    then show ?thesis using s2 by (simp add: answered_def)
  next
    case nak
    have l2: "length (DhcpMsg s2) = DHCP_MSG_SIZE" using s2(2) by (simp add: dhcp_wf_def)
    note fr = dhcp_send_frame [OF nak [unfolded DHCPNakGenAndSend_def] _ _ l2, simplified,
        unfolded DHCP_SET_OPTION_MSG_TYPE_def, simplified]
    have "table_step ?m s s'" using s2(1) by (simp add: table_step_def fr)
    moreover have "dhcp_wf s'" using s2(2) by (simp add: dhcp_wf_def fr)
    moreover have "out = [] \<or> out = [dhcp_nak (DhcpServer s2) ?m xid]"
      using nak by (auto simp: DHCPNakGenAndSend_def dhcp_send_def dhcp_nak_def Let_def
          DHCP_SET_OPTION_MSG_TYPE_def split: if_splits)
    ultimately show ?thesis by (auto simp: answered_def fr)
  next
    case sme
    have "solo ?m cs i" using looked_up_solo l one sme(1) by blast
    then have so: "solo ?m (ds_Clients (DhcpServer s2)) i" by (simp add: s2_def)
    have l2: "length (DhcpMsg s2) = DHCP_MSG_SIZE" "settled (ds_Clients (DhcpServer s2))"
      using s2(2) by (simp_all add: dhcp_wf_def)
    from sme_ok [OF sme(2) so l2] obtain t ip where o: "table_step ?m s2 s'"
      "length (DhcpMsg s') = DHCP_MSG_SIZE" "settled (ds_Clients (DhcpServer s'))"
      "granted ?m s' t ip i"
      "out = (if alloc then [dhcp_packet (DhcpServer s') t ip ?m xid] else [])"
      by blast
    have an: "answered ?m s' out"
      unfolding answered_def o(5) using o(4) by (cases alloc) (simp, blast, simp)
    note one' = granted_one_entry [OF o(4)]
    have st: "table_step ?m s s'" by (rule table_step_trans [OF s2(1) o(1)])
    then show ?thesis using o an one' table_step_length [OF st] lc by (simp add: dhcp_wf_def)
  qed
qed

section \<open>Tick and deletion\<close>

text \<open>Both only let entries go.\<close>

definition calmed :: "dhcp_client list \<Rightarrow> dhcp_client list \<Rightarrow> bool" where
  "calmed cs cs' \<longleftrightarrow> list_all2 (\<lambda>c c'. cl_IpAddr c' = cl_IpAddr c
     \<and> (active c' \<longrightarrow> cl_MacAddr c' = cl_MacAddr c \<and> cl_State c' = cl_State c)) cs cs'"

lemma calmed_pool: "calmed cs cs' \<Longrightarrow> map cl_IpAddr cs' = map cl_IpAddr cs"
  unfolding calmed_def by (induction rule: list_all2_induct) auto

lemma calmed_nth:
  "calmed cs cs' \<Longrightarrow> j < length cs' \<Longrightarrow> active (cs' ! j) \<Longrightarrow>
     cl_MacAddr (cs' ! j) = cl_MacAddr (cs ! j) \<and> cl_State (cs' ! j) = cl_State (cs ! j)"
  unfolding calmed_def list_all2_conv_all_nth by simp

lemma calmed_table:
  assumes c: "calmed cs cs'" and one: "one_entry cs" and s: "settled cs"
  shows "one_entry cs' \<and> settled cs' \<and> length cs' = length cs"
proof -
  have len: "length cs' = length cs"
    using c by (simp add: calmed_def list_all2_lengthD)
  have m: "mine n (cs ! j)" if "j < length cs'" "mine n (cs' ! j)" for j n
    using calmed_nth [OF c that(1)] that by (auto simp: mine_def active_def)
  have "one_entry cs'"
    by (rule one_entryI) (use one_entryD [OF one] m len in metis)
  moreover have "settled cs'"
    unfolding settled_nth
  proof (intro allI impI notI)
    fix j assume j: "j < length cs'" and sel: "cl_State (cs' ! j) = DHCP_CLIENT_STATE_SELECT"
    then have "cl_State (cs ! j) = DHCP_CLIENT_STATE_SELECT"
      using calmed_nth [OF c j] by (simp add: active_def)
    then show False using s j len by (simp add: settled_nth)
  qed
  ultimately show ?thesis using len by blast
qed

lemma tick_client_calms:
  "cl_IpAddr (tick_client station c) = cl_IpAddr c"
  "active (tick_client station c) \<Longrightarrow>
     cl_MacAddr (tick_client station c) = cl_MacAddr c \<and> cl_State (tick_client station c) = cl_State c"
  by (auto simp: tick_client_def Let_def active_def split: if_splits)

lemma tick_calmed: "calmed cs (map (tick_client station) cs)"
  by (simp add: calmed_def list_all2_conv_all_nth tick_client_calms)

lemma calmed_refl [simp]: "calmed cs cs"
  by (simp add: calmed_def list_all2_conv_all_nth)

lemma delete_calmed: "calmed cs (fst (delete_loop m cs))"
  by (induction cs) (auto simp: calmed_def active_def split: prod.splits intro: list.rel_refl)

section \<open>Reachable states\<close>

datatype dhcp_event = RecvEv "u8 list" | TickEv | DeleteEv "mac option"

inductive dhcp_step :: "dhcp \<Rightarrow> dhcp_event \<Rightarrow> u8 list list \<Rightarrow> dhcp \<Rightarrow> bool" where
  recv: "ds_Enable (DhcpServer s) \<noteq> 0 \<Longrightarrow> DHCPS_RecvCb beyond alloc s packet = (s', out) \<Longrightarrow>
    dhcp_step s (RecvEv packet) out s'"
| tick: "dhcp_tick_armed s \<Longrightarrow> dhcp_step s TickEv [] (DhcpTickHandle station s)"
| delete: "DHCPS_ClientDelete m s = (s', r) \<Longrightarrow> dhcp_step s (DeleteEv m) [] s'"

inductive_cases recvE: "dhcp_step s (RecvEv packet) out s'"

inductive dhcp_reach :: "dhcp \<Rightarrow> dhcp \<Rightarrow> bool" for s0 where
  start: "dhcp_reach s0 s0"
| step: "dhcp_reach s0 s \<Longrightarrow> dhcp_step s e out s' \<Longrightarrow> dhcp_reach s0 s'"

definition same_pool :: "dhcp \<Rightarrow> dhcp \<Rightarrow> bool" where
  "same_pool s s' \<longleftrightarrow> map cl_IpAddr (ds_Clients (DhcpServer s')) = map cl_IpAddr (ds_Clients (DhcpServer s))
     \<and> (\<exists>cs. DhcpServer s' = (DhcpServer s)\<lparr>ds_Clients := cs\<rparr>)"

lemma same_pool_refl [simp]: "same_pool s s"
  by (auto simp: same_pool_def intro!: exI [of _ "ds_Clients (DhcpServer s)"])

lemma same_pool_trans: "same_pool s s1 \<Longrightarrow> same_pool s1 s2 \<Longrightarrow> same_pool s s2"
  by (auto simp: same_pool_def)

lemma calmed_step:
  assumes "dhcp_wf s" and "DhcpServer s' = (DhcpServer s)\<lparr>ds_Clients := cs'\<rparr>"
    and "calmed (ds_Clients (DhcpServer s)) cs'" and "DhcpMsg s' = DhcpMsg s"
  shows "dhcp_wf s' \<and> same_pool s s'"
  using assms calmed_table [OF assms(3)] calmed_pool [OF assms(3)]
  by (auto simp: dhcp_wf_def same_pool_def)

lemma dhcp_step_ok:
  assumes wf: "dhcp_wf s" and step: "dhcp_step s e out s'"
  shows "dhcp_wf s' \<and> same_pool s s'"
  using step
proof cases
  case (recv beyond alloc packet)
  from recv_ok [OF wf recv(3)] show ?thesis
    by (auto simp: same_pool_def table_step_def others_kept_pool)
next
  case (tick station)
  show ?thesis
  proof (cases "ds_Enable (DhcpServer s) = 0")
    case True
    then show ?thesis unfolding tick(3)
      by (intro calmed_step [OF wf, of _ "ds_Clients (DhcpServer s)"]) (simp_all add: DhcpTickHandle_def)
  next
    case False
    then show ?thesis unfolding tick(3)
      by (intro calmed_step [OF wf _ tick_calmed]) (simp_all add: DhcpTickHandle_def Let_def)
  qed
next
  case (delete m r)
  show ?thesis
  proof (cases "s' = s")
    case True
    then show ?thesis using wf by simp
  next
    case False
    then obtain mac where mac: "s' = set_clients (\<lambda>_. fst (delete_loop mac (ds_Clients (DhcpServer s)))) s"
      using delete(3)
      by (auto simp: DHCPS_ClientDelete_def Let_def case_prod_beta split: if_splits option.splits)
    show ?thesis unfolding mac by (rule calmed_step [OF wf _ delete_calmed]) (simp_all)
  qed
qed

lemma dhcp_reach_ok: "dhcp_reach s0 s \<Longrightarrow> dhcp_wf s0 \<Longrightarrow> dhcp_wf s \<and> same_pool s0 s"
  by (induction rule: dhcp_reach.induct) (auto dest: dhcp_step_ok intro: same_pool_trans)

end
