(* ===== verification/DhcpSafety.thy ===== *)
theory DhcpSafety
  imports DhcpServer
begin

text \<open>
  What the DHCP server guarantees: the pool of addresses that \<open>DHCPS_Start\<close> computes, the
  invariant of every reachable state, the answers, the option parser against the encoding of
  options, and the cases in which the code does not do what it means to.
\<close>

section \<open>The address pool\<close>

text \<open>\<open>k\<close> host bits: the netmask leaves exactly the low \<open>k\<close> bits to the hosts.\<close>

definition host_bits :: "netif_view \<Rightarrow> nat \<Rightarrow> bool" where
  "host_bits n k \<longleftrightarrow> NOT (lwip_htonl (nif_netmask n)) = mask k \<and> k < 32"

definition host_of :: "netif_view \<Rightarrow> nat" where
  "host_of n = unat (lwip_htonl (nif_ip_addr n) AND NOT (lwip_htonl (nif_netmask n)))"

lemma and_mask_small:
  fixes x :: u32
  assumes "unat x < 2 ^ k"
  shows "x AND mask k = x"
proof -
  have "take_bit k x = x"
    unfolding word_unat_eq_iff using assms by (simp add: unsigned_take_bit_eq take_bit_nat_eq_self)
  then show ?thesis by (simp add: take_bit_eq_mask)
qed

lemma net_host:
  fixes v x :: u32
  assumes "unat x < 2 ^ k"
  shows "((v AND NOT (mask k)) OR x) AND mask k = x"
    and "((v AND NOT (mask k)) OR x) AND NOT (mask k) = v AND NOT (mask k)"
proof -
  have x: "x AND mask k = x" by (rule and_mask_small [OF assms])
  have "((v AND NOT (mask k)) OR (x AND mask k)) AND mask k = x AND mask k"
    by (rule bit_word_eqI) (auto simp: bit_simps)
  then show "((v AND NOT (mask k)) OR x) AND mask k = x" unfolding x .
  have "((v AND NOT (mask k)) OR (x AND mask k)) AND NOT (mask k) = v AND NOT (mask k)"
    by (rule bit_word_eqI) (auto simp: bit_simps)
  then show "((v AND NOT (mask k)) OR x) AND NOT (mask k) = v AND NOT (mask k)" unfolding x .
qed

lemma unat_mask32:
  assumes "k < 32"
  shows "unat (mask k :: u32) = 2 ^ k - 1"
proof -
  have "unat (take_bit k (- 1) :: u32) = take_bit k (mask 32)"
    by (simp add: unsigned_take_bit_eq unsigned_minus_1_eq_mask del: take_bit_minus_one_eq_mask)
  also have "\<dots> = mask k" using assms by (simp add: take_bit_of_mask)
  finally have "unat (mask k :: u32) = mask k" unfolding take_bit_minus_one_eq_mask .
  then show ?thesis by (simp only: mask_eq_exp_minus_1)
qed

lemma pool_host_small:
  assumes "NOT nm = mask k" and "k < 32" and "0 < unat x" and "unat x < 2 ^ k - 1"
  shows "pool_host nm x = Some x"
proof -
  have m: "unat (mask k :: u32) = 2 ^ k - 1"
    by (rule unat_mask32 [OF assms(2)])
  have "unat (x mod mask k) = unat x" using assms(4) by (simp add: unat_mod m)
  then have "x mod mask k = x" by (simp add: word_unat_eq_iff)
  moreover have "x \<noteq> 0" using assms(3) by auto
  moreover have "(mask k :: u32) \<noteq> 0" using assms(4) m by (metis less_nat_zero_code unat_0)
  ultimately show ?thesis by (simp add: pool_host_def assms(1))
qed

lemma unat_plus_nat: "unat (x :: u32) + i < 4294967296 \<Longrightarrow> unat (x + of_nat i) = unat x + i"
  by (simp add: unat_add_small unat_of_nat)

text \<open>The address of client \<open>i\<close> when the pool does not wrap.\<close>

definition pool_addr :: "netif_view \<Rightarrow> nat \<Rightarrow> u32" where
  "pool_addr n i = lwip_htonl
     ((lwip_htonl (nif_ip_addr n) AND lwip_htonl (nif_netmask n)) OR of_nat (host_of n + 1 + i))"

lemma init_clients_pool:
  assumes k: "NOT nm = mask k" "k < 32" and h: "unat (lwip_htonl start AND mask k) = h"
    and room: "\<forall>i\<in>set is. h + i < 2 ^ k - 1" and pos: "0 < h"
  shows "\<exists>cs. init_clients start nm is = Some cs
    \<and> map cl_IpAddr cs = map (\<lambda>i. lwip_htonl ((lwip_htonl start AND nm) OR of_nat (h + i))) is
    \<and> (\<forall>c\<in>set cs. cl_State c = DHCP_CLIENT_STATE_IDLE)"
  using room
proof (induction "is")
  case Nil
  then show ?case by simp
next
  case (Cons i "is")
  have "(2::nat) ^ k \<le> 2 ^ 31" using k(2) by (intro power_increasing) auto
  then have lim: "(2::nat) ^ k \<le> 2147483648" by simp
  let ?x = "(lwip_htonl start AND NOT nm) + of_nat i"
  have "h + i < 2 ^ k - 1" using Cons.prems by simp
  then have x: "unat ?x = h + i"
    using lim h by (subst unat_plus_nat) (auto simp: k(1))
  then have "pool_host nm ?x = Some ?x"
    using Cons.prems pos by (intro pool_host_small [OF k]) auto
  moreover have "?x = of_nat (h + i)"
    by (metis x of_nat_unat ucast_id)
  ultimately show ?case using Cons by (auto simp: zero_client_def)
qed

lemma start_ok:
  assumes k: "host_bits n k" and up: "nif_up n" and pcb: "pcb \<noteq> 0"
    and room: "host_of n + DHCPS_HISTORY_CLIENT_NUM < 2 ^ k - 1"
  shows "\<exists>s0. DHCPS_Start pcb n s = Some (s0, DHCPS_ERR_SUCCESS)
    \<and> map cl_IpAddr (ds_Clients (DhcpServer s0)) = map (pool_addr n) [0..<DHCPS_HISTORY_CLIENT_NUM]
    \<and> (\<forall>c\<in>set (ds_Clients (DhcpServer s0)). cl_State c = DHCP_CLIENT_STATE_IDLE)
    \<and> DhcpMsg s0 = DhcpMsg s \<and> ds_Enable (DhcpServer s0) = 1 \<and> dhcp_tick_armed s0"
proof -
  let ?v = "lwip_htonl (nif_ip_addr n)" and ?nm = "lwip_htonl (nif_netmask n)"
  let ?h = "host_of n"
  have nm: "NOT ?nm = mask k" and k32: "k < 32" using k by (simp_all add: host_bits_def)
  then have nm': "?nm = NOT (mask k)" by (metis bit.double_compl)
  have "(2::nat) ^ k \<le> 2 ^ 31" using k32 by (intro power_increasing) auto
  then have lim: "(2::nat) ^ k \<le> 2147483648" by simp
  let ?x = "(?v AND NOT ?nm) + 1" 
  have x: "unat ?x = ?h + 1"
    using room lim by (subst unat_add_small) (auto simp: host_of_def)
  then have p1: "pool_host ?nm ?x = Some ?x"
    using room by (intro pool_host_small [OF nm k32]) auto
  let ?s = "lwip_htonl ((?v AND ?nm) OR ?x)"
  have small: "unat ?x < 2 ^ k" using x room by simp
  have hs: "unat (lwip_htonl ?s AND mask k) = ?h + 1"
    using net_host(1) [OF small, of ?v] x unfolding nm' by simp
  have ns: "lwip_htonl ?s AND ?nm = ?v AND ?nm"
    using net_host(2) [OF small, of ?v] by (simp add: nm')
  have rm: "\<forall>i\<in>set [0..<DHCPS_HISTORY_CLIENT_NUM]. ?h + 1 + i < 2 ^ k - 1" using room by auto
  from init_clients_pool [OF nm k32 hs rm] obtain cs where
    cs: "init_clients ?s ?nm [0..<DHCPS_HISTORY_CLIENT_NUM] = Some cs"
      "map cl_IpAddr cs = map (\<lambda>i. lwip_htonl ((lwip_htonl ?s AND ?nm) OR of_nat (?h + 1 + i)))
         [0..<DHCPS_HISTORY_CLIENT_NUM]"
      "\<forall>c\<in>set cs. cl_State c = DHCP_CLIENT_STATE_IDLE"
    by auto
  have "map cl_IpAddr cs = map (pool_addr n) [0..<DHCPS_HISTORY_CLIENT_NUM]"
    unfolding cs(2) ns by (simp add: pool_addr_def)
  then show ?thesis
    using up pcb p1 cs(1,3) by (simp add: DHCPS_Start_def Let_def)
qed

text \<open>The addresses of the pool are distinct, in the subnet of the server and not its own.\<close>

lemma pool_addr_net:
  assumes k: "host_bits n k" and i: "host_of n + 1 + i < 2 ^ k"
  shows "pool_addr n i AND nif_netmask n = nif_ip_addr n AND nif_netmask n"
    and "unat (lwip_htonl (pool_addr n i) AND mask k) = host_of n + 1 + i"
proof -
  have nm: "lwip_htonl (nif_netmask n) = NOT (mask k)" and k32: "k < 32"
    using k by (simp_all add: host_bits_def) (metis bit.double_compl)
  have "(2::nat) ^ k \<le> 2 ^ 31" using k32 by (intro power_increasing) auto
  then have u: "unat (of_nat (host_of n + 1 + i) :: u32) = host_of n + 1 + i"
    using i by (subst unat_of_nat) simp
  then have s: "unat (of_nat (host_of n + 1 + i) :: u32) < 2 ^ k" using i by simp
  show "unat (lwip_htonl (pool_addr n i) AND mask k) = host_of n + 1 + i"
    unfolding pool_addr_def nm lwip_htonl_involution net_host(1) [OF s] by (rule u)
  have a: "lwip_htonl a AND lwip_htonl b = lwip_htonl (a AND b)" for a b
    by (rule bit_word_eqI) (auto simp: lwip_htonl_parts bit_simps)
  have "lwip_htonl (pool_addr n i) AND lwip_htonl (nif_netmask n)
      = lwip_htonl (nif_ip_addr n) AND lwip_htonl (nif_netmask n)"
    unfolding pool_addr_def nm lwip_htonl_involution by (rule net_host(2) [OF s])
  then show "pool_addr n i AND nif_netmask n = nif_ip_addr n AND nif_netmask n"
    unfolding a by (metis lwip_htonl_involution)
qed

section \<open>Every reachable state\<close>

lemma serving_inv:
  assumes start: "DHCPS_Start pcb n s = Some (s0, DHCPS_ERR_SUCCESS)"
    and k: "host_bits n k" and room: "host_of n + DHCPS_HISTORY_CLIENT_NUM < 2 ^ k - 1"
    and msg: "length (DhcpMsg s) = DHCP_MSG_SIZE" and reach: "dhcp_reach s0 s1"
  shows "dhcp_wf s1 \<and> (\<forall>i<DHCPS_HISTORY_CLIENT_NUM.
    cl_IpAddr (ds_Clients (DhcpServer s1) ! i) = pool_addr n i)"
proof -
  have up: "nif_up n" and pcb: "pcb \<noteq> 0"
    using start by (auto simp: DHCPS_Start_def Let_def split: if_splits bind_splits)
  from start_ok [OF k up pcb room, of s] start have
    pool: "map cl_IpAddr (ds_Clients (DhcpServer s0)) = map (pool_addr n) [0..<DHCPS_HISTORY_CLIENT_NUM]"
    and idle: "\<forall>c\<in>set (ds_Clients (DhcpServer s0)). cl_State c = DHCP_CLIENT_STATE_IDLE"
    and m: "DhcpMsg s0 = DhcpMsg s" by auto
  have len: "length (ds_Clients (DhcpServer s0)) = DHCPS_HISTORY_CLIENT_NUM"
    using arg_cong [OF pool, of length] by simp
  have "dhcp_wf s0"
    using idle len msg m by (auto simp: dhcp_wf_def one_entry_def settled_def active_def)
  from dhcp_reach_ok [OF reach this] have wf: "dhcp_wf s1" and same: "same_pool s0 s1" by auto
  have len1: "length (ds_Clients (DhcpServer s1)) = DHCPS_HISTORY_CLIENT_NUM"
    using wf by (simp add: dhcp_wf_def)
  have "map cl_IpAddr (ds_Clients (DhcpServer s1)) = map (pool_addr n) [0..<DHCPS_HISTORY_CLIENT_NUM]"
    using same pool by (simp add: same_pool_def)
  then have at: "map cl_IpAddr (ds_Clients (DhcpServer s1)) ! i = map (pool_addr n) [0..<DHCPS_HISTORY_CLIENT_NUM] ! i"
    for i by simp
  have "cl_IpAddr (ds_Clients (DhcpServer s1) ! i) = pool_addr n i"
    if "i < DHCPS_HISTORY_CLIENT_NUM" for i using at [of i] that len1 by (simp del: upt_rec_numeral)
  with wf show ?thesis by blast
qed

lemma pool_addr_inj:
  assumes k: "host_bits n k" and "host_of n + 1 + i < 2 ^ k" and "host_of n + 1 + j < 2 ^ k"
    and "pool_addr n i = pool_addr n j"
  shows "i = j"
proof -
  have "host_of n + 1 + i = host_of n + 1 + j"
    using pool_addr_net(2) [OF k assms(2)] pool_addr_net(2) [OF k assms(3)]
    unfolding assms(4) by (rule trans [OF sym])
  then show ?thesis by simp
qed

lemma pool_addr_not_server:
  assumes k: "host_bits n k" and "host_of n + 1 + i < 2 ^ k"
  shows "pool_addr n i \<noteq> nif_ip_addr n"
  using pool_addr_net(2) [OF assms] k by (auto simp: host_of_def host_bits_def)

section \<open>Options\<close>

text \<open>Options as a client means them, and their encoding.\<close>

type_synonym dhcp_option = "u8 \<times> u8 list"

definition enc_option :: "dhcp_option \<Rightarrow> u8 list" where
  "enc_option = (\<lambda>(ident, value). [ident, of_nat (length value)] @ value)"

definition option_ok :: "dhcp_option \<Rightarrow> bool" where
  "option_ok = (\<lambda>(ident, value). ident \<noteq> DHCP_OPTION_ID_PAD \<and> ident \<noteq> DHCP_OPTION_ID_END
     \<and> length value < 256 \<and> (ident = DHCP_OPTION_ID_MSG_TYPE \<longrightarrow> 1 \<le> length value)
     \<and> (ident = DHCP_OPTION_ID_REQ_IP_ADDR \<or> ident = DHCP_OPTION_ID_SERVER_ID \<longrightarrow> 4 \<le> length value))"

definition apply_option :: "dhcp_option \<Rightarrow> dhcp_options \<Rightarrow> dhcp_options" where
  "apply_option = (\<lambda>(ident, value) st.
     if ident = DHCP_OPTION_ID_MSG_TYPE
     then st\<lparr>opt_MsgType := hd value, opt_Ret := opt_Ret st OR 1\<rparr>
     else if ident = DHCP_OPTION_ID_REQ_IP_ADDR
     then st\<lparr>opt_ReqIpAddr := of_le32 (take 4 value), opt_Ret := opt_Ret st OR 2\<rparr>
     else if ident = DHCP_OPTION_ID_SERVER_ID
     then st\<lparr>opt_ServerId := of_le32 (take 4 value), opt_Ret := opt_Ret st OR 4\<rparr>
     else st)"

lemma msg_read_in [simp]:
  "p < DHCP_MSG_SIZE \<Longrightarrow> msg_read beyond msg p = msg ! p"
  by (simp add: msg_read_def)

lemma take4: "4 \<le> length xs \<Longrightarrow> take 4 xs = [xs ! 0, xs ! 1, xs ! 2, xs ! 3]"
  by (rule nth_equalityI) (auto simp: less_Suc_eq numeral_eq_Suc)

lemma parse_option_encoded:
  assumes ok: "option_ok ov" and msg: "msg = pre @ enc_option ov @ post" "length msg = DHCP_MSG_SIZE"
  shows "parse_option beyond msg (length pre) st = apply_option ov st"
proof -
  obtain ident v where ov: "ov = (ident, v)" by (cases ov)
  have m: "msg = pre @ [ident, of_nat (length v)] @ v @ post"
    using msg(1) by (simp add: ov enc_option_def)
  have lens: "length pre + 2 + length v \<le> DHCP_MSG_SIZE"
    using msg(2) unfolding m by simp
  have id: "msg_read beyond msg (length pre) = ident"
    using lens by (simp add: m nth_append)
  have at: "msg_read beyond msg (length pre + 2 + i) = v ! i" if "i < length v" for i
    using that lens by (simp add: m nth_append nth_Cons')
  have mt: "msg_read beyond msg (length pre + 2) = hd v" if "1 \<le> length v"
    using at [of 0] that by (cases v) auto
  have rd: "msg_read32 beyond msg (length pre + 2) = of_le32 (take 4 v)" if "4 \<le> length v"
    using at [of 0] at [of 1] at [of 2] at [of 3] that less_le_trans [of 0 4 "length v"]
    by (simp add: msg_read32_def take4 add.assoc)
  show ?thesis
    using ok id mt rd by (auto simp: ov option_ok_def parse_option_def apply_option_def Let_def)
qed

lemma parse_encoded:
  assumes "\<forall>ov\<in>set ovs. option_ok ov"
    and "msg = pre @ concat (map enc_option ovs) @ DHCP_OPTION_ID_END # post"
    and len: "length msg = DHCP_MSG_SIZE"
  shows "ParseDhcpOptions beyond msg (length pre) st = fold apply_option ovs st"
  using assms(1,2)
proof (induction ovs arbitrary: pre st)
  case Nil
  then have "msg_read beyond msg (length pre) = DHCP_OPTION_ID_END"
    using len by simp
  then show ?case by (subst ParseDhcpOptions.simps) simp
next
  case (Cons ov ovs)
  obtain ident v where ov: "ov = (ident, v)" by (cases ov)
  have ok: "option_ok ov" using Cons.prems(1) by simp
  let ?pre = "pre @ enc_option ov"
  have m: "msg = ?pre @ concat (map enc_option ovs) @ DHCP_OPTION_ID_END # post"
    using Cons.prems(2) by simp
  have lens: "length pre + 2 + length v < DHCP_MSG_SIZE"
    using len Cons.prems(2) by (simp add: ov enc_option_def)
  have id: "msg_read beyond msg (length pre) = ident"
    using lens by (simp add: Cons.prems(2) ov enc_option_def nth_append)
  have "msg_read beyond msg (length pre + 1) = of_nat (length v)"
    using lens by (simp add: Cons.prems(2) ov enc_option_def nth_append)
  moreover have "length v < 256" using ok by (simp add: ov option_ok_def)
  ultimately have ln: "unat (msg_read beyond msg (length pre + 1)) = length v"
    by (simp add: unat_of_nat)
  have "ParseDhcpOptions beyond msg (length pre) st =
      ParseDhcpOptions beyond msg (length pre + 2 + length v) (parse_option beyond msg (length pre) st)"
    using ok id ln lens by (subst ParseDhcpOptions.simps) (auto simp: ov option_ok_def)
  also have "\<dots> = ParseDhcpOptions beyond msg (length ?pre) (apply_option ov st)"
    using parse_option_encoded [OF ok, of msg pre] m len by (simp add: ov enc_option_def add.assoc)
  also have "\<dots> = fold apply_option ovs (apply_option ov st)"
    using Cons.IH [OF _ m] Cons.prems(1) by simp
  finally show ?case by simp
qed

text \<open>The options of our own answers.\<close>

definition offer_options :: "dhcp_server \<Rightarrow> u8 \<Rightarrow> dhcp_option list" where
  "offer_options srv typ =
     [(DHCP_OPTION_ID_MSG_TYPE, [typ]), (51, le32 (lwip_htonl DHCP_DEFAULT_LEASE_TIME)),
      (DHCP_OPTION_ID_SERVER_ID, le32 (ds_ServerIpAddr srv)), (1, le32 (ds_SubnetMask srv)),
      (3, le32 (ds_GateWay srv)), (6, le32 (ds_Dns1 srv))]"

lemma offer_body_encoded:
  "dhcp_offer_body srv typ = concat (map enc_option (offer_options srv typ)) @ [DHCP_OPTION_ID_END]"
  by (simp add: dhcp_offer_body_def offer_options_def enc_option_def DHCP_SET_OPTION_MSG_TYPE_def
      DHCP_SET_OPTION32_def le32_def)

lemma offer_options_ok: "\<forall>ov\<in>set (offer_options srv typ). option_ok ov"
  by (simp add: offer_options_def option_ok_def)

definition fresh_options :: dhcp_options where
  "fresh_options = \<lparr>opt_MsgType = 0xff, opt_ReqIpAddr = 0, opt_ServerId = 0, opt_Ret = 0\<rparr>"

lemma parse_own_message:
  assumes "length hdr = DHCP_MSG_SIZE"
  shows "ParseDhcpOptions beyond (put_at DHCP_OPTIONS_OFFSET (dhcp_offer_body srv typ) hdr)
      DHCP_OPTIONS_OFFSET fresh_options
    = \<lparr>opt_MsgType = typ, opt_ReqIpAddr = 0, opt_ServerId = ds_ServerIpAddr srv, opt_Ret = 5\<rparr>"
proof -
  let ?msg = "put_at DHCP_OPTIONS_OFFSET (dhcp_offer_body srv typ) hdr"
  let ?pre = "take DHCP_OPTIONS_OFFSET hdr"
  have m: "?msg = ?pre @ concat (map enc_option (offer_options srv typ)) @ DHCP_OPTION_ID_END
      # drop (DHCP_OPTIONS_OFFSET + 34) hdr"
    by (simp add: put_at_def) (simp add: offer_body_encoded)
  have "length ?msg = DHCP_MSG_SIZE" using assms by (simp add: put_at_length)
  from parse_encoded [OF offer_options_ok m this, of beyond fresh_options] assms
  show ?thesis
    by (simp add: offer_options_def apply_option_def fresh_options_def)
qed

lemma leases_apart:
  assumes "DHCPS_Start pcb n s = Some (s0, DHCPS_ERR_SUCCESS)"
    and "host_bits n k" and "host_of n + DHCPS_HISTORY_CLIENT_NUM < 2 ^ k - 1"
    and "length (DhcpMsg s) = DHCP_MSG_SIZE" and "dhcp_reach s0 s1"
    and "i < DHCPS_HISTORY_CLIENT_NUM" and "j < DHCPS_HISTORY_CLIENT_NUM" and "i \<noteq> j"
    and "active (ds_Clients (DhcpServer s1) ! i)" and "active (ds_Clients (DhcpServer s1) ! j)"
  shows "cl_IpAddr (ds_Clients (DhcpServer s1) ! i) \<noteq> cl_IpAddr (ds_Clients (DhcpServer s1) ! j)
    \<and> cl_MacAddr (ds_Clients (DhcpServer s1) ! i) \<noteq> cl_MacAddr (ds_Clients (DhcpServer s1) ! j)
    \<and> cl_IpAddr (ds_Clients (DhcpServer s1) ! i) \<noteq> nif_ip_addr n
    \<and> cl_IpAddr (ds_Clients (DhcpServer s1) ! i) AND nif_netmask n = nif_ip_addr n AND nif_netmask n"
proof -
  from serving_inv [OF assms(1-5)] have wf: "dhcp_wf s1"
    and ip: "\<And>i. i < DHCPS_HISTORY_CLIENT_NUM \<Longrightarrow> cl_IpAddr (ds_Clients (DhcpServer s1) ! i) = pool_addr n i"
    by auto
  have b: "host_of n + 1 + i < 2 ^ k" "host_of n + 1 + j < 2 ^ k"
    using assms(3,6,7) by auto
  have "cl_MacAddr (ds_Clients (DhcpServer s1) ! i) \<noteq> cl_MacAddr (ds_Clients (DhcpServer s1) ! j)"
    using wf assms(6-10) unfolding dhcp_wf_def one_entry_def by metis
  then show ?thesis
    unfolding ip [OF assms(6)] ip [OF assms(7)]
    using pool_addr_inj [OF assms(2) b] assms(8) pool_addr_not_server [OF assms(2) b(1)]
      pool_addr_net(1) [OF assms(2) b(1)] by blast
qed

section \<open>Properties\<close>

text \<open>C11: no double lease: with a pool that does not wrap (the host number plus eight below the
  last one), in every state reachable from \<open>DHCPS_Start\<close> by messages, ticks and deletions, two
  active entries never share an address nor a hardware address, and every entry's address is in
  the server's subnet and is not the server's own.\<close>

theorem dhcp_no_double_lease:
  assumes "DHCPS_Start pcb n s = Some (s0, DHCPS_ERR_SUCCESS)"
    and "host_bits n k" and "host_of n + DHCPS_HISTORY_CLIENT_NUM < 2 ^ k - 1"
    and "length (DhcpMsg s) = DHCP_MSG_SIZE" and "dhcp_reach s0 s1"
    and "i < DHCPS_HISTORY_CLIENT_NUM" and "j < DHCPS_HISTORY_CLIENT_NUM" and "i \<noteq> j"
    and "active (ds_Clients (DhcpServer s1) ! i)" and "active (ds_Clients (DhcpServer s1) ! j)"
  shows "cl_IpAddr (ds_Clients (DhcpServer s1) ! i) \<noteq> cl_IpAddr (ds_Clients (DhcpServer s1) ! j)
    \<and> cl_MacAddr (ds_Clients (DhcpServer s1) ! i) \<noteq> cl_MacAddr (ds_Clients (DhcpServer s1) ! j)
    \<and> cl_IpAddr (ds_Clients (DhcpServer s1) ! i) \<noteq> nif_ip_addr n
    \<and> cl_IpAddr (ds_Clients (DhcpServer s1) ! i) AND nif_netmask n = nif_ip_addr n AND nif_netmask n"
  by (rule leases_apart [OF assms])

text \<open>A server on 192.168.1.1/24, and the discover and request of one client.\<close>

definition example_netif :: netif_view where
  "example_netif = \<lparr>nif_up = True, nif_ip_addr = 0x0101a8c0, nif_netmask = 0x00ffffff\<rparr>"

definition example_before :: dhcp where
  "example_before = \<lparr>DhcpServer = zero_server, DhcpMsg = replicate 548 0, dhcp_tick_armed = False\<rparr>"

definition example_packet :: "u8 \<Rightarrow> u8 \<Rightarrow> u8 list" where
  "example_packet typ a = [1, 1, 6, 0, 1, 2, 3, 4] @ replicate 20 0 @ [a, 0, 0, 0, 0, 1]
     @ replicate 202 0 @ [0x63, 0x82, 0x53, 0x63] @ [53, 1, typ, 255]"

lemma example_facts:
  "host_bits example_netif 8" "host_of example_netif = 1"
  by (simp_all add: host_bits_def host_of_def example_netif_def lwip_htonl_def mask_eq_exp_minus_1)

definition example_server :: dhcp where
  "example_server = fst (the (DHCPS_Start 7 example_netif example_before))"

definition example_after :: "dhcp \<Rightarrow> u8 \<Rightarrow> u8 \<Rightarrow> dhcp" where
  "example_after s typ a = fst (DHCPS_RecvCb (\<lambda>_. 0) True s (example_packet typ a))"

lemma example_start: "DHCPS_Start 7 example_netif example_before = Some (example_server, DHCPS_ERR_SUCCESS)"
  using start_ok [of example_netif 8 7 example_before] example_facts
  by (auto simp: example_server_def example_netif_def)

lemma example_enabled: "ds_Enable (DhcpServer example_server) = 1 \<and> length (DhcpMsg example_before) = DHCP_MSG_SIZE"
  using start_ok [of example_netif 8 7 example_before] example_facts example_start
  by (auto simp: example_netif_def example_before_def)

text \<open>Two clients, both offered an address.\<close>

lemma example_two_active:
  "let s = example_after (example_after example_server 1 2) 1 3 in
   active (ds_Clients (DhcpServer s) ! 0) \<and> active (ds_Clients (DhcpServer s) ! 1)"
  by code_simp

lemma reach_recv:
  assumes wf: "dhcp_wf s0" and r: "dhcp_reach s0 s" and e: "ds_Enable (DhcpServer s) \<noteq> 0"
  shows "dhcp_reach s0 (example_after s typ a)
     \<and> ds_Enable (DhcpServer (example_after s typ a)) \<noteq> 0"
proof -
  have "dhcp_step s (RecvEv (example_packet typ a))
      (snd (DHCPS_RecvCb (\<lambda>_. 0) True s (example_packet typ a))) (example_after s typ a)"
    by (rule dhcp_step.recv [OF e, of "\<lambda>_. 0" True]) (simp add: example_after_def)
  then have r': "dhcp_reach s0 (example_after s typ a)" by (rule dhcp_reach.step [OF r])
  obtain cs1 cs2 where "DhcpServer s = (DhcpServer s0)\<lparr>ds_Clients := cs1\<rparr>"
      "DhcpServer (example_after s typ a) = (DhcpServer s0)\<lparr>ds_Clients := cs2\<rparr>"
    using dhcp_reach_ok [OF r wf] dhcp_reach_ok [OF r' wf] by (auto simp: same_pool_def)
  with r' e show ?thesis by simp
qed

lemma example_reach:
  "dhcp_reach example_server (example_after (example_after example_server 1 2) 1 3)"
proof -
  have wf: "dhcp_wf example_server"
    using serving_inv [OF example_start example_facts(1)] example_facts(2) example_enabled
      dhcp_reach.start by auto
  show ?thesis
    using reach_recv [OF wf reach_recv [OF wf dhcp_reach.start, THEN conjunct1]
        reach_recv [OF wf dhcp_reach.start, THEN conjunct2]] example_enabled by auto
qed

lemma dhcp_no_double_lease_witness:
  "let s = example_after (example_after example_server 1 2) 1 3 in
   cl_IpAddr (ds_Clients (DhcpServer s) ! 0) \<noteq> cl_IpAddr (ds_Clients (DhcpServer s) ! 1)"
proof -
  let ?s = "example_after (example_after example_server 1 2) 1 3"
  have "active (ds_Clients (DhcpServer ?s) ! 0)" "active (ds_Clients (DhcpServer ?s) ! 1)"
    using example_two_active by (simp_all add: Let_def)
  from dhcp_no_double_lease [OF example_start example_facts(1) _ _ example_reach _ _ _ this]
  show ?thesis using example_facts(2) example_enabled by (simp add: Let_def)
qed

text \<open>C12: what a datagram can bring about: nothing is sent, or a NAK, or exactly one OFFER or
  ACK to the sender; after an ACK (OFFER) the entry whose address was sent is bound to the sender
  with a fresh lease (in request with a fresh timeout), no other active entry is the sender's, and
  no other entry of the pool has that address.\<close>

theorem dhcp_answer_exclusive:
  assumes "DHCPS_Start pcb n s = Some (s0, DHCPS_ERR_SUCCESS)"
    and "host_bits n k" and "host_of n + DHCPS_HISTORY_CLIENT_NUM < 2 ^ k - 1"
    and "length (DhcpMsg s) = DHCP_MSG_SIZE" and "dhcp_reach s0 s1"
    and "dhcp_step s1 (RecvEv packet) out s2"
  shows "out = [] \<or> (\<exists>xid. out = [dhcp_nak (DhcpServer s2) (sender packet s1) xid])
    \<or> (\<exists>t ip i xid. out = [dhcp_packet (DhcpServer s2) t ip (sender packet s1) xid]
        \<and> granted (sender packet s1) s2 t ip i
        \<and> (\<forall>j<DHCPS_HISTORY_CLIENT_NUM. j \<noteq> i \<longrightarrow> cl_IpAddr (ds_Clients (DhcpServer s2) ! j) \<noteq> ip))"
proof -
  have wf: "dhcp_wf s1" using serving_inv [OF assms(1-5)] by blast
  have an: "answered (sender packet s1) s2 out"
  proof -
    obtain beyond alloc where "DHCPS_RecvCb beyond alloc s1 packet = (s2, out)"
      using assms(6) by (auto elim: recvE)
    from recv_ok [OF wf this] show ?thesis by blast
  qed
  have r2: "dhcp_reach s0 s2" by (rule dhcp_reach.step [OF assms(5,6)])
  from serving_inv [OF assms(1-4) r2] have wf2: "dhcp_wf s2"
    and ip: "\<And>i. i < DHCPS_HISTORY_CLIENT_NUM \<Longrightarrow> cl_IpAddr (ds_Clients (DhcpServer s2) ! i) = pool_addr n i"
    by auto
  have ex: "cl_IpAddr (ds_Clients (DhcpServer s2) ! j) \<noteq> a"
    if g: "granted m s2 t a i" and j: "j < DHCPS_HISTORY_CLIENT_NUM" "j \<noteq> i" for m t a i j
  proof -
    have i: "i < DHCPS_HISTORY_CLIENT_NUM" "cl_IpAddr (ds_Clients (DhcpServer s2) ! i) = a"
      using g wf2 by (auto simp: granted_def solo_def dhcp_wf_def)
    have "host_of n + 1 + i < 2 ^ k" "host_of n + 1 + j < 2 ^ k"
      using assms(3) i j by auto
    from pool_addr_inj [OF assms(2) this] show ?thesis
      using j i ip [OF i(1)] ip [OF j(1)] by auto
  qed
  from an show ?thesis
    unfolding answered_def using ex by metis
qed

lemma dhcp_answer_exclusive_witness:
  "\<exists>out s2. dhcp_step example_server (RecvEv (example_packet 1 2)) out s2
    \<and> (out = [] \<or> (\<exists>xid. out = [dhcp_nak (DhcpServer s2) (sender (example_packet 1 2) example_server) xid])
    \<or> (\<exists>t ip i xid. out = [dhcp_packet (DhcpServer s2) t ip (sender (example_packet 1 2) example_server) xid]
        \<and> granted (sender (example_packet 1 2) example_server) s2 t ip i
        \<and> (\<forall>j<DHCPS_HISTORY_CLIENT_NUM. j \<noteq> i \<longrightarrow> cl_IpAddr (ds_Clients (DhcpServer s2) ! j) \<noteq> ip)))"
proof -
  obtain out s2 where r: "DHCPS_RecvCb (\<lambda>_. 0) True example_server (example_packet 1 2) = (s2, out)"
    by fastforce
  have e: "ds_Enable (DhcpServer example_server) \<noteq> 0" using example_enabled by simp
  have st: "dhcp_step example_server (RecvEv (example_packet 1 2)) out s2"
    by (rule dhcp_step.recv [OF e r])
  from dhcp_answer_exclusive [OF example_start example_facts(1) _ _ dhcp_reach.start this]
  show ?thesis using st example_facts(2) example_enabled by (intro exI conjI) auto
qed

text \<open>C13: whoever holds an address keeps it: a datagram from any other hardware address leaves
  the entry of an active client exactly as it was, state, timers and address.\<close>

theorem dhcp_recv_keeps_others:
  assumes "dhcp_wf s" and "dhcp_step s (RecvEv packet) out s'"
    and "j < DHCPS_HISTORY_CLIENT_NUM" and "active (ds_Clients (DhcpServer s) ! j)"
    and "cl_MacAddr (ds_Clients (DhcpServer s) ! j) \<noteq> sender packet s"
  shows "ds_Clients (DhcpServer s') ! j = ds_Clients (DhcpServer s) ! j"
proof -
  obtain beyond alloc where "DHCPS_RecvCb beyond alloc s packet = (s', out)"
    using assms(2) by (auto elim: recvE)
  from recv_ok [OF assms(1) this] obtain cs' where
    "DhcpServer s' = (DhcpServer s)\<lparr>ds_Clients := cs'\<rparr>"
    "others_kept (sender packet s) (ds_Clients (DhcpServer s)) cs'"
    by (auto simp: table_step_def)
  then show ?thesis
    using assms(1,3-5) by (simp add: others_kept_def dhcp_wf_def)
qed

definition bound_server :: dhcp where
  "bound_server = example_before\<lparr>DhcpServer := zero_server\<lparr>ds_Enable := 1,
     ds_ServerIpAddr := 0x0101a8c0, ds_Clients :=
       zero_client\<lparr>cl_State := DHCP_CLIENT_STATE_BIND, cl_IpAddr := 0x0201a8c0,
         cl_MacAddr := [2, 0, 0, 0, 0, 1], cl_Lease := DHCP_DEFAULT_LEASE_TIME\<rparr>
       # replicate 7 zero_client\<rparr>\<rparr>"

lemma bound_server_wf: "dhcp_wf bound_server"
proof -
  have "one_entry (ds_Clients (DhcpServer bound_server))"
    unfolding one_entry_def
    by (auto simp: bound_server_def nth_Cons' active_def zero_client_def split: if_splits)
  moreover have "settled (ds_Clients (DhcpServer bound_server))"
    by (auto simp: settled_def bound_server_def zero_client_def)
  ultimately show ?thesis by (simp add: dhcp_wf_def bound_server_def example_before_def)
qed

lemma dhcp_recv_keeps_others_witness:
  "\<exists>out s'. dhcp_step bound_server (RecvEv (example_packet 3 9)) out s'
    \<and> ds_Clients (DhcpServer s') ! 0 = ds_Clients (DhcpServer bound_server) ! 0"
proof -
  obtain out s' where r: "DHCPS_RecvCb (\<lambda>_. 0) True bound_server (example_packet 3 9) = (s', out)"
    by fastforce
  have st: "dhcp_step bound_server (RecvEv (example_packet 3 9)) out s'"
    by (rule dhcp_step.recv [OF _ r]) (simp add: bound_server_def)
  have "sender (example_packet 3 9) bound_server = [9, 0, 0, 0, 0, 1]"
    by (simp add: sender_def example_packet_def bound_server_def example_before_def)
  then have "ds_Clients (DhcpServer s') ! 0 = ds_Clients (DhcpServer bound_server) ! 0"
    using dhcp_recv_keeps_others [OF bound_server_wf st, of 0]
    by (simp add: bound_server_def active_def)
  with st show ?thesis by blast
qed

text \<open>C14: the parser against the encoding: options that a client encodes correctly (identifier,
  length, value; the end marker inside the message) are read as meant, whatever stands before and
  after them and whatever lies in memory behind the message; the fixed options of the answers
  decode to the message type and the server's identifier.\<close>

theorem dhcp_parse_encoded:
  assumes "\<forall>ov\<in>set ovs. option_ok ov"
    and "length hdr = DHCP_OPTIONS_OFFSET"
    and "length (hdr @ concat (map enc_option ovs) @ DHCP_OPTION_ID_END # post) = DHCP_MSG_SIZE"
  shows "ParseDhcpOptions beyond (hdr @ concat (map enc_option ovs) @ DHCP_OPTION_ID_END # post)
      DHCP_OPTIONS_OFFSET fresh_options = fold apply_option ovs fresh_options
    \<and> ParseDhcpOptions beyond (put_at DHCP_OPTIONS_OFFSET (dhcp_offer_body srv mt) (hdr @ replicate 308 0))
      DHCP_OPTIONS_OFFSET fresh_options
      = \<lparr>opt_MsgType = mt, opt_ReqIpAddr = 0, opt_ServerId = ds_ServerIpAddr srv, opt_Ret = 5\<rparr>"
  using parse_encoded [OF assms(1) refl assms(3), of beyond fresh_options] assms(2)
    parse_own_message [of "hdr @ replicate 308 0" beyond srv mt] by simp

lemma dhcp_parse_encoded_witness:
  "ParseDhcpOptions (\<lambda>_. 0xaa) (replicate 240 0
      @ concat (map enc_option [(12, [65, 66]), (53, [3]), (50, [192, 168, 1, 7])]) @ 255 # replicate 294 7)
     DHCP_OPTIONS_OFFSET fresh_options
   = \<lparr>opt_MsgType = 3, opt_ReqIpAddr = of_le32 [192, 168, 1, 7], opt_ServerId = 0, opt_Ret = 3\<rparr>"
  using dhcp_parse_encoded [of "[(12, [65, 66]), (53, [3]), (50, [192, 168, 1, 7])]" "replicate 240 0"
      "replicate 294 7" "\<lambda>_. 0xaa"]
  by (simp add: option_ok_def enc_option_def apply_option_def fresh_options_def)

text \<open>The bounds check comes after the read: a datagram whose last option starts two bytes
  before the end of the message makes the parser take the message type from the byte behind
  \<open>DhcpMsg\<close>.\<close>

theorem dhcp_parse_overread:
  "ParseDhcpOptions beyond (replicate 546 0 @ [53, 1]) DHCP_OPTIONS_OFFSET fresh_options
     = fresh_options\<lparr>opt_MsgType := beyond DHCP_MSG_SIZE, opt_Ret := 1\<rparr>"
proof -
  let ?m = "replicate 546 0 @ [53, 1 :: u8]"
  have z: "msg_read beyond ?m p = 0" if "p < 546" for p
    using that by (simp add: nth_append)
  have pads: "ParseDhcpOptions beyond ?m (546 - k) fresh_options = ParseDhcpOptions beyond ?m 546 fresh_options"
    if "k \<le> 306" for k
    using that
  proof (induction k)
    case (Suc k)
    then have p: "546 - Suc k < 546" "546 - Suc k + 1 = 546 - k" by auto
    have "ParseDhcpOptions beyond ?m (546 - Suc k) fresh_options
        = ParseDhcpOptions beyond ?m (546 - Suc k + 1) fresh_options"
      using z [OF p(1)] p(1) by (subst ParseDhcpOptions.simps) simp
    then show ?case using Suc p(2) by simp
  qed simp
  have end': "ParseDhcpOptions beyond ?m 549 st = st" for st
    by (subst ParseDhcpOptions.simps) simp
  have "ParseDhcpOptions beyond ?m 546 fresh_options
      = fresh_options\<lparr>opt_MsgType := beyond 548, opt_Ret := 1\<rparr>"
    by (subst ParseDhcpOptions.simps)
      (simp add: nth_append end' parse_option_def Let_def msg_read_def fresh_options_def)
  then show ?thesis using pads [of 306] by simp
qed

text \<open>An offer nobody takes up is withdrawn: an entry in request with timeout \<open>t\<close> is idle,
  and its address free for everybody, after \<open>t\<close> ticks, whatever the stations do in between.\<close>

theorem dhcp_offer_expires:
  assumes "ds_Enable (DhcpServer s) \<noteq> 0" and "i < length (ds_Clients (DhcpServer s))"
    and "cl_State (ds_Clients (DhcpServer s) ! i) = DHCP_CLIENT_STATE_REQUEST"
    and "unat (cl_Timeout (ds_Clients (DhcpServer s) ! i)) = length stations" and "stations \<noteq> []"
  shows "let c = ds_Clients (DhcpServer (fold DhcpTickHandle stations s)) ! i in
    cl_State c = DHCP_CLIENT_STATE_IDLE \<and> cl_MacAddr c = zero_mac"
  using assms
proof (induction stations arbitrary: s)
  case (Cons st sts)
  let ?c = "ds_Clients (DhcpServer s) ! i" and ?s = "DhcpTickHandle st s"
  have t: "cl_Timeout ?c \<noteq> 0" using Cons.prems(4) by auto
  then have t1: "unat (cl_Timeout ?c - 1) = length sts"
    using Cons.prems(4) by (simp add: unat_minus_one)
  have e: "ds_Enable (DhcpServer ?s) \<noteq> 0" and l: "i < length (ds_Clients (DhcpServer ?s))"
    and c: "ds_Clients (DhcpServer ?s) ! i = tick_client st ?c"
    using Cons.prems(1,2) by (simp_all add: DhcpTickHandle_def Let_def)
  show ?case
  proof (cases "sts = []")
    case True
    then have "cl_Timeout ?c - 1 = 0" using t1 by (simp add: word_unat_eq_iff)
    then show ?thesis using True Cons.prems(3) t c by (simp add: tick_client_def Let_def)
  next
    case False
    then have "cl_Timeout ?c - 1 \<noteq> 0" using t1 by auto
    then have "cl_State (tick_client st ?c) = DHCP_CLIENT_STATE_REQUEST"
        "unat (cl_Timeout (tick_client st ?c)) = length sts"
      using Cons.prems(3) t t1 by (simp_all add: tick_client_def Let_def)
    then show ?thesis using Cons.IH [OF e l] False c by simp
  qed
qed simp

lemma dhcp_offer_expires_witness:
  "let s = example_before\<lparr>DhcpServer := zero_server\<lparr>ds_Enable := 1, ds_Clients := [zero_client\<lparr>
       cl_State := DHCP_CLIENT_STATE_REQUEST, cl_Timeout := 2\<rparr>]\<rparr>\<rparr>;
       c = ds_Clients (DhcpServer (fold DhcpTickHandle [\<lambda>_. 0, \<lambda>_. 1] s)) ! 0 in
    cl_State c = DHCP_CLIENT_STATE_IDLE \<and> cl_MacAddr c = zero_mac"
  unfolding Let_def
  by (rule dhcp_offer_expires [unfolded Let_def]) (simp_all add: zero_server_def)

lemma delete_loop_cases:
  "delete_loop m cs = (cs', r) \<Longrightarrow>
     (r = DHCPS_ERR_NOT_FOUND \<and> cs' = cs \<and> (\<forall>c\<in>set cs. \<not> mine m c))
     \<or> (\<exists>i<length cs. mine m (cs ! i) \<and>
         (if cl_State (cs ! i) = DHCP_CLIENT_STATE_BIND
          then r = DHCPS_ERR_SUCCESS \<and> cs' = cs[i := (cs ! i)\<lparr>cl_State := DHCP_CLIENT_STATE_IDLE\<rparr>]
          else r = DHCPS_ERR_NOT_BIND \<and> cs' = cs))"
proof (induction cs arbitrary: cs')
  case (Cons c cs)
  show ?case
  proof (cases "mine m c")
    case True
    then show ?thesis
      using Cons.prems by (intro disjI2 exI [of _ 0]) (auto simp: mine_def active_def split: if_splits)
  next
    case False
    then obtain ds where ds: "delete_loop m cs = (ds, r)" "cs' = c # ds"
      using Cons.prems by (auto simp: mine_def active_def split: if_splits prod.splits)
    from Cons.IH [OF ds(1)] show ?thesis
    proof
      assume "\<exists>i<length cs. mine m (cs ! i) \<and>
         (if cl_State (cs ! i) = DHCP_CLIENT_STATE_BIND
          then r = DHCPS_ERR_SUCCESS \<and> ds = cs[i := (cs ! i)\<lparr>cl_State := DHCP_CLIENT_STATE_IDLE\<rparr>]
          else r = DHCPS_ERR_NOT_BIND \<and> ds = cs)"
      then obtain i where "i < length cs" "mine m (cs ! i)"
         "if cl_State (cs ! i) = DHCP_CLIENT_STATE_BIND
          then r = DHCPS_ERR_SUCCESS \<and> ds = cs[i := (cs ! i)\<lparr>cl_State := DHCP_CLIENT_STATE_IDLE\<rparr>]
          else r = DHCPS_ERR_NOT_BIND \<and> ds = cs" by blast
      then show ?thesis
        using ds(2) by (intro disjI2 exI [of _ "Suc i"]) (auto split: if_splits)
    qed (use False ds(2) in auto)
  qed
qed simp

text \<open>\<open>DHCPS_ClientDelete\<close> on a running server: success exactly when the client is bound,
  and then it holds no entry any more; refused with \<open>NOT_BIND\<close> exactly when it is negotiating,
  \<open>NOT_FOUND\<close> exactly when it has no entry; refusals change nothing.\<close>

theorem dhcp_delete_result:
  assumes "dhcp_wf s" and "ds_Enable (DhcpServer s) \<noteq> 0"
    and "DHCPS_ClientDelete (Some m) s = (s', r)"
  shows "(r = DHCPS_ERR_SUCCESS \<longleftrightarrow> (\<exists>c\<in>set (ds_Clients (DhcpServer s)). mine m c
        \<and> cl_State c = DHCP_CLIENT_STATE_BIND))
    \<and> (r = DHCPS_ERR_NOT_BIND \<longleftrightarrow> (\<exists>c\<in>set (ds_Clients (DhcpServer s)). mine m c
        \<and> cl_State c \<noteq> DHCP_CLIENT_STATE_BIND))
    \<and> (r = DHCPS_ERR_NOT_FOUND \<longleftrightarrow> \<not> (\<exists>c\<in>set (ds_Clients (DhcpServer s)). mine m c))
    \<and> (if r = DHCPS_ERR_SUCCESS then \<not> (\<exists>c\<in>set (ds_Clients (DhcpServer s')). mine m c)
       else s' = s)"
proof -
  let ?cs = "ds_Clients (DhcpServer s)"
  obtain cs' where run: "delete_loop m ?cs = (cs', r)" and s': "s' = set_clients (\<lambda>_. cs') s"
    using assms(2,3) by (auto simp: DHCPS_ClientDelete_def Let_def split: prod.splits)
  have one: "one_entry ?cs" using assms(1) by (simp add: dhcp_wf_def)
  from delete_loop_cases [OF run] show ?thesis
  proof
    assume "r = DHCPS_ERR_NOT_FOUND \<and> cs' = ?cs \<and> (\<forall>c\<in>set ?cs. \<not> mine m c)"
    then show ?thesis by (auto simp: s' set_clients_def)
  next
    assume "\<exists>i<length ?cs. mine m (?cs ! i) \<and>
         (if cl_State (?cs ! i) = DHCP_CLIENT_STATE_BIND
          then r = DHCPS_ERR_SUCCESS \<and> cs' = ?cs[i := (?cs ! i)\<lparr>cl_State := DHCP_CLIENT_STATE_IDLE\<rparr>]
          else r = DHCPS_ERR_NOT_BIND \<and> cs' = ?cs)"
    then obtain i where i: "i < length ?cs" "mine m (?cs ! i)"
      and res: "if cl_State (?cs ! i) = DHCP_CLIENT_STATE_BIND
          then r = DHCPS_ERR_SUCCESS \<and> cs' = ?cs[i := (?cs ! i)\<lparr>cl_State := DHCP_CLIENT_STATE_IDLE\<rparr>]
          else r = DHCPS_ERR_NOT_BIND \<and> cs' = ?cs" by blast
    have only: "c = ?cs ! i" if "c \<in> set ?cs" "mine m c" for c
    proof -
      obtain j where "j < length ?cs" "c = ?cs ! j" using \<open>c \<in> set ?cs\<close> by (auto simp: in_set_conv_nth)
      then show ?thesis using one_entryD [OF one _ i(1) _ i(2), of j] that(2) by simp
    qed
    have mem: "?cs ! i \<in> set ?cs" using i(1) by simp
    have ex: "(\<exists>c\<in>set ?cs. mine m c \<and> Q c) \<longleftrightarrow> Q (?cs ! i)" for Q
      using only i(2) mem by metis
    show ?thesis
    proof (cases "cl_State (?cs ! i) = DHCP_CLIENT_STATE_BIND")
      case True
      have "\<not> mine m (?cs[i := (?cs ! i)\<lparr>cl_State := DHCP_CLIENT_STATE_IDLE\<rparr>] ! j)"
        if j: "j < length ?cs" for j
        using one_entryD [OF one j i(1) _ i(2)] that
        by (cases "j = i") (auto simp: mine_def active_def)
      then have "\<not> (\<exists>c\<in>set cs'. mine m c)"
        using res True by (auto simp: in_set_conv_nth)
      then show ?thesis using res True ex [of "\<lambda>c. True"] by (simp add: ex s')
    next
      case False
      then show ?thesis using res ex [of "\<lambda>c. True"] by (simp add: ex s' set_clients_def)
    qed
  qed
qed

lemma dhcp_delete_result_witness:
  "\<exists>s'. DHCPS_ClientDelete (Some [2, 0, 0, 0, 0, 1]) bound_server = (s', DHCPS_ERR_SUCCESS)
    \<and> \<not> (\<exists>c\<in>set (ds_Clients (DhcpServer s')). mine [2, 0, 0, 0, 0, 1] c)"
proof -
  obtain s' r where d: "DHCPS_ClientDelete (Some [2, 0, 0, 0, 0, 1]) bound_server = (s', r)"
    by fastforce
  have e: "ds_Enable (DhcpServer bound_server) \<noteq> 0" by (simp add: bound_server_def)
  from dhcp_delete_result [OF bound_server_wf e d] d show ?thesis
    by (auto simp: bound_server_def mine_def active_def)
qed

definition small_netif :: netif_view where
  "small_netif = \<lparr>nif_up = True, nif_ip_addr = 0x0101a8c0, nif_netmask = 0xf8ffffff\<rparr>"

lemma small_pool:
  "map_option (\<lambda>(s0, r). (r, map cl_IpAddr (ds_Clients (DhcpServer s0)), ds_ServerIpAddr (DhcpServer s0)))
     (DHCPS_Start 7 small_netif example_before)
   = Some (DHCPS_ERR_SUCCESS, [0x0201a8c0, 0x0301a8c0, 0x0401a8c0, 0x0501a8c0, 0x0601a8c0, 0x0101a8c0,
       0x0101a8c0, 0x0201a8c0], 0x0101a8c0)"
  by code_simp

text \<open>The arithmetic of the pool reduces modulo the inverted netmask and maps 0 to 1, so in
  a small subnet (here 192.168.1.1 with netmask 255.255.255.248) two entries of the fresh table
  hold the same address and one holds the server's own.\<close>

theorem dhcp_pool_wraps:
  "\<exists>s0 i j l. DHCPS_Start 7 \<lparr>nif_up = True, nif_ip_addr = 0x0101a8c0, nif_netmask = 0xf8ffffff\<rparr>
       example_before = Some (s0, DHCPS_ERR_SUCCESS)
     \<and> i < j \<and> j < DHCPS_HISTORY_CLIENT_NUM \<and> l < DHCPS_HISTORY_CLIENT_NUM
     \<and> cl_IpAddr (ds_Clients (DhcpServer s0) ! i) = cl_IpAddr (ds_Clients (DhcpServer s0) ! j)
     \<and> cl_IpAddr (ds_Clients (DhcpServer s0) ! l) = ds_ServerIpAddr (DhcpServer s0)"
proof -
  from small_pool obtain s0 where s0: "DHCPS_Start 7 small_netif example_before = Some (s0, DHCPS_ERR_SUCCESS)"
    and ips: "map cl_IpAddr (ds_Clients (DhcpServer s0)) = [0x0201a8c0, 0x0301a8c0, 0x0401a8c0, 0x0501a8c0,
       0x0601a8c0, 0x0101a8c0, 0x0101a8c0, 0x0201a8c0]" and own: "ds_ServerIpAddr (DhcpServer s0) = 0x0101a8c0"
    by auto
  have len: "length (ds_Clients (DhcpServer s0)) = 8"
    using arg_cong [OF ips, of length] by simp
  have at: "cl_IpAddr (ds_Clients (DhcpServer s0) ! i) = [0x0201a8c0, 0x0301a8c0, 0x0401a8c0, 0x0501a8c0,
       0x0601a8c0, 0x0101a8c0, 0x0101a8c0, 0x0201a8c0] ! i" if "i < 8" for i
    using that len nth_map [of i "ds_Clients (DhcpServer s0)" cl_IpAddr] ips by simp
  show ?thesis
    using s0 at [of 0] at [of 7] at [of 5] own
    by (intro exI [of _ s0] exI [of _ 0] exI [of _ 7] exI [of _ 5]) (simp add: small_netif_def)
qed

lemma put_at_same: "off + length xs \<le> length m \<Longrightarrow> take (length xs) (drop off (put_at off xs m)) = xs"
  by (simp add: put_at_def)

lemma put_at_other:
  "off + length xs \<le> length m \<Longrightarrow> off' + k \<le> off \<or> off + length xs \<le> off' \<Longrightarrow>
     take k (drop off' (put_at off xs m)) = take k (drop off' m)"
  by (auto simp: put_at_def take_drop min_def)

lemma header_fields:
  assumes "length m = 6" and "length body \<le> 308"
  shows "take 4 (drop 236 (put_at 240 body (dhcp_header y si xid m))) = le32 (lwip_htonl DHCP_MAGIC)"
    and "take 6 (drop 28 (put_at 240 body (dhcp_header y si xid m))) = m"
    and "take 4 (drop 4 (put_at 240 body (dhcp_header y si xid m))) = le32 (lwip_htonl xid)"
    and "take 2 (put_at 240 body (dhcp_header y si xid m)) = [2, 1]"
proof -
  let ?h = "dhcp_header y si xid m"
  have o: "take k (drop off (put_at 240 body ?h)) = take k (drop off ?h)" if "off + k \<le> 240" for k off
    using that assms(2) by (intro put_at_other) simp_all
  have s: "take 4 (drop off (put_at off (le32 w) x)) = le32 w" if "off + 4 \<le> length x" for off w x
    using put_at_same [of off "le32 w" x] that by simp
  have m6: "take 6 (drop 28 (put_at 28 m x)) = m" if "34 \<le> length x" for x
    using put_at_same [of 28 m x] assms(1) that by simp
  show "take 4 (drop 236 (put_at 240 body ?h)) = le32 (lwip_htonl DHCP_MAGIC)"
    "take 6 (drop 28 (put_at 240 body ?h)) = m"
    "take 4 (drop 4 (put_at 240 body ?h)) = le32 (lwip_htonl xid)"
    by (subst o, simp, simp add: assms(1) dhcp_header_def s m6 put_at_other put_at_length)+
  show "take 2 (put_at 240 body ?h) = [2, 1]"
    using o [of 0 2] assms(1) put_at_other [where off' = 0 and k = 2] 
    by (simp add: dhcp_header_def put_at_length) (simp add: put_at_def)
qed

lemma recv_refused:
  assumes "n = min (length packet) DHCP_MSG_SIZE" and "n \<noteq> 0"
    and "msg = take n packet @ drop n (DhcpMsg s)" and "msg ! 0 = 1" and "msg ! 1 = 1"
    and "lwip_htonl (of_le32 (take 4 (drop 236 msg))) = DHCP_MAGIC"
    and "opts = ParseDhcpOptions beyond msg DHCP_OPTIONS_OFFSET fresh_options"
    and "opt_Ret opts AND 1 \<noteq> 0"
    and "ClientTableLookup (ds_Clients (DhcpServer s)) (ds_ServerIpAddr (DhcpServer s))
       (take 6 (drop 28 msg)) (opt_MsgType opts) (opt_ReqIpAddr opts) (opt_ServerId opts) = (cs, None)"
    and "opt_MsgType opts \<noteq> DHCP_MSG_RELEASE" and "opt_MsgType opts \<noteq> DHCP_MSG_DECLINE"
  shows "DHCPS_RecvCb beyond alloc s packet = DHCPNakGenAndSend
     (set_clients (\<lambda>_. cs) (s\<lparr>DhcpMsg := msg\<rparr>)) alloc (take 6 (drop 28 msg))
     (lwip_htonl (of_le32 (take 4 (drop 4 msg))))"
  unfolding DHCPS_RecvCb_def Let_def assms(1) [symmetric] assms(3) [symmetric]
    fresh_options_def [symmetric] assms(7) [symmetric]
  using assms(2,4-6,8-11) by simp

text \<open>\<open>DhcpMsg\<close> is not cleared before reception and the length of the datagram is only
  compared with 0: a datagram of the single byte 1, after the server has sent an offer, is
  completed by the rest of that offer and answered with a NAK to the client of the offer.\<close>

theorem dhcp_stale_message:
  assumes "length m = 6" and "DHCPOfferGenAndSend s True c m xid = (s1, out)"
  shows "snd (DHCPS_RecvCb beyond True s1 [1]) = [dhcp_nak (DhcpServer s) m xid]"
proof -
  let ?hdr = "dhcp_header (cl_IpAddr c) 0 xid m" and ?body = "dhcp_offer_body (DhcpServer s) DHCP_MSG_OFFER"
  let ?M = "put_at 240 ?body ?hdr"
  have s1: "s1 = s\<lparr>DhcpMsg := ?M\<rparr>"
    using assms(2) by (simp add: DHCPOfferGenAndSend_def dhcp_send_def Let_def)
  have lm: "length ?M = 548" by (simp add: put_at_length)
  let ?msg = "1 # drop 1 ?M"
  have d: "take k (drop off ?msg) = take k (drop off ?M)" if "0 < off" for k off
    using that by (cases off) simp_all
  note h = header_fields [OF assms(1), of ?body "cl_IpAddr c" 0 xid, simplified]
  have m1: "?msg ! 1 = 1"
  proof -
    have "?M ! 1 = take 2 ?M ! 1" by simp
    then show ?thesis using h(4) lm by simp
  qed
  have put: "?msg = put_at 240 ?body (1 # drop 1 ?hdr)"
    by (simp add: put_at_def take_Cons' drop_Cons' drop_take)
  have parse: "ParseDhcpOptions beyond ?msg 240 fresh_options
      = \<lparr>opt_MsgType = DHCP_MSG_OFFER, opt_ReqIpAddr = 0,
         opt_ServerId = ds_ServerIpAddr (DhcpServer s), opt_Ret = 5\<rparr>"
    unfolding put by (rule parse_own_message) simp
  have look: "ClientTableLookup cs ip mm DHCP_MSG_OFFER req sid = (cs, None)" for cs ip mm req sid
    by (simp add: ClientTableLookup_def Let_def)
  have magic: "lwip_htonl (of_le32 (take 4 (drop 236 ?msg))) = DHCP_MAGIC"
    using h(1) by (subst d) simp_all
  have xid: "lwip_htonl (of_le32 (take 4 (drop 4 ?msg))) = xid"
    using h(3) by (subst d) simp_all
  have mac: "take 6 (drop 28 ?msg) = m"
    using h(2) by (subst d) simp_all
  have msg: "?msg = take 1 [1] @ drop 1 (DhcpMsg s1)" by (simp add: s1)
  have "DHCPS_RecvCb beyond True s1 [1] = DHCPNakGenAndSend
     (set_clients (\<lambda>_. ds_Clients (DhcpServer s1)) (s1\<lparr>DhcpMsg := ?msg\<rparr>)) True (take 6 (drop 28 ?msg))
     (lwip_htonl (of_le32 (take 4 (drop 4 ?msg))))"
    by (rule recv_refused [OF _ _ msg _ m1 magic refl]) (simp_all only: parse look dhcp_options.simps, simp_all)
  then show ?thesis
    unfolding mac xid
    by (simp add: s1 DHCPNakGenAndSend_def dhcp_send_def Let_def dhcp_nak_def DHCP_SET_OPTION_MSG_TYPE_def)
qed

lemma dhcp_stale_message_witness:
  "\<exists>s1 out. DHCPOfferGenAndSend bound_server True (zero_client\<lparr>cl_IpAddr := 0x0301a8c0\<rparr>)
       [2, 0, 0, 0, 0, 9] 0x11223344 = (s1, out)
     \<and> snd (DHCPS_RecvCb (\<lambda>_. 0) True s1 [1]) = [dhcp_nak (DhcpServer bound_server) [2, 0, 0, 0, 0, 9] 0x11223344]"
proof -
  obtain s1 out where r: "DHCPOfferGenAndSend bound_server True (zero_client\<lparr>cl_IpAddr := 0x0301a8c0\<rparr>)
       [2, 0, 0, 0, 0, 9] 0x11223344 = (s1, out)" by fastforce
  from dhcp_stale_message [OF _ this, of "\<lambda>_. 0"] r show ?thesis by auto
qed

text \<open>A client that has an entry and requests an address outside the pool, naming no server,
  is not refused: the lookup returns its own entry, whose address is another one than requested,
  and that address is acknowledged.\<close>

theorem dhcp_request_foreign:
  assumes "one_entry cs" and "i < length cs" and "mine m (cs ! i)"
    and "\<forall>c\<in>set cs. cl_IpAddr c \<noteq> req"
  shows "\<exists>cs'. ClientTableLookup cs server_ip m DHCP_MSG_REQUEST req 0 = (cs', Some i)
    \<and> cl_IpAddr (cs' ! i) \<noteq> req"
proof -
  let ?p = "scan_clients m req 0 cs no_ptrs"
  note p = scan_ok [of m req cs, unfolded ptrs_ok_def]
  have my: "pMyClient ?p = Some i"
  proof (cases "pMyClient ?p")
    case None
    then show ?thesis using p assms(2,3) by simp
  next
    case (Some j)
    then have "j < length cs" "mine m (cs ! j)" using p by simp_all
    then show ?thesis using one_entryD [OF assms(1) _ assms(2) _ assms(3)] Some by simp
  qed
  have rq: "pReqClient ?p = None"
    using p assms(4) by (cases "pReqClient ?p") auto
  have un: "\<not> IpUnavailable ?p"
    using p assms(4) by (auto simp: taken_def)
  have "ClientTableLookup cs server_ip m DHCP_MSG_REQUEST req 0
      = (upd_client cs i (cl_MacAddr_update (\<lambda>_. m)), Some i)"
    using my rq un by (simp add: ClientTableLookup_def Let_def lookup_request_def)
  then show ?thesis
    using assms(2,4) by (auto simp: nth_upd_client)
qed

lemma dhcp_request_foreign_witness:
  "\<exists>cs'. ClientTableLookup (ds_Clients (DhcpServer bound_server)) 0x0101a8c0 [2, 0, 0, 0, 0, 1]
      DHCP_MSG_REQUEST 0x0100000a 0 = (cs', Some 0) \<and> cl_IpAddr (cs' ! 0) \<noteq> 0x0100000a"
  by (rule dhcp_request_foreign)
    (use bound_server_wf in \<open>auto simp: dhcp_wf_def bound_server_def mine_def active_def zero_client_def\<close>)

end
