(* ===== verification/StrLib.thy ===== *)
theory StrLib
  imports Prelude
begin

text \<open>
  The string helpers of the command interpreter, \<^verbatim>\<open>App/SerialNet/strlib.c\<close>.  A string that is
  only read is the list of its bytes before the terminating NUL; \<open>strsep\<close> works on the buffer
  itself, by offset, and reading past its end is the fault \<^term>\<open>None\<close>.  \<open>section\<close> in
  \<open>is_valid_ip\<close> is a 32-bit C \<open>int\<close>, kept as a word and compared as a signed number.
\<close>

section \<open>The code\<close>

definition isdigit :: "u8 \<Rightarrow> bool" where
  "isdigit c \<longleftrightarrow> 0x30 \<le> c \<and> c \<le> 0x39"

fun str_is_digit :: "u8 list \<Rightarrow> int" where
  "str_is_digit [] = 1"
| "str_is_digit (c # cs) = (if \<not> isdigit c then 0 else str_is_digit cs)"

fun is_valid_ip_loop :: "u8 list \<Rightarrow> u32 \<Rightarrow> nat \<Rightarrow> int" where
  "is_valid_ip_loop [] sec dot =
     (if 0 < sint sec \<and> sint sec \<le> 255 \<and> dot = 3 then 0 else -1)"
| "is_valid_ip_loop (c # cs) sec dot =
     (if c = 0x2e then
        (if 3 < dot + 1 then -1
         else if 0 \<le> sint sec \<and> sint sec \<le> 255 then is_valid_ip_loop cs 0 (dot + 1)
         else -1)
      else if isdigit c then is_valid_ip_loop cs (sec * 10 + ucast c - 0x30) dot
      else -1)"

definition is_valid_ip :: "u8 list \<Rightarrow> int" where
  "is_valid_ip ip = is_valid_ip_loop ip 0 0"

fun strStartsWith :: "u8 list \<Rightarrow> u8 list \<Rightarrow> bool" where
  "strStartsWith (l # line) (p # prefix) = (if l \<noteq> p then False else strStartsWith line prefix)"
| "strStartsWith line prefix = (prefix = [])"

text \<open>\<open>strsep\<close> from offset \<open>s\<close>: the buffer with the separator overwritten and the offset behind
  it (\<^term>\<open>None\<close>: the null pointer).  \<open>strsep\<close> itself returns the token's start, its argument.\<close>

function strsep_loop ::
  "u8 list \<Rightarrow> u8 list \<Rightarrow> nat \<Rightarrow> (u8 list \<times> nat option) option" where
  "strsep_loop delim buf s =
     (if s < length buf then
        (if buf ! s = 0 then Some (buf, None)
         else if buf ! s \<in> set delim then Some (buf[s := 0], Some (s + 1))
         else strsep_loop delim buf (s + 1))
      else None)"
  by pat_completeness auto
termination
  by (relation "measure (\<lambda>(delim, buf, s). length buf - s)") auto

declare strsep_loop.simps [simp del]

definition strsep ::
  "u8 list \<Rightarrow> u8 list \<Rightarrow> nat option \<Rightarrow> (u8 list \<times> nat option \<times> nat option) option" where
  "strsep delim buf stringp =
     (case stringp of
        None \<Rightarrow> Some (buf, None, None)
      | Some s \<Rightarrow> map_option (\<lambda>(buf', next_s). (buf', next_s, Some s)) (strsep_loop delim buf s))"

section \<open>What they compute\<close>

lemma str_is_digit_iff: "str_is_digit cs = (if \<forall>c\<in>set cs. isdigit c then 1 else 0)"
  by (induction cs) auto

lemma strStartsWith_iff: "strStartsWith line prefix \<longleftrightarrow> take (length prefix) line = prefix"
  by (induction line prefix rule: strStartsWith.induct) auto

text \<open>The value of a section as the C code accumulates it.\<close>

definition sec_value :: "u32 \<Rightarrow> u8 list \<Rightarrow> u32" where
  "sec_value = foldl (\<lambda>sec c. sec * 10 + ucast c - 0x30)"

lemma sec_value_simps [simp]:
  "sec_value s [] = s" "sec_value s (c # cs) = sec_value (s * 10 + ucast c - 0x30) cs"
  by (simp_all add: sec_value_def)

definition sec_ok :: "u32 \<Rightarrow> bool" where
  "sec_ok w \<longleftrightarrow> 0 \<le> sint w \<and> sint w \<le> 255"

text \<open>The strings of \<open>n\<close> further dots the loop accepts, starting a section at the value
  \<open>s\<close>.\<close>

fun accepted :: "nat \<Rightarrow> u32 \<Rightarrow> u8 list \<Rightarrow> bool" where
  "accepted 0 s cs \<longleftrightarrow> (\<forall>c\<in>set cs. isdigit c) \<and> sec_ok (sec_value s cs) \<and> sec_value s cs \<noteq> 0"
| "accepted (Suc n) s cs \<longleftrightarrow> (\<exists>ds rest. cs = ds @ 0x2e # rest \<and> (\<forall>c\<in>set ds. isdigit c)
     \<and> sec_ok (sec_value s ds) \<and> accepted n 0 rest)"

lemma not_digit_dot [simp]: "\<not> isdigit 0x2e"
  by (simp add: isdigit_def)

lemma sint_pos: "0 < sint (w :: u32) \<longleftrightarrow> 0 \<le> sint w \<and> w \<noteq> 0"
proof -
  have "sint w = 0 \<longleftrightarrow> w = 0"
    by (metis signed_0 word_eq_iff_signed)
  then show ?thesis by linarith
qed

lemma accepted_digit:
  "isdigit c \<Longrightarrow> accepted n s (c # cs) \<longleftrightarrow> accepted n (s * 10 + ucast c - 0x30) cs"
proof (cases n)
  case (Suc k)
  assume c: "isdigit c"
  then have ne: "c \<noteq> 0x2e" by auto
  have "c # cs = ds @ 0x2e # rest \<longleftrightarrow> (\<exists>es. ds = c # es \<and> cs = es @ 0x2e # rest)" for ds rest
    using ne by (cases ds) auto
  then have "(\<exists>ds rest. c # cs = ds @ 0x2e # rest \<and> (\<forall>c\<in>set ds. isdigit c)
        \<and> sec_ok (sec_value s ds) \<and> accepted k 0 rest)
      \<longleftrightarrow> (\<exists>es rest. cs = es @ 0x2e # rest \<and> (\<forall>c\<in>set (c # es). isdigit c)
        \<and> sec_ok (sec_value s (c # es)) \<and> accepted k 0 rest)"
    by (simp only:) blast
  then show ?thesis using c Suc by simp
qed simp

lemma is_valid_ip_loop_iff:
  "dot \<le> 3 \<Longrightarrow> is_valid_ip_loop cs s dot = (if accepted (3 - dot) s cs then 0 else -1)"
proof (induction cs arbitrary: s dot)
  case Nil
  then show ?case
    by (cases "3 - dot") (auto simp: sec_ok_def sint_pos)
next
  case (Cons c cs)
  consider "c = 0x2e" | "isdigit c" | "c \<noteq> 0x2e" "\<not> isdigit c" by blast
  then show ?case
  proof cases
    case 1
    show ?thesis
    proof (cases "dot = 3")
      case True
      then show ?thesis using 1 by simp
    next
      case False
      then obtain k where k: "3 - dot = Suc k" "3 - (dot + 1) = k" using Cons.prems by (cases "3 - dot") auto
      have "accepted (Suc k) s (c # cs) \<longleftrightarrow> sec_ok s \<and> accepted k 0 cs"
      proof -
        have "c # cs = ds @ 0x2e # rest \<and> (\<forall>c\<in>set ds. isdigit c) \<longleftrightarrow> ds = [] \<and> rest = cs" for ds rest
          using 1 by (cases ds) auto
        then show ?thesis by (simp only: accepted.simps) (metis sec_value_simps(1))
      qed
      then show ?thesis
        using 1 False Cons.prems Cons.IH [of "dot + 1" 0] k by (auto simp: sec_ok_def)
    qed
  next
    case 2
    then have "c \<noteq> 0x2e" by auto
    with 2 show ?thesis using Cons.IH [OF Cons.prems] accepted_digit [OF 2] by simp
  next
    case 3
    then have "\<not> accepted n s (c # cs)" for n
      by (cases n) (auto simp: Cons_eq_append_conv)
    with 3 show ?thesis by simp
  qed
qed

lemma is_valid_ip_iff: "is_valid_ip ip = (if accepted 3 0 ip then 0 else -1)"
  by (simp add: is_valid_ip_def is_valid_ip_loop_iff)

text \<open>Decimal digits, as \<open>sprintf\<close> prints a number.\<close>

fun dec :: "nat \<Rightarrow> u8 list" where
  "dec n = (if n < 10 then [] else dec (n div 10)) @ [0x30 + of_nat (n mod 10)]"

declare dec.simps [simp del]

lemma digit_char: "d < 10 \<Longrightarrow> isdigit (0x30 + of_nat d)"
  by (simp add: isdigit_def word_le_nat_alt unat_add_small unat_of_nat)

lemma dec_digits: "\<forall>c\<in>set (dec n). isdigit c"
proof (induction n rule: dec.induct)
  case (1 n)
  then show ?case by (subst dec.simps) (auto simp: digit_char)
qed

lemma dec_nonempty: "dec n \<noteq> []"
  by (subst dec.simps) simp

lemma sec_value_append: "sec_value s (xs @ ys) = sec_value (sec_value s xs) ys"
  by (simp add: sec_value_def)

lemma digit_value: "d < 10 \<Longrightarrow> ucast (0x30 + of_nat d :: u8) = (0x30 + of_nat d :: u32)"
proof -
  assume "d < 10"
  then have "unat (0x30 + of_nat d :: u8) = 48 + d"
    by (simp add: unat_add_small unat_of_nat)
  moreover have "unat (ucast (0x30 + of_nat d :: u8) :: u32) = unat (0x30 + of_nat d :: u8)"
    using \<open>unat (0x30 + of_nat d :: u8) = 48 + d\<close> \<open>d < 10\<close>
    by (simp add: unsigned_ucast_eq take_bit_nat_eq_self)
  moreover have "unat (0x30 + of_nat d :: u32) = 48 + d"
    using \<open>d < 10\<close> by (simp add: unat_add_small unat_of_nat)
  ultimately show ?thesis by (simp add: word_unat_eq_iff)
qed

lemma sec_value_dec: "sec_value 0 (dec n) = of_nat n"
proof (induction n rule: dec.induct)
  case (1 n)
  have "(of_nat n :: u32) = of_nat (n div 10 * 10 + n mod 10)" by simp
  also have "\<dots> = of_nat (n div 10) * 10 + of_nat (n mod 10)" by (simp only: of_nat_add of_nat_mult) simp
  finally have n: "(of_nat n :: u32) = of_nat (n div 10) * 10 + of_nat (n mod 10)" .
  show ?case
    using 1 n by (subst dec.simps) (auto simp: sec_value_append digit_value)
qed

definition dotted :: "nat list \<Rightarrow> u8 list" where
  "dotted ns = (case ns of [] \<Rightarrow> [] | n # ms \<Rightarrow> dec n @ concat (map (\<lambda>m. 0x2e # dec m) ms))"

lemma sec_ok_nat: "n < 256 \<Longrightarrow> sec_ok (of_nat n)"
  by (simp add: sec_ok_def sint_small unat_of_nat)

lemma accepted_dotted:
  "accepted (length ns) 0 (dotted (ns @ [m])) \<longleftrightarrow>
     (\<forall>n\<in>set (ns @ [m]). sec_ok (of_nat n)) \<and> (of_nat m :: u32) \<noteq> 0"
proof (induction ns)
  case Nil
  then show ?case
    using dec_digits [of m] by (auto simp: dotted_def sec_value_dec)
next
  case (Cons n ns)
  have d: "dotted ((n # ns) @ [m]) = dec n @ 0x2e # dotted (ns @ [m])"
    by (cases ns) (simp_all add: dotted_def)
  have split: "dec n @ 0x2e # dotted (ns @ [m]) = ds @ 0x2e # rest \<and> (\<forall>c\<in>set ds. isdigit c)
      \<longleftrightarrow> ds = dec n \<and> rest = dotted (ns @ [m])" for ds rest
  proof
    assume a: "dec n @ 0x2e # dotted (ns @ [m]) = ds @ 0x2e # rest \<and> (\<forall>c\<in>set ds. isdigit c)"
    have "(0x2e :: u8) \<notin> set (dec n)" "(0x2e :: u8) \<notin> set ds"
      using dec_digits [of n] a by (auto dest: bspec)
    then have "takeWhile (\<lambda>c. c \<noteq> 0x2e) (dec n @ 0x2e # dotted (ns @ [m])) = dec n"
      "takeWhile (\<lambda>c. c \<noteq> 0x2e) (ds @ 0x2e # rest) = ds"
      by (subst takeWhile_append2; auto)+
    with a show "ds = dec n \<and> rest = dotted (ns @ [m])" by auto
  qed (use dec_digits in auto)
  have "accepted (Suc (length ns)) 0 (dotted ((n # ns) @ [m])) \<longleftrightarrow>
      sec_ok (sec_value 0 (dec n)) \<and> accepted (length ns) 0 (dotted (ns @ [m]))"
    unfolding d accepted.simps using split by metis
  then show ?case
    using Cons by (auto simp: sec_value_dec)
qed

declare accepted.simps [simp del]

lemma accepted_dotted4:
  "accepted 3 0 (dotted [a, b, c, d]) \<longleftrightarrow>
     (\<forall>n\<in>{a, b, c, d}. sec_ok (of_nat n)) \<and> (of_nat d :: u32) \<noteq> 0"
  using accepted_dotted [of "[a, b, c]" d] by (simp add: numeral_3_eq_3)

lemma strsep_loop_ok:
  assumes "p + k < length buf" and "\<forall>i<k. buf ! (p + i) \<noteq> 0 \<and> buf ! (p + i) \<notin> set delim"
    and "buf ! (p + k) = 0 \<or> buf ! (p + k) \<in> set delim"
  shows "strsep_loop delim buf p = Some (if buf ! (p + k) = 0 then (buf, None)
      else (buf[p + k := 0], Some (p + k + 1)))"
  using assms
proof (induction k arbitrary: p)
  case 0
  then show ?case by (subst strsep_loop.simps) auto
next
  case (Suc k)
  have "strsep_loop delim buf p = strsep_loop delim buf (p + 1)"
    using Suc.prems(1) Suc.prems(2) [rule_format, of 0] by (subst strsep_loop.simps) auto
  also have "\<dots> = Some (if buf ! (p + 1 + k) = 0 then (buf, None)
      else (buf[p + 1 + k := 0], Some (p + 1 + k + 1)))"
  proof (rule Suc.IH)
    show "\<forall>i<k. buf ! (p + 1 + i) \<noteq> 0 \<and> buf ! (p + 1 + i) \<notin> set delim"
      using Suc.prems(2) by (metis Suc_less_eq add.assoc add_Suc_right plus_1_eq_Suc)
  qed (use Suc.prems in simp_all)
  finally show ?case by simp
qed

section \<open>Properties\<close>

text \<open>C15: \<open>is_valid_ip\<close> accepts exactly the strings of four sections of digits separated by dots
  in which every section, read with 32-bit wrap-around, is at most 255 and the last one is not 0
  (so no address ending in .0); in particular it accepts the dotted form of every address but
  those.\<close>

theorem is_valid_ip_exact:
  "is_valid_ip ip = (if accepted 3 0 ip then 0 else -1)
   \<and> (a < 256 \<longrightarrow> b < 256 \<longrightarrow> c < 256 \<longrightarrow> d < 256 \<longrightarrow>
        is_valid_ip (dotted [a, b, c, d]) = (if d = 0 then -1 else 0))"
proof -
  have "(of_nat d :: u32) = 0 \<longleftrightarrow> d = 0" if "d < 256"
    using that by (simp add: word_unat_eq_iff unat_of_nat)
  then show ?thesis
    by (simp add: is_valid_ip_iff accepted_dotted4 sec_ok_nat)
qed

lemma is_valid_ip_exact_witness:
  "is_valid_ip (dotted [192, 168, 1, 7]) = 0 \<and> is_valid_ip (dotted [10, 0, 0, 0]) = -1"
  using is_valid_ip_exact [of "[]" 192 168 1 7] is_valid_ip_exact [of "[]" 10 0 0 0] by simp

text \<open>The section counter is a 32-bit integer without an overflow check: 4294967297.1.1.1 is
  accepted as an address, as is a string with empty sections.\<close>

lemma is_valid_ip_overflow:
  "is_valid_ip (dotted [4294967297, 1, 1, 1]) = 0 \<and> is_valid_ip [0x2e, 0x2e, 0x2e, 0x31] = 0"
proof -
  have "(of_nat 4294967297 :: u32) = 1"
    by (simp add: word_unat_eq_iff unat_of_nat)
  then have "is_valid_ip (dotted [4294967297, 1, 1, 1]) = 0"
    unfolding is_valid_ip_iff accepted_dotted4 by (auto simp: sec_ok_def)
  then show ?thesis by (simp add: is_valid_ip_def isdigit_def)
qed

text \<open>\<open>strsep\<close> inside a NUL-terminated buffer never reads past it; it returns the start of the
  token, ends the token with NUL at the first separator and continues behind it, or, without a
  separator, leaves the buffer and returns the null pointer as the rest.\<close>

lemma strsep_token:
  assumes "p + k < length buf" and "\<forall>i<k. buf ! (p + i) \<noteq> 0 \<and> buf ! (p + i) \<notin> set delim"
    and "buf ! (p + k) = 0 \<or> buf ! (p + k) \<in> set delim"
  shows "strsep delim buf (Some p) = Some (if buf ! (p + k) = 0 then (buf, None, Some p)
      else (buf[p + k := 0], Some (p + k + 1), Some p))"
  using strsep_loop_ok [OF assms] by (simp add: strsep_def)

end
