(* ===== verification/CLib.thy ===== *)
theory CLib
  imports StrLib
begin

text \<open>
  The functions of the C library that the firmware brings itself, in \<^verbatim>\<open>uCOS-II/os_core.c\<close>: \<open>memset\<close>, which fills by
  words, \<open>memcmp\<close>, \<open>strcmp\<close>, \<open>strlen\<close> and \<open>atoi\<close>.  Memory is a list of bytes that starts at the address \<open>base\<close>, pointers
  are offsets into it, \<^term>\<open>None\<close> is the null pointer; a string is the list of the bytes from its pointer on.  An access
  outside, and a word access at an address that is not a multiple of four, is the fault \<^term>\<open>None\<close>.
\<close>

section \<open>The code\<close>

function lead_loop :: "u8 \<Rightarrow> u8 list \<Rightarrow> nat \<Rightarrow> nat \<Rightarrow> nat \<Rightarrow> (u8 list \<times> nat \<times> nat) option" where
  "lead_loop v mem p rem i =
     (if 0 < rem \<and> i < 4 then do { mem \<leftarrow> mem_put mem p [v]; lead_loop v mem (p + 1) (rem - 1) (i + 1) }
      else Some (mem, p, rem))"
  by pat_completeness auto
termination by (relation "measure (\<lambda>(v, mem, p, rem, i). rem)") auto

definition put_word :: "nat \<Rightarrow> u8 list \<Rightarrow> nat \<Rightarrow> u32 \<Rightarrow> u8 list option" where
  "put_word base mem p w = (if (base + p) mod 4 = 0 then mem_put mem p (le32 w) else None)"

function word_loop :: "nat \<Rightarrow> u32 \<Rightarrow> u8 list \<Rightarrow> nat \<Rightarrow> nat \<Rightarrow> (u8 list \<times> nat \<times> nat) option" where
  "word_loop base w mem p rem =
     (if 4 \<le> rem then do { mem \<leftarrow> put_word base mem p w; word_loop base w mem (p + 4) (rem - 4) }
      else Some (mem, p, rem))"
  by pat_completeness auto
termination by (relation "measure (\<lambda>(base, w, mem, p, rem). rem)") auto

fun byte_loop :: "u8 \<Rightarrow> u8 list \<Rightarrow> nat \<Rightarrow> nat \<Rightarrow> u8 list option" where
  "byte_loop v mem p 0 = Some mem"
| "byte_loop v mem p (Suc rem) = do { mem \<leftarrow> mem_put mem p [v]; byte_loop v mem (p + 1) rem }"

declare lead_loop.simps [simp del] word_loop.simps [simp del]

definition data_align :: "u8 \<Rightarrow> u32" where
  "data_align v = ((\<lambda>w. push_bit 8 w OR ucast v) ^^ 4) 0"

definition memset :: "nat \<Rightarrow> u8 list \<Rightarrow> nat option \<Rightarrow> u8 \<Rightarrow> u32 \<Rightarrow> u8 list option" where
  "memset base mem pmem v n =
     (if n < 1 then Some mem
      else case pmem of None \<Rightarrow> Some mem
      | Some p \<Rightarrow> do {
          let mem_align_mod = (base + p) mod 4;
          (mem, p, rem) \<leftarrow> (if mem_align_mod \<noteq> 0 then lead_loop v mem p (unat n) mem_align_mod else Some (mem, p, unat n));
          (mem, p, rem) \<leftarrow> word_loop base (data_align v) mem p rem;
          byte_loop v mem p rem })"

fun memcmp_loop :: "u8 list \<Rightarrow> u8 list \<Rightarrow> nat \<Rightarrow> bool option" where
  "memcmp_loop xs ys 0 = Some False"
| "memcmp_loop (x # xs) (y # ys) (Suc n) = (if x \<noteq> y then Some True else memcmp_loop xs ys n)"
| "memcmp_loop _ _ (Suc n) = None"

definition memcmp :: "u8 list \<Rightarrow> u8 list \<Rightarrow> u32 \<Rightarrow> bool option" where
  "memcmp xs ys n = memcmp_loop xs ys (unat n)"

text \<open>The loop of \<open>Str_Cmp_N\<close>: the two characters it stops at and \<open>cmp_len\<close>.  The pointers to the next characters do not
  become null, since no string lies at the end of the address space.\<close>

fun str_cmp_loop :: "u8 list \<Rightarrow> u8 list \<Rightarrow> nat \<Rightarrow> nat \<Rightarrow> (u8 \<times> u8 \<times> nat) option" where
  "str_cmp_loop (x # xs) (y # ys) cmp_len len_max =
     (if x = y \<and> x \<noteq> 0 \<and> cmp_len < len_max then str_cmp_loop xs ys (cmp_len + 1) len_max else Some (x, y, cmp_len))"
| "str_cmp_loop _ _ cmp_len len_max = None"

definition Str_Cmp_N :: "u8 list option \<Rightarrow> u8 list option \<Rightarrow> u16 \<Rightarrow> int option" where
  "Str_Cmp_N p1 p2 len_max =
     (if len_max < 1 then Some 0
      else case (p1, p2) of
        (None, None) \<Rightarrow> Some 0
      | (None, Some ys) \<Rightarrow> (case ys of [] \<Rightarrow> None | y # _ \<Rightarrow> Some (0 - int (unat y)))
      | (Some xs, None) \<Rightarrow> (case xs of [] \<Rightarrow> None | x # _ \<Rightarrow> Some (int (unat x)))
      | (Some xs, Some ys) \<Rightarrow> do {
          (x, y, cmp_len) \<leftarrow> str_cmp_loop xs ys 0 (unat len_max);
          Some (if cmp_len = unat len_max then 0 else if x \<noteq> y then int (unat x) - int (unat y) else 0) })"

definition strcmp :: "u8 list option \<Rightarrow> u8 list option \<Rightarrow> int option" where
  "strcmp p1 p2 = Str_Cmp_N p1 p2 4095"

fun str_len_loop :: "u8 list \<Rightarrow> nat \<Rightarrow> nat \<Rightarrow> nat option" where
  "str_len_loop [] len len_max = None"
| "str_len_loop (c # cs) len len_max = (if c \<noteq> 0 \<and> len < len_max then str_len_loop cs (len + 1) len_max else Some len)"

definition Str_Len_N :: "u8 list option \<Rightarrow> u32 \<Rightarrow> nat option" where
  "Str_Len_N pstr len_max = (case pstr of None \<Rightarrow> Some 0 | Some s \<Rightarrow> str_len_loop s 0 (unat len_max))"

definition os_strlen :: "u8 list option \<Rightarrow> nat option" where
  "os_strlen pstr = Str_Len_N pstr 4095"

text \<open>\<open>value\<close> is an unsigned 32-bit integer; the string is given without its NUL.\<close>

definition atoi_word :: "u8 list \<Rightarrow> u32" where
  "atoi_word s = foldl (\<lambda>value c. value * 10 + (ucast c - 0x30)) 0 (takeWhile isdigit s)"

definition atoi :: "u8 list \<Rightarrow> int" where
  "atoi s = int (unat (atoi_word s))"

section \<open>Filling memory\<close>

definition filled :: "u8 list \<Rightarrow> nat \<Rightarrow> nat \<Rightarrow> u8 \<Rightarrow> u8 list" where
  "filled mem p n v = take p mem @ replicate n v @ drop (p + n) mem"

lemma filled_simps [simp]: "filled mem p 0 v = mem" "p + n \<le> length mem \<Longrightarrow> length (filled mem p n v) = length mem"
  by (simp_all add: filled_def)

lemma filled_more:
  "p + m + n \<le> length mem \<Longrightarrow> filled (filled mem p m v) (p + m) n v = filled mem p (m + n) v"
  by (auto simp: filled_def replicate_add min_def ac_simps)

lemma put_byte: "p + 1 \<le> length mem \<Longrightarrow> mem_put mem p [v] = Some (filled mem p 1 v)"
  by (simp add: mem_put_def filled_def)

lemma funpow_4: "(f ^^ 4) x = f (f (f (f x)))"
  by (simp add: eval_nat_numeral)

lemma le32_data_align: "le32 (data_align v) = replicate 4 v"
proof -
  have "data_align v = push_bit 24 (ucast v) OR push_bit 16 (ucast v) OR push_bit 8 (ucast v) OR ucast v"
    unfolding data_align_def funpow_4 by (rule bit_word_eqI) (auto simp: bit_simps)
  then have "ucast (data_align v) = v" "ucast (drop_bit 8 (data_align v)) = v"
    "ucast (drop_bit 16 (data_align v)) = v" "ucast (drop_bit 24 (data_align v)) = v"
    by (simp_all only:) (rule bit_word_eqI; auto simp: bit_simps dest: bit_imp_le_length)+
  then show ?thesis by (simp add: le32_def numeral_eq_Suc)
qed

lemma lead_loop_ok:
  "p + rem \<le> length mem \<Longrightarrow> lead_loop v mem p rem i
    = Some (filled mem p (min rem (4 - i)) v, p + min rem (4 - i), rem - min rem (4 - i))"
proof (induction rem arbitrary: mem p i)
  case (Suc rem)
  show ?case
  proof (cases "i < 4")
    case True
    have "lead_loop v mem p (Suc rem) i = lead_loop v (filled mem p 1 v) (p + 1) rem (i + 1)"
      using True Suc.prems by (subst lead_loop.simps) (simp add: put_byte)
    also have "\<dots> = Some (filled (filled mem p 1 v) (p + 1) (min rem (4 - (i + 1))) v,
        p + 1 + min rem (4 - (i + 1)), rem - min rem (4 - (i + 1)))"
      by (rule Suc.IH) (use Suc.prems in simp)
    also have "filled (filled mem p 1 v) (p + 1) (min rem (4 - (i + 1))) v = filled mem p (1 + min rem (4 - (i + 1))) v"
      by (rule filled_more) (use Suc.prems in auto)
    finally have "lead_loop v mem p (Suc rem) i = Some (filled mem p (1 + min rem (4 - (i + 1))) v,
        p + 1 + min rem (4 - (i + 1)), rem - min rem (4 - (i + 1)))" .
    moreover have "1 + min rem (4 - (i + 1)) = min (Suc rem) (4 - i)" "p + 1 + min rem (4 - (i + 1)) = p + min (Suc rem) (4 - i)"
      "rem - min rem (4 - (i + 1)) = Suc rem - min (Suc rem) (4 - i)" using True by auto
    ultimately show ?thesis by simp
  next
    case False
    then show ?thesis by (subst lead_loop.simps) simp
  qed
qed (subst lead_loop.simps, simp)

lemma word_loop_ok:
  "p + rem \<le> length mem \<Longrightarrow> (base + p) mod 4 = 0 \<or> rem < 4 \<Longrightarrow> word_loop base (data_align v) mem p rem
    = Some (filled mem p (4 * (rem div 4)) v, p + 4 * (rem div 4), rem mod 4)"
proof (induction rem arbitrary: mem p rule: less_induct)
  case (less rem)
  show ?case
  proof (cases "4 \<le> rem")
    case True
    have "put_word base mem p (data_align v) = Some (filled mem p 4 v)"
      using True less.prems by (simp add: put_word_def le32_data_align mem_put_def filled_def)
    then have "word_loop base (data_align v) mem p rem = word_loop base (data_align v) (filled mem p 4 v) (p + 4) (rem - 4)"
      using True by (subst word_loop.simps) simp
    also have "\<dots> = Some (filled (filled mem p 4 v) (p + 4) (4 * ((rem - 4) div 4)) v,
        p + 4 + 4 * ((rem - 4) div 4), (rem - 4) mod 4)"
      by (rule less.IH) (use True less.prems in \<open>auto simp flip: add.assoc\<close>)
    also have "filled (filled mem p 4 v) (p + 4) (4 * ((rem - 4) div 4)) v = filled mem p (4 + 4 * ((rem - 4) div 4)) v"
    proof (rule filled_more)
      have "4 * ((rem - 4) div 4) \<le> rem - 4" by simp
      then show "p + 4 + 4 * ((rem - 4) div 4) \<le> length mem" using True less.prems(1) by linarith
    qed
    finally show ?thesis using True by (simp add: le_div_geq le_mod_geq)
  next
    case False
    then show ?thesis by (subst word_loop.simps) simp
  qed
qed

lemma byte_loop_ok: "p + rem \<le> length mem \<Longrightarrow> byte_loop v mem p rem = Some (filled mem p rem v)"
proof (induction rem arbitrary: mem p)
  case (Suc rem)
  then have "byte_loop v mem p (Suc rem) = Some (filled (filled mem p 1 v) (p + 1) rem v)" by (simp add: put_byte)
  also have "filled (filled mem p 1 v) (p + 1) rem v = filled mem p (1 + rem) v"
    by (rule filled_more) (use Suc.prems in simp)
  finally show ?case by simp
qed simp

section \<open>Strings\<close>

text \<open>\<open>atoi\<close> is the number of the digits in front, modulo \<open>2 ^ 32\<close>.\<close>

definition digits_value :: "u8 list \<Rightarrow> nat" where
  "digits_value s = foldl (\<lambda>n c. 10 * n + unat (c - 0x30)) 0 (takeWhile isdigit s)"

lemma digit_word: "isdigit c \<Longrightarrow> (ucast c - 0x30 :: u32) = of_nat (unat (c - 0x30))"
proof -
  assume "isdigit c"
  then have "0x30 \<le> unat c" by (simp add: isdigit_def word_le_nat_alt)
  then have "unat (c - 0x30) = unat c - 0x30" by (simp add: unat_sub_le)
  moreover have "(ucast c :: u32) = of_nat (unat c)" by (rule of_nat_unat [symmetric])
  ultimately show ?thesis using \<open>0x30 \<le> unat c\<close> by (simp add: of_nat_diff)
qed

lemma foldl_digits:
  "\<forall>c\<in>set xs. isdigit c \<Longrightarrow>
    foldl (\<lambda>v c. v * 10 + (ucast c - 0x30)) (of_nat n :: u32) xs = of_nat (foldl (\<lambda>n c. 10 * n + unat (c - 0x30)) n xs)"
proof (induction xs arbitrary: n)
  case (Cons c xs)
  have "(of_nat n :: u32) * 10 + (ucast c - 0x30) = of_nat (10 * n + unat (c - 0x30))"
    using Cons.prems by (simp add: digit_word mult.commute)
  then have "foldl (\<lambda>v c. v * 10 + (ucast c - 0x30)) (of_nat n :: u32) (c # xs)
      = foldl (\<lambda>v c. v * 10 + (ucast c - 0x30)) (of_nat (10 * n + unat (c - 0x30))) xs" by (simp only: foldl_Cons)
  also have "\<dots> = of_nat (foldl (\<lambda>n c. 10 * n + unat (c - 0x30)) (10 * n + unat (c - 0x30)) xs)"
    by (rule Cons.IH) (use Cons.prems in simp)
  finally show ?case by (simp only: foldl_Cons)
qed simp

lemma atoi_digits: "atoi s = int (digits_value s mod 2 ^ 32)"
proof -
  have "\<forall>c\<in>set (takeWhile isdigit s). isdigit c" by (auto dest: set_takeWhileD)
  from foldl_digits [OF this, of 0] have "atoi_word s = of_nat (digits_value s)"
    unfolding atoi_word_def digits_value_def semiring_1_class.of_nat_0 .
  then show ?thesis by (simp add: atoi_def unat_of_nat)
qed

lemma str_len_loop_ok: "0 \<notin> set s \<Longrightarrow> str_len_loop (s @ 0 # r) n m = Some (n + min (length s) (m - n))"
  by (induction s arbitrary: n) auto

text \<open>\<open>strcmp\<close> on strings: the difference of the first characters that differ, the end of a string counting as 0.\<close>

fun first_diff :: "u8 list \<Rightarrow> u8 list \<Rightarrow> int" where
  "first_diff [] [] = 0"
| "first_diff (x # xs) [] = int (unat x)"
| "first_diff [] (y # ys) = - int (unat y)"
| "first_diff (x # xs) (y # ys) = (if x = y then first_diff xs ys else int (unat x) - int (unat y))"

lemma str_cmp_loop_ok:
  assumes "0 \<notin> set s" "0 \<notin> set t" "n < m"
  shows "\<exists>x y k. str_cmp_loop (s @ 0 # r) (t @ 0 # q) n m = Some (x, y, k) \<and> n \<le> k
    \<and> (if k = m then 0 else if x \<noteq> y then int (unat x) - int (unat y) else 0) = first_diff (take (m - n) s) (take (m - n) t)"
  using assms
proof (induction s arbitrary: t n)
  case Nil
  then show ?case by (cases t; cases "m - n") auto
next
  case (Cons a s)
  obtain j where j: "m - n = Suc j" using Cons.prems(3) by (cases "m - n") auto
  show ?case
  proof (cases t)
    case Nil
    then show ?thesis using Cons.prems j by auto
  next
    case t: (Cons b t')
    show ?thesis
    proof (cases "a = b \<and> n + 1 < m")
      case True
      then have "m - Suc n = j" using j by simp
      with Cons.IH [of t' "n + 1"] Cons.prems True t j show ?thesis by fastforce
    next
      case False
      then have "a = b \<Longrightarrow> m = n + 1" using Cons.prems(3) by auto
      then show ?thesis using False Cons.prems t j by (cases s; cases t') auto
    qed
  qed
qed

lemma first_diff_zero: "0 \<notin> set s \<Longrightarrow> 0 \<notin> set t \<Longrightarrow> first_diff s t = 0 \<longleftrightarrow> s = t"
  by (induction s t rule: first_diff.induct) (auto simp: unat_eq_0 simp flip: word_unat_eq_iff)

lemma first_diff_neg:
  "0 \<notin> set s \<Longrightarrow> 0 \<notin> set t \<Longrightarrow> first_diff s t < 0 \<longleftrightarrow> (s, t) \<in> lexord {(a, b). a < b}"
  by (induction s t rule: first_diff.induct) (auto simp: unat_gt_0 word_less_nat_alt)

lemma memcmp_loop_ok: "n \<le> length xs \<Longrightarrow> n \<le> length ys \<Longrightarrow> memcmp_loop xs ys n = Some (take n xs \<noteq> take n ys)"
  by (induction xs ys n rule: memcmp_loop.induct) auto

lemma memcmp_ok: "unat n \<le> length xs \<Longrightarrow> unat n \<le> length ys \<Longrightarrow> memcmp xs ys n = Some (take (unat n) xs \<noteq> take (unat n) ys)"
  by (simp add: memcmp_def memcmp_loop_ok)

lemma os_strlen_ok: "0 \<notin> set s \<Longrightarrow> os_strlen (Some (s @ 0 # r)) = Some (min (length s) 4095)"
  by (simp add: os_strlen_def Str_Len_N_def str_len_loop_ok)

section \<open>Properties\<close>

text \<open>C18: \<open>memset\<close> sets exactly the bytes it is asked to, whatever the alignment and the length, and makes word accesses at
  multiples of four only.\<close>

theorem memset_fills:
  assumes "p + unat n \<le> length mem"
  shows "memset base mem (Some p) v n = Some (take p mem @ replicate (unat n) v @ drop (p + unat n) mem)"
proof (cases "n < 1")
  case True
  then have "unat n = 0" by (simp add: word_less_nat_alt)
  then show ?thesis using True by (simp add: memset_def)
next
  case False
  define l where "l = (if (base + p) mod 4 \<noteq> 0 then min (unat n) (4 - (base + p) mod 4) else 0)"
  define r where "r = unat n - l"
  have n: "l \<le> unat n" "unat n = l + r" "p + l + r \<le> length mem" using assms by (simp_all add: l_def r_def)
  have al: "(base + (p + l)) mod 4 = 0 \<or> r < 4"
  proof (cases "(base + p) mod 4 \<noteq> 0 \<and> 4 - (base + p) mod 4 \<le> unat n")
    case True
    then have "(base + p) mod 4 + l = 4" by (simp add: l_def)
    then have "(base + p + l) mod 4 = 0" by (rule next_block)
    then show ?thesis by (simp add: add.assoc)
  qed (auto simp: l_def r_def)
  have lead: "(if (base + p) mod 4 \<noteq> 0 then lead_loop v mem p (unat n) ((base + p) mod 4) else Some (mem, p, unat n))
      = Some (filled mem p l v, p + l, r)"
    using lead_loop_ok [OF assms, of v "(base + p) mod 4"] by (simp add: l_def r_def)
  let ?w = "4 * (r div 4)"
  have w: "?w + r mod 4 = r" by simp
  have "word_loop base (data_align v) (filled mem p l v) (p + l) r
      = Some (filled (filled mem p l v) (p + l) ?w v, p + l + ?w, r mod 4)"
    by (rule word_loop_ok) (use n al in simp_all)
  also have "filled (filled mem p l v) (p + l) ?w v = filled mem p (l + ?w) v"
    by (rule filled_more) (use n w in linarith)
  finally have word: "word_loop base (data_align v) (filled mem p l v) (p + l) r
      = Some (filled mem p (l + ?w) v, p + (l + ?w), r mod 4)" by (simp only: add.assoc)
  have le: "p + (l + ?w) + r mod 4 \<le> length mem" using n w by linarith
  have "byte_loop v (filled mem p (l + ?w) v) (p + (l + ?w)) (r mod 4)
      = Some (filled (filled mem p (l + ?w) v) (p + (l + ?w)) (r mod 4) v)"
    by (rule byte_loop_ok) (use le in simp)
  also have "filled (filled mem p (l + ?w) v) (p + (l + ?w)) (r mod 4) v = filled mem p (l + ?w + r mod 4) v"
    by (rule filled_more) (rule le)
  also have "l + ?w + r mod 4 = unat n" using n w by linarith
  finally have "byte_loop v (filled mem p (l + ?w) v) (p + (l + ?w)) (r mod 4) = Some (filled mem p (unat n) v)" .
  then show ?thesis using False unfolding memset_def Let_def option.case lead bind.bind_lunit prod.case word
    by (simp add: filled_def)
qed

lemma memset_fills_witness:
  "memset 1 (replicate 12 9) (Some 1) 7 9 = Some ([9] @ replicate 9 7 @ replicate 2 9)"
  using memset_fills [of 1 9 "replicate 12 9" 1 7] by simp

text \<open>C19: \<open>strcmp\<close> orders strings of up to 4095 bytes like a dictionary, bytes unsigned, and is 0 for equal strings only;
  of longer strings it compares the first 4095 bytes.\<close>

theorem strcmp_order:
  assumes "0 \<notin> set s" "0 \<notin> set t"
  shows "\<exists>d. strcmp (Some (s @ 0 # r)) (Some (t @ 0 # q)) = Some d
    \<and> (d = 0 \<longleftrightarrow> take 4095 s = take 4095 t) \<and> (d < 0 \<longleftrightarrow> (take 4095 s, take 4095 t) \<in> lexord {(a, b). a < b})"
proof -
  have "0 \<notin> set (take 4095 s)" "0 \<notin> set (take 4095 t)" using assms by (auto dest: in_set_takeD)
  then show ?thesis
    using str_cmp_loop_ok [OF assms, of 0 4095 r q] first_diff_zero [of "take 4095 s" "take 4095 t"]
      first_diff_neg [of "take 4095 s" "take 4095 t"]
    by (auto simp: strcmp_def Str_Cmp_N_def)
qed

lemma strcmp_order_witness: "\<exists>d. strcmp (Some [0x61, 0x62, 0]) (Some [0x61, 0xe4, 0, 1]) = Some d \<and> d < 0"
  using strcmp_order [of "[0x61, 0x62]" "[0x61, 0xe4]" "[]" "[1]"] by auto

text \<open>Numbers of the command line beyond \<open>2 ^ 32\<close> wrap: port 4294967376 is port 80.\<close>

lemma atoi_wraps: "atoi [0x34, 0x32, 0x39, 0x34, 0x39, 0x36, 0x37, 0x33, 0x37, 0x36] = 80"
  by (simp add: atoi_def atoi_word_def isdigit_def)

end
