(* ===== verification/UtilLib.thy ===== *)
theory UtilLib
  imports Prelude
begin

text \<open>
  The utility functions of the platform layer, \<^verbatim>\<open>Source/Sys/util.c\<close>: the memory move for
  overlapping areas, the two checksums, the conversion of hexadecimal text and the string functions
  that replace those of the C library.  Memory is one list of bytes; pointers are offsets into
  it and an access outside is the fault \<^term>\<open>None\<close>.  A string that is only read is the list of its
  bytes without the terminating NUL.

  The checksums are compared with the polynomial division they stand for, the unrolled
  \<open>strncpy\<close> with its one-line specification.
\<close>

section \<open>Moving memory\<close>

fun move_down :: "u8 list \<Rightarrow> nat \<Rightarrow> nat \<Rightarrow> nat \<Rightarrow> u8 list option" where
  "move_down mem dst src 0 = Some mem"
| "move_down mem dst src (Suc k) = do {
     c \<leftarrow> mem_get mem (src + k) 1;
     mem' \<leftarrow> mem_put mem (dst + k) c;
     move_down mem' dst src k
   }"

fun move_up :: "u8 list \<Rightarrow> nat \<Rightarrow> nat \<Rightarrow> nat \<Rightarrow> u8 list option" where
  "move_up mem dst src 0 = Some mem"
| "move_up mem dst src (Suc k) = do {
     c \<leftarrow> mem_get mem src 1;
     mem' \<leftarrow> mem_put mem dst c;
     move_up mem' (dst + 1) (src + 1) k
   }"

definition NST_MoveMemOvlap :: "u8 list \<Rightarrow> nat \<Rightarrow> nat \<Rightarrow> u16 \<Rightarrow> u8 list option" where
  "NST_MoveMemOvlap mem dst src sz =
     (if dst > src then move_down mem dst src (unat sz) else move_up mem dst src (unat sz))"

lemma mem_get1: "i < length mem \<Longrightarrow> mem_get mem i (Suc 0) = Some [mem ! i]"
  by (simp add: mem_get_def take_Suc_conv_app_nth hd_drop_conv_nth take_Suc)

lemma mem_put1: "i < length mem \<Longrightarrow> mem_put mem i [c] = Some (mem[i := c])"
  by (simp add: mem_put_def upd_conv_take_nth_drop)

text \<open>The area \<open>[dst, dst + n)\<close> replaced by the old contents of \<open>[src, src + n)\<close>.\<close>

definition moved :: "u8 list \<Rightarrow> nat \<Rightarrow> nat \<Rightarrow> nat \<Rightarrow> u8 list" where
  "moved mem dst src n =
     map (\<lambda>i. if dst \<le> i \<and> i < dst + n then mem ! (i - dst + src) else mem ! i) [0..<length mem]"

lemma length_moved [simp]: "length (moved mem dst src n) = length mem"
  by (simp add: moved_def)

lemma nth_moved: "i < length mem \<Longrightarrow>
  moved mem dst src n ! i = (if dst \<le> i \<and> i < dst + n then mem ! (i - dst + src) else mem ! i)"
  by (simp add: moved_def)

lemma moved_0 [simp]: "moved mem dst src 0 = mem"
  by (rule nth_equalityI) (auto simp: nth_moved)

lemma move_down_ok:
  "src < dst \<Longrightarrow> dst + n \<le> length mem \<Longrightarrow> move_down mem dst src n = Some (moved mem dst src n)"
proof (induction n arbitrary: mem)
  case 0
  then show ?case by simp
next
  case (Suc n)
  let ?mem = "mem[dst + n := mem ! (src + n)]"
  have "move_down mem dst src (Suc n) = Some (moved ?mem dst src n)"
    using Suc by (simp add: mem_get1 mem_put1)
  also have "moved ?mem dst src n = moved mem dst src (Suc n)"
  proof (rule nth_equalityI)
    fix i assume "i < length (moved ?mem dst src n)"
    then show "moved ?mem dst src n ! i = moved mem dst src (Suc n) ! i"
      using Suc.prems by (auto simp: nth_moved nth_list_update less_Suc_eq add.commute)
  qed simp
  finally show ?case .
qed

lemma move_up_ok:
  "dst \<le> src \<Longrightarrow> src + n \<le> length mem \<Longrightarrow> move_up mem dst src n = Some (moved mem dst src n)"
proof (induction n arbitrary: mem dst src)
  case 0
  then show ?case by simp
next
  case (Suc n)
  let ?mem = "mem[dst := mem ! src]"
  have "move_up mem dst src (Suc n) = Some (moved ?mem (dst + 1) (src + 1) n)"
    using Suc by (simp add: mem_get1 mem_put1)
  also have "moved ?mem (dst + 1) (src + 1) n = moved mem dst src (Suc n)"
  proof (rule nth_equalityI)
    fix i assume "i < length (moved ?mem (dst + 1) (src + 1) n)"
    then show "moved ?mem (dst + 1) (src + 1) n ! i = moved mem dst src (Suc n) ! i"
      using Suc.prems
      by (cases "i = dst") (auto simp: nth_moved nth_list_update Suc_diff_Suc)
  qed simp
  finally show ?case .
qed

lemma move_ok:
  "src + unat sz \<le> length mem \<Longrightarrow> dst + unat sz \<le> length mem \<Longrightarrow>
     NST_MoveMemOvlap mem dst src sz = Some (moved mem dst src (unat sz))"
  by (auto simp: NST_MoveMemOvlap_def move_down_ok move_up_ok)

section \<open>The 8-bit checksum\<close>

definition crc8_tbl :: "u8 list" where
  "crc8_tbl = [
     0x00, 0x91, 0xe3, 0x72, 0x07, 0x96, 0xe4, 0x75,
     0x0e, 0x9f, 0xed, 0x7c, 0x09, 0x98, 0xea, 0x7b,
     0x1c, 0x8d, 0xff, 0x6e, 0x1b, 0x8a, 0xf8, 0x69,
     0x12, 0x83, 0xf1, 0x60, 0x15, 0x84, 0xf6, 0x67,
     0x38, 0xa9, 0xdb, 0x4a, 0x3f, 0xae, 0xdc, 0x4d,
     0x36, 0xa7, 0xd5, 0x44, 0x31, 0xa0, 0xd2, 0x43,
     0x24, 0xb5, 0xc7, 0x56, 0x23, 0xb2, 0xc0, 0x51,
     0x2a, 0xbb, 0xc9, 0x58, 0x2d, 0xbc, 0xce, 0x5f,
     0x70, 0xe1, 0x93, 0x02, 0x77, 0xe6, 0x94, 0x05,
     0x7e, 0xef, 0x9d, 0x0c, 0x79, 0xe8, 0x9a, 0x0b,
     0x6c, 0xfd, 0x8f, 0x1e, 0x6b, 0xfa, 0x88, 0x19,
     0x62, 0xf3, 0x81, 0x10, 0x65, 0xf4, 0x86, 0x17,
     0x48, 0xd9, 0xab, 0x3a, 0x4f, 0xde, 0xac, 0x3d,
     0x46, 0xd7, 0xa5, 0x34, 0x41, 0xd0, 0xa2, 0x33,
     0x54, 0xc5, 0xb7, 0x26, 0x53, 0xc2, 0xb0, 0x21,
     0x5a, 0xcb, 0xb9, 0x28, 0x5d, 0xcc, 0xbe, 0x2f,
     0xe0, 0x71, 0x03, 0x92, 0xe7, 0x76, 0x04, 0x95,
     0xee, 0x7f, 0x0d, 0x9c, 0xe9, 0x78, 0x0a, 0x9b,
     0xfc, 0x6d, 0x1f, 0x8e, 0xfb, 0x6a, 0x18, 0x89,
     0xf2, 0x63, 0x11, 0x80, 0xf5, 0x64, 0x16, 0x87,
     0xd8, 0x49, 0x3b, 0xaa, 0xdf, 0x4e, 0x3c, 0xad,
     0xd6, 0x47, 0x35, 0xa4, 0xd1, 0x40, 0x32, 0xa3,
     0xc4, 0x55, 0x27, 0xb6, 0xc3, 0x52, 0x20, 0xb1,
     0xca, 0x5b, 0x29, 0xb8, 0xcd, 0x5c, 0x2e, 0xbf,
     0x90, 0x01, 0x73, 0xe2, 0x97, 0x06, 0x74, 0xe5,
     0x9e, 0x0f, 0x7d, 0xec, 0x99, 0x08, 0x7a, 0xeb,
     0x8c, 0x1d, 0x6f, 0xfe, 0x8b, 0x1a, 0x68, 0xf9,
     0x82, 0x13, 0x61, 0xf0, 0x85, 0x14, 0x66, 0xf7,
     0xa8, 0x39, 0x4b, 0xda, 0xaf, 0x3e, 0x4c, 0xdd,
     0xa6, 0x37, 0x45, 0xd4, 0xa1, 0x30, 0x42, 0xd3,
     0xb4, 0x25, 0x57, 0xc6, 0xb3, 0x22, 0x50, 0xc1,
     0xba, 0x2b, 0x59, 0xc8, 0xbd, 0x2c, 0x5e, 0xcf]"

fun NST_GetCrc8_loop :: "u8 list \<Rightarrow> u8 \<Rightarrow> u8" where
  "NST_GetCrc8_loop [] crc8 = crc8"
| "NST_GetCrc8_loop (d # ds) crc8 = NST_GetCrc8_loop ds (crc8_tbl ! unat (crc8 XOR d))"

definition NST_GetCrc8 :: "u8 list \<Rightarrow> u8" where
  "NST_GetCrc8 data = NST_GetCrc8_loop data 0"

text \<open>The reference: division by \<open>x^8 + x^2 + x + 1\<close>, least significant bit first.\<close>

definition crc8_bit :: "u8 \<Rightarrow> u8" where
  "crc8_bit c = (if bit c 0 then drop_bit 1 c XOR 0xe0 else drop_bit 1 c)"

definition crc8_byte :: "u8 \<Rightarrow> u8" where
  "crc8_byte c = crc8_bit (crc8_bit (crc8_bit (crc8_bit
     (crc8_bit (crc8_bit (crc8_bit (crc8_bit c)))))))"

definition crc8_spec :: "u8 list \<Rightarrow> u8" where
  "crc8_spec = foldl (\<lambda>c d. crc8_byte (c XOR d)) 0"

text \<open>Both sides are linear, so the table is determined by its entries at the powers of two.\<close>

lemma crc8_bit_linear: "crc8_bit (a XOR b) = crc8_bit a XOR crc8_bit b"
  by (rule bit_word_eqI) (auto simp: crc8_bit_def bit_simps)

lemma crc8_byte_linear: "crc8_byte (a XOR b) = crc8_byte a XOR crc8_byte b"
  by (simp add: crc8_byte_def crc8_bit_linear)

lemma crc8_powers:
  "crc8_byte 1 = 0x91" "crc8_byte 2 = 0xe3" "crc8_byte 4 = 0x07" "crc8_byte 8 = 0x0e"
  "crc8_byte 16 = 0x1c" "crc8_byte 32 = 0x38" "crc8_byte 64 = 0x70" "crc8_byte 128 = 0xe0"
  by (simp_all add: crc8_byte_def crc8_bit_def)

lemma crc8_halves:
  "k \<in> {0, 1, 2, 3, 4, 5, 6, 7} \<Longrightarrow>
     map (\<lambda>x. x XOR crc8_tbl ! (2 ^ k)) (take (2 ^ k) crc8_tbl) = take (2 ^ k) (drop (2 ^ k) crc8_tbl)
     \<and> crc8_tbl ! (2 ^ k) = crc8_byte (2 ^ k)"
  by (auto simp: crc8_tbl_def crc8_powers)

lemma crc8_table:
  "k \<le> 8 \<Longrightarrow> n < 2 ^ k \<Longrightarrow> crc8_tbl ! n = crc8_byte (of_nat n)"
proof (induction k arbitrary: n)
  case 0
  then show ?case by (simp add: crc8_tbl_def crc8_byte_def crc8_bit_def)
next
  case (Suc k)
  show ?case
  proof (cases "n < 2 ^ k")
    case True
    with Suc show ?thesis by simp
  next
    case False
    define m where "m = n - 2 ^ k"
    have m: "n = 2 ^ k + m" "m < 2 ^ k" using False Suc.prems by (simp_all add: m_def)
    have k: "k \<in> {0, 1, 2, 3, 4, 5, 6, 7}" using Suc.prems(1) by auto
    have "(2 :: nat) ^ k * 2 \<le> 2 ^ 7 * 2"
      by (rule mult_le_mono1, rule power_increasing) (use Suc.prems(1) in auto)
    then have len: "2 ^ k + m < length crc8_tbl" using m by (simp add: crc8_tbl_def)
    have "crc8_tbl ! n = take (2 ^ k) (drop (2 ^ k) crc8_tbl) ! m"
      using m len by simp
    also have "\<dots> = crc8_tbl ! m XOR crc8_byte (2 ^ k)"
      using crc8_halves [OF k, THEN conjunct1, symmetric] crc8_halves [OF k, THEN conjunct2] m len
      by simp
    also have "\<dots> = crc8_byte (of_nat m XOR 2 ^ k)"
      using Suc m by (simp add: crc8_byte_linear)
    also have "(of_nat m :: u8) XOR 2 ^ k = of_nat m + 2 ^ k"
    proof (rule disjunctive_add_eq_xor [symmetric])
      have "\<not> bit m k" using m(2) by (simp add: bit_iff_odd)
      then show "(of_nat m :: u8) AND 2 ^ k = 0"
        by (simp add: and_exp_eq_0_iff_not_bit bit_simps)
    qed
    finally show ?thesis by (simp add: m(1) add.commute)
  qed
qed

lemma crc8_lookup: "crc8_tbl ! unat c = crc8_byte c"
proof -
  have "unat c < 2 ^ 8" using unsigned_less [of c, where ?'a = nat] by simp
  moreover have "(of_nat (unat c) :: u8) = c" by (metis of_nat_unat ucast_id)
  ultimately show ?thesis using crc8_table [of 8 "unat c"] by simp
qed

lemma crc8_loop_spec: "NST_GetCrc8_loop data c = foldl (\<lambda>c d. crc8_byte (c XOR d)) c data"
  by (induction data arbitrary: c) (simp_all add: crc8_lookup)

section \<open>The 32-bit checksum\<close>

text \<open>\<open>_cal_crc32\<close> computes the 32 output bits from the bits of the register and of the byte.
  \<open>i\<close> stands for \<open>in_data_buf\<close>, \<open>c\<close> for \<open>crc_buf\<close>.\<close>

definition parity :: "bool list \<Rightarrow> bool" where
  "parity bs = foldr (\<noteq>) bs False"

definition crc32_out :: "(nat \<Rightarrow> bool) \<Rightarrow> (nat \<Rightarrow> bool) \<Rightarrow> bool list" where
  "crc32_out i c = [
     parity [i 1, i 7, c 30, c 24],
     parity [i 0, i 1, i 6, i 7, c 31, c 30, c 25, c 24],
     parity [i 0, i 1, i 5, i 6, i 7, c 31, c 30, c 26, c 25, c 24],
     parity [i 0, i 4, i 5, i 6, c 31, c 27, c 26, c 25],
     parity [i 1, i 3, i 4, i 5, i 7, c 30, c 28, c 27, c 26, c 24],
     parity [i 0, i 1, i 2, i 3, i 4, i 6, i 7, c 31, c 30, c 29, c 28, c 27, c 25, c 24],
     parity [i 0, i 1, i 2, i 3, i 5, i 6, c 31, c 30, c 29, c 28, c 26, c 25],
     parity [i 0, i 2, i 4, i 5, i 7, c 31, c 29, c 27, c 26, c 24],
     parity [i 3, i 4, i 6, i 7, c 28, c 27, c 25, c 24, c 0],
     parity [i 2, i 3, i 5, i 6, c 29, c 28, c 26, c 25, c 1],
     parity [i 2, i 4, i 5, i 7, c 29, c 27, c 26, c 24, c 2],
     parity [i 3, i 4, i 6, i 7, c 28, c 27, c 25, c 24, c 3],
     parity [i 1, i 2, i 3, i 5, i 6, i 7, c 30, c 29, c 28, c 26, c 25, c 24, c 4],
     parity [i 0, i 1, i 2, i 4, i 5, i 6, c 31, c 30, c 29, c 27, c 26, c 25, c 5],
     parity [i 0, i 1, i 3, i 4, i 5, c 31, c 30, c 28, c 27, c 26, c 6],
     parity [i 0, i 2, i 3, i 4, c 31, c 29, c 28, c 27, c 7],
     parity [i 2, i 3, i 7, c 29, c 28, c 24, c 8],
     parity [i 1, i 2, i 6, c 30, c 29, c 25, c 9],
     parity [i 0, i 1, i 5, c 31, c 30, c 26, c 10],
     parity [i 0, i 4, c 31, c 27, c 11],
     parity [i 3, c 28, c 12],
     parity [i 2, c 29, c 13],
     parity [i 7, c 24, c 14],
     parity [i 1, i 6, i 7, c 30, c 25, c 24, c 15],
     parity [i 0, i 5, i 6, c 31, c 26, c 25, c 16],
     parity [i 4, i 5, c 27, c 26, c 17],
     parity [i 1, i 3, i 4, i 7, c 30, c 28, c 27, c 24, c 18],
     parity [i 0, i 2, i 3, i 6, c 31, c 29, c 28, c 25, c 19],
     parity [i 1, i 2, i 5, c 30, c 29, c 26, c 20],
     parity [i 0, i 1, i 4, c 31, c 30, c 27, c 21],
     parity [i 0, i 3, c 31, c 28, c 22],
     parity [i 2, c 23, c 29]]"

definition cal_crc32 :: "u32 \<Rightarrow> u8 \<Rightarrow> u32" where
  "cal_crc32 crc data_8 = horner_sum of_bool 2 (crc32_out (bit data_8) (bit crc))"

fun NST_GetCrc32_loop :: "u8 list \<Rightarrow> u32 \<Rightarrow> u32" where
  "NST_GetCrc32_loop [] crc = crc"
| "NST_GetCrc32_loop (d # ds) crc = NST_GetCrc32_loop ds (cal_crc32 crc d)"

text \<open>The bits in reverse order, then the complement.\<close>

definition reflect32 :: "u32 \<Rightarrow> u32" where
  "reflect32 w = horner_sum of_bool 2 (map (\<lambda>i. bit w (31 - i)) [0..<32])"

definition NST_GetCrc32 :: "u8 list \<Rightarrow> u32" where
  "NST_GetCrc32 data = NOT (reflect32 (NST_GetCrc32_loop data 0xffffffff))"

text \<open>The reference is the CRC-32 of IEEE 802.3 in its reflected form, one bit at a time with the
  polynomial \<open>0xedb88320\<close>.\<close>

definition crc32_bit :: "u32 \<Rightarrow> u32" where
  "crc32_bit c = (if bit c 0 then drop_bit 1 c XOR 0xedb88320 else drop_bit 1 c)"

definition crc32_byte :: "u32 \<Rightarrow> u8 \<Rightarrow> u32" where
  "crc32_byte c d = (crc32_bit ^^ 8) (c XOR ucast d)"

definition crc32_spec :: "u8 list \<Rightarrow> u32" where
  "crc32_spec data = NOT (foldl crc32_byte 0xffffffff data)"

lemma bit_horner: "bit (horner_sum of_bool 2 bs :: u32) n \<longleftrightarrow> n < 32 \<and> n < length bs \<and> bs ! n"
  by (auto simp: bit_horner_sum_bit_word_iff)

lemma bit_reflect32: "bit (reflect32 w) n \<longleftrightarrow> n < 32 \<and> bit w (31 - n)"
  by (auto simp: reflect32_def bit_horner)

lemma reflect32_involution [simp]: "reflect32 (reflect32 w) = w"
  by (rule bit_word_eqI) (auto simp: bit_reflect32)

text \<open>Two functions on words that are linear over exclusive or agree as soon as they agree on the
  powers of two.\<close>

lemma linear_0:
  fixes f :: "'a::len word \<Rightarrow> 'b::len word"
  assumes "\<And>a b. f (a XOR b) = f a XOR f b"
  shows "f 0 = 0"
  using assms [of 0 0] by simp

lemma take_bit_Suc_xor:
  fixes w :: "'a::len word"
  shows "take_bit (Suc k) w = take_bit k w XOR (if bit w k then 2 ^ k else 0)"
  by (rule bit_word_eqI) (auto simp: bit_simps less_Suc_eq)

lemma linear_ext:
  fixes f g :: "'a::len word \<Rightarrow> 'b::len word"
  assumes f: "\<And>a b. f (a XOR b) = f a XOR f b" and g: "\<And>a b. g (a XOR b) = g a XOR g b"
    and eq: "\<And>k. k < LENGTH('a) \<Longrightarrow> f (2 ^ k) = g (2 ^ k)"
  shows "f w = g w"
proof -
  have 0: "f 0 = 0" "g 0 = 0" by (rule linear_0, fact)+
  have "k \<le> LENGTH('a) \<Longrightarrow> f (take_bit k w) = g (take_bit k w)" for k
  proof (induction k)
    case (Suc k)
    then show ?case by (simp add: take_bit_Suc_xor f g eq 0)
  qed (simp add: 0)
  from this [of "LENGTH('a)"] show ?thesis by simp
qed

lemma parity_Nil: "parity [] \<longleftrightarrow> (parity [] \<noteq> parity [])"
  by (simp add: parity_def)

lemma parity_Cons: "parity bs = (parity xs \<noteq> parity ys) \<Longrightarrow>
    parity ((x \<noteq> y) # bs) = (parity (x # xs) \<noteq> parity (y # ys))"
  by (auto simp: parity_def)

lemma crc32_out_linear:
  "crc32_out (\<lambda>j. i j \<noteq> i' j) (\<lambda>j. c j \<noteq> c' j) = map2 (\<noteq>) (crc32_out i c) (crc32_out i' c')"
  unfolding crc32_out_def zip_Cons_Cons zip_Nil list.map prod.case list.inject
  by (intro conjI refl; (rule parity_Cons)+; rule parity_Nil)

lemma length_crc32_out [simp]: "length (crc32_out i c) = 32"
  by (simp add: crc32_out_def)

lemma horner_xor:
  "length bs = length cs \<Longrightarrow>
     (horner_sum of_bool 2 (map2 (\<noteq>) bs cs) :: u32) = horner_sum of_bool 2 bs XOR horner_sum of_bool 2 cs"
  by (rule bit_word_eqI) (auto simp: bit_horner bit_simps)

lemma cal_crc32_linear: "cal_crc32 (a XOR b) (d XOR e) = cal_crc32 a d XOR cal_crc32 b e"
proof -
  have bits: "bit (a XOR b) = (\<lambda>j. bit a j \<noteq> bit b j)" "bit (d XOR e) = (\<lambda>j. bit d j \<noteq> bit e j)"
    by (simp_all add: fun_eq_iff bit_simps)
  show ?thesis unfolding cal_crc32_def bits crc32_out_linear by (rule horner_xor) simp
qed

lemma reflect32_linear: "reflect32 (a XOR b) = reflect32 a XOR reflect32 b"
  by (rule bit_word_eqI) (auto simp: bit_reflect32 bit_simps)

lemma crc32_bit_linear: "crc32_bit (a XOR b) = crc32_bit a XOR crc32_bit b"
  by (rule bit_word_eqI) (auto simp: crc32_bit_def bit_simps)

lemma crc32_byte_linear: "crc32_byte (a XOR b) (d XOR e) = crc32_byte a d XOR crc32_byte b e"
proof -
  have "(a XOR b) XOR ucast (d XOR e) = (a XOR ucast d) XOR (b XOR ucast e)"
    by (rule bit_word_eqI) (auto simp: bit_simps)
  then show ?thesis
    by (simp add: crc32_byte_def crc32_bit_linear eval_nat_numeral)
qed

lemma reflect32_horner:
  "length bs = 32 \<Longrightarrow> reflect32 (horner_sum of_bool 2 bs) = horner_sum of_bool 2 (rev bs)"
  by (rule bit_word_eqI) (auto simp: bit_reflect32 bit_horner rev_nth)

lemma reflect32_cal: "reflect32 (cal_crc32 c d) = horner_sum of_bool 2 (rev (crc32_out (bit d) (bit c)))"
  by (simp add: cal_crc32_def reflect32_horner)

lemma reflect32_exp: "k < 32 \<Longrightarrow> reflect32 (2 ^ k) = 2 ^ (31 - k)"
  by (rule bit_word_eqI) (auto simp: bit_reflect32 bit_simps)

lemma crc32_byte_unfold: "crc32_byte c d =
    crc32_bit (crc32_bit (crc32_bit (crc32_bit (crc32_bit (crc32_bit (crc32_bit (crc32_bit
      (c XOR ucast d))))))))"
  by (simp add: crc32_byte_def eval_nat_numeral)

lemmas crc32_eval =
  reflect32_cal crc32_out_def parity_def crc32_byte_unfold crc32_bit_def

lemma crc32_crc_powers: "k < 32 \<Longrightarrow> reflect32 (cal_crc32 (2 ^ k) 0) = crc32_byte (2 ^ (31 - k)) 0"
proof -
  assume "k < 32"
  moreover have "set [0..<32] = {0, 1, 2, 3, 4, 5, 6, 7, 8, 9, 10, 11, 12, 13, 14, 15, 16, 17, 18, 19, 20, 21, 22,
      23, 24, 25, 26, 27, 28, 29, 30, 31}"
    by code_simp
  ultimately have "k \<in> {0, 1, 2, 3, 4, 5, 6, 7, 8, 9, 10, 11, 12, 13, 14, 15, 16, 17, 18, 19, 20, 21, 22,
      23, 24, 25, 26, 27, 28, 29, 30, 31}"
    by (metis atLeastLessThan_iff set_upt zero_le)
  then show ?thesis
    by (elim insertE emptyE) (simp_all add: crc32_eval)
qed

lemma crc32_data_powers: "k < 8 \<Longrightarrow> reflect32 (cal_crc32 0 (2 ^ k)) = crc32_byte 0 (2 ^ k)"
proof -
  assume "k < 8"
  then have "k \<in> {0, 1, 2, 3, 4, 5, 6, 7}" by auto
  then show ?thesis
    by (elim insertE emptyE) (simp_all add: crc32_eval)
qed

lemma crc32_basis_crc: "k < 32 \<Longrightarrow> cal_crc32 (2 ^ k) 0 = reflect32 (crc32_byte (reflect32 (2 ^ k)) 0)"
  by (metis crc32_crc_powers reflect32_exp reflect32_involution)

lemma crc32_basis_data: "k < 8 \<Longrightarrow> cal_crc32 0 (2 ^ k) = reflect32 (crc32_byte (reflect32 0) (2 ^ k))"
  by (metis crc32_data_powers linear_0 reflect32_linear reflect32_involution)

lemma cal_crc32_spec: "cal_crc32 c d = reflect32 (crc32_byte (reflect32 c) d)"
proof -
  let ?g = "\<lambda>c d. reflect32 (crc32_byte (reflect32 c) d)"
  have g: "?g (a XOR b) (d XOR e) = ?g a d XOR ?g b e" for a b d e
    by (simp add: reflect32_linear crc32_byte_linear)
  have "cal_crc32 c 0 = ?g c 0"
    by (rule linear_ext [where f = "\<lambda>c. cal_crc32 c 0" and g = "\<lambda>c. ?g c 0"])
       (use cal_crc32_linear [of _ _ 0 0] g [of _ _ 0 0] crc32_basis_crc in simp_all)
  moreover have "cal_crc32 0 d = ?g 0 d"
    by (rule linear_ext [where f = "\<lambda>d. cal_crc32 0 d" and g = "\<lambda>d. ?g 0 d"])
       (use cal_crc32_linear [of 0 0] g [of 0 0] crc32_basis_data in simp_all)
  ultimately show ?thesis
    using cal_crc32_linear [of c 0 0 d] g [of c 0 0 d] by simp
qed

lemma crc32_loop_spec: "reflect32 (NST_GetCrc32_loop data c) = foldl crc32_byte (reflect32 c) data"
  by (induction data arbitrary: c) (simp_all add: cal_crc32_spec)
lemma reflect32_ones: "reflect32 0xffffffff = 0xffffffff" by code_simp

section \<open>Strings in memory\<close>

definition rd :: "u8 list \<Rightarrow> nat \<Rightarrow> u8 option" where
  "rd mem i = (if i < length mem then Some (mem ! i) else None)"

definition wr :: "u8 list \<Rightarrow> nat \<Rightarrow> u8 \<Rightarrow> u8 list option" where
  "wr mem i c = (if i < length mem then Some (mem[i := c]) else None)"

function strcpy_loop :: "u8 list \<Rightarrow> nat \<Rightarrow> nat \<Rightarrow> u8 list option" where
  "strcpy_loop mem dst src =
     (if src < length mem then
        do { mem' \<leftarrow> wr mem dst (mem ! src);
             if mem ! src = 0 then Some mem' else strcpy_loop mem' (dst + 1) (src + 1) }
      else None)"
  by pat_completeness auto
termination
  by (relation "measure (\<lambda>(mem, dst, src). length mem - src)") (auto simp: wr_def split: if_splits)

declare strcpy_loop.simps [simp del]

definition strcpy :: "u8 list \<Rightarrow> nat \<Rightarrow> nat \<Rightarrow> u8 list option" where
  "strcpy mem dest src = strcpy_loop mem dest src"

function strend :: "u8 list \<Rightarrow> nat \<Rightarrow> nat option" where
  "strend mem s1 = (if s1 < length mem then (if mem ! s1 = 0 then Some s1 else strend mem (s1 + 1)) else None)"
  by pat_completeness auto
termination
  by (relation "measure (\<lambda>(mem, s1). length mem - s1)") auto

declare strend.simps [simp del]

definition strcat :: "u8 list \<Rightarrow> nat \<Rightarrow> nat \<Rightarrow> u8 list option" where
  "strcat mem dest src = do { s1 \<leftarrow> strend mem dest; strcpy_loop mem s1 src }"

text \<open>\<open>strncpy\<close>: \<open>s1\<close> is the next place to write, one behind the pointer of the C code.  The
  unrolled loop tells whether it stopped at the NUL.\<close>

definition copy1 :: "u8 list \<Rightarrow> nat \<Rightarrow> nat \<Rightarrow> (u8 \<times> u8 list) option" where
  "copy1 mem s1 s2 = do { c \<leftarrow> rd mem s2; mem' \<leftarrow> wr mem s1 c; Some (c, mem') }"

fun strncpy_unrolled :: "u8 list \<Rightarrow> nat \<Rightarrow> nat \<Rightarrow> nat \<Rightarrow> (u8 list \<times> nat \<times> nat \<times> bool) option" where
  "strncpy_unrolled mem s1 s2 0 = Some (mem, s1, s2, False)"
| "strncpy_unrolled mem s1 s2 (Suc n4) = do {
     (c, mem) \<leftarrow> copy1 mem s1 s2;
     if c = 0 then Some (mem, s1 + 1, s2 + 1, True) else do {
     (c, mem) \<leftarrow> copy1 mem (s1 + 1) (s2 + 1);
     if c = 0 then Some (mem, s1 + 2, s2 + 2, True) else do {
     (c, mem) \<leftarrow> copy1 mem (s1 + 2) (s2 + 2);
     if c = 0 then Some (mem, s1 + 3, s2 + 3, True) else do {
     (c, mem) \<leftarrow> copy1 mem (s1 + 3) (s2 + 3);
     if c = 0 then Some (mem, s1 + 4, s2 + 4, True) else
     if n4 = 0 then Some (mem, s1 + 4, s2 + 4, False) else
     strncpy_unrolled mem (s1 + 4) (s2 + 4) n4 }}}}"

fun zero_fill :: "u8 list \<Rightarrow> nat \<Rightarrow> nat \<Rightarrow> u8 list option" where
  "zero_fill mem s1 0 = Some mem"
| "zero_fill mem s1 (Suc n) = do { mem' \<leftarrow> wr mem s1 0; zero_fill mem' (s1 + 1) n }"

fun last_chars :: "u8 list \<Rightarrow> nat \<Rightarrow> nat \<Rightarrow> nat \<Rightarrow> u8 list option" where
  "last_chars mem s1 s2 0 = Some mem"
| "last_chars mem s1 s2 (Suc n) = do {
     (c, mem') \<leftarrow> copy1 mem s1 s2;
     if n = 0 then Some mem'
     else if c \<noteq> 0 then last_chars mem' (s1 + 1) (s2 + 1) n
     else zero_fill mem' (s1 + 1) n }"

definition strncpy :: "u8 list \<Rightarrow> nat \<Rightarrow> nat \<Rightarrow> u32 \<Rightarrow> u8 list option" where
  "strncpy mem s1 s2 n =
     (if 4 \<le> n then do {
        (mem', p1, p2, nul) \<leftarrow> strncpy_unrolled mem s1 s2 (unat (drop_bit 2 n));
        if nul then zero_fill mem' p1 (unat n - (p1 - s1))
        else last_chars mem' p1 p2 (unat (n AND 3)) }
      else last_chars mem s1 s2 (unat (n AND 3)))"

text \<open>The reference: one loop over \<open>n\<close>.\<close>

fun ncpy :: "u8 list \<Rightarrow> nat \<Rightarrow> nat \<Rightarrow> nat \<Rightarrow> u8 list option" where
  "ncpy mem d s 0 = Some mem"
| "ncpy mem d s (Suc n) = do {
     (c, mem') \<leftarrow> copy1 mem d s;
     if c = 0 then zero_fill mem' (d + 1) n else ncpy mem' (d + 1) (s + 1) n }"

lemma last_chars_ncpy: "last_chars mem d s n = ncpy mem d s n"
proof (induction n arbitrary: mem d s)
  case (Suc n)
  then show ?case by (cases n) (auto split: bind_split)
qed simp

text \<open>Four steps of the loop, with what follows on a NUL after \<open>j\<close> steps and what follows otherwise.\<close>

definition four_steps ::
  "u8 list \<Rightarrow> nat \<Rightarrow> nat \<Rightarrow> (u8 list \<Rightarrow> nat \<Rightarrow> 'a option) \<Rightarrow> (u8 list \<Rightarrow> 'a option) \<Rightarrow> 'a option" where
  "four_steps mem d s z k =
     (case copy1 mem d s of None \<Rightarrow> None | Some (c, mem) \<Rightarrow> if c = 0 then z mem 1 else
     (case copy1 mem (d + 1) (s + 1) of None \<Rightarrow> None | Some (c, mem) \<Rightarrow> if c = 0 then z mem 2 else
     (case copy1 mem (d + 2) (s + 2) of None \<Rightarrow> None | Some (c, mem) \<Rightarrow> if c = 0 then z mem 3 else
     (case copy1 mem (d + 3) (s + 3) of None \<Rightarrow> None | Some (c, mem) \<Rightarrow> if c = 0 then z mem 4 else
      k mem))))"

lemma four_steps_cong:
  "(\<And>m j. 0 < j \<Longrightarrow> j \<le> 4 \<Longrightarrow> z m j = z' m j) \<Longrightarrow> (\<And>m. k m = k' m) \<Longrightarrow>
     four_steps mem d s z k = four_steps mem d s z' k'"
  unfolding four_steps_def by (simp split: option.split)

lemma ncpy_four:
  "ncpy mem d s (Suc (Suc (Suc (Suc m)))) =
     four_steps mem d s (\<lambda>mem j. zero_fill mem (d + j) (4 - j + m)) (\<lambda>mem. ncpy mem (d + 4) (s + 4) m)"
  by (simp add: four_steps_def eval_nat_numeral split: option.split prod.split)

lemma unrolled_four:
  "(case strncpy_unrolled mem d s (Suc n4) of None \<Rightarrow> None | Some r \<Rightarrow> f r) =
     four_steps mem d s (\<lambda>mem j. f (mem, d + j, s + j, True))
       (\<lambda>mem. if n4 = 0 then f (mem, d + 4, s + 4, False)
              else case strncpy_unrolled mem (d + 4) (s + 4) n4 of None \<Rightarrow> None | Some r \<Rightarrow> f r)"
  by (simp add: four_steps_def split: option.split prod.split)

lemma unrolled_ge: "strncpy_unrolled mem d s n4 = Some (m, p1, p2, nul) \<Longrightarrow> d \<le> p1"
proof (induction n4 arbitrary: mem d s)
  case (Suc k)
  then show ?case
    by (auto split: Option.bind_splits if_splits dest!: Suc.IH)
qed simp

lemma strncpy_unrolled_ncpy:
  "0 < n4 \<Longrightarrow> (case strncpy_unrolled mem d s n4 of None \<Rightarrow> None | Some (mem', p1, p2, nul) \<Rightarrow>
       if nul then zero_fill mem' p1 (4 * n4 + r + d - p1) else ncpy mem' p1 p2 r)
     = ncpy mem d s (4 * n4 + r)"
proof (induction n4 arbitrary: mem d s)
  case (Suc k)
  have four: "4 * Suc k + r = Suc (Suc (Suc (Suc (4 * k + r))))" by simp
  show ?case
    unfolding unrolled_four unfolding ncpy_four four
  proof (rule four_steps_cong)
    fix m :: "u8 list" and j :: nat assume "0 < j" "j \<le> 4"
    then show "(case (m, d + j, s + j, True) of (mem', p1, p2, nul) \<Rightarrow>
        if nul then zero_fill mem' p1 (Suc (Suc (Suc (Suc (4 * k + r)))) + d - p1) else ncpy mem' p1 p2 r)
      = zero_fill m (d + j) (4 - j + (4 * k + r))"
      by simp
  next
    fix m
    show "(if k = 0 then (case (m, d + 4, s + 4, False) of (mem', p1, p2, nul) \<Rightarrow>
          if nul then zero_fill mem' p1 (Suc (Suc (Suc (Suc (4 * k + r)))) + d - p1) else ncpy mem' p1 p2 r)
        else (case strncpy_unrolled m (d + 4) (s + 4) k of None \<Rightarrow> None | Some (mem', p1, p2, nul) \<Rightarrow>
          if nul then zero_fill mem' p1 (Suc (Suc (Suc (Suc (4 * k + r)))) + d - p1) else ncpy mem' p1 p2 r))
      = ncpy m (d + 4) (s + 4) (4 * k + r)"
    proof -
      have eq: "Suc (Suc (Suc (Suc (4 * k + r)))) + d = 4 * k + r + (d + 4)" by simp
      show ?thesis unfolding eq using Suc.IH [where mem = m and d = "d + 4" and s = "s + 4"] by simp
    qed
  qed
qed simp

lemma and_3_mod: "unat (n AND 3 :: u32) = unat n mod 4"
proof -
  have "n AND 3 = take_bit 2 n" by (simp add: take_bit_eq_mask mask_eq_exp_minus_1)
  then show ?thesis by (simp add: unsigned_take_bit_eq take_bit_eq_mod unat_mod)
qed

lemma strncpy_ncpy: "strncpy mem d s n = ncpy mem d s (unat n)"
proof (cases "4 \<le> n")
  case True
  have q: "unat (drop_bit 2 n) = unat n div 4"
    by (simp add: unsigned_drop_bit_eq drop_bit_eq_div unat_div)
  have "4 \<le> unat n" using True by (simp add: word_le_nat_alt)
  then have "ncpy mem d s (unat n) = (case strncpy_unrolled mem d s (unat n div 4) of None \<Rightarrow> None
      | Some (mem', p1, p2, nul) \<Rightarrow>
         if nul then zero_fill mem' p1 (unat n + d - p1) else ncpy mem' p1 p2 (unat n mod 4))"
    using strncpy_unrolled_ncpy [where ?n4.0 = "unat n div 4" and mem = mem and d = d and s = s and r = "unat n mod 4"]
    unfolding mult_div_mod_eq by simp
  moreover have "unat n + d - p = unat n - (p - d)" if "d \<le> p" for p using that by arith
  ultimately show ?thesis using True
    by (auto simp: strncpy_def q and_3_mod last_chars_ncpy dest!: unrolled_ge split: option.split Option.bind_split)
next
  case False
  then have "unat n < 4" by (simp add: not_le word_less_nat_alt)
  then show ?thesis using False by (simp add: strncpy_def last_chars_ncpy and_3_mod)
qed

text \<open>The C string at an offset.\<close>

definition cstr :: "u8 list \<Rightarrow> nat \<Rightarrow> u8 list \<Rightarrow> bool" where
  "cstr mem p xs \<longleftrightarrow> p + length xs < length mem \<and> take (length xs) (drop p mem) = xs
     \<and> mem ! (p + length xs) = 0 \<and> 0 \<notin> set xs"

lemma cstr_Nil: "cstr mem p [] \<longleftrightarrow> p < length mem \<and> mem ! p = 0"
  by (auto simp: cstr_def)

lemma cstr_Cons:
  "cstr mem p (x # xs) \<longleftrightarrow> p < length mem \<and> mem ! p = x \<and> x \<noteq> 0 \<and> cstr mem (p + 1) xs"
  by (auto simp: cstr_def Cons_nth_drop_Suc [symmetric])

lemma cstr_upd: "cstr mem p xs \<Longrightarrow> i < p \<or> p + length xs < i \<Longrightarrow> cstr (mem[i := c]) p xs"
  by (induction xs arbitrary: p) (auto simp: cstr_Nil cstr_Cons nth_list_update)

lemma mem_put_Cons: "d + length (x # xs) \<le> length mem \<Longrightarrow>
   mem_put (mem[d := x]) (d + 1) xs = mem_put mem d (x # xs)"
  by (simp add: mem_put_def take_Suc_conv_app_nth)

lemma zero_fill_ok: "d + n \<le> length mem \<Longrightarrow> zero_fill mem d n = mem_put mem d (replicate n 0)"
proof (induction n arbitrary: mem d)
  case 0
  then show ?case by (simp add: mem_put_def)
next
  case (Suc n)
  then show ?case using mem_put_Cons [of d 0 "replicate n 0" mem] by (simp add: wr_def)
qed

lemma ncpy_ok:
  "cstr mem s xs \<Longrightarrow> d + n \<le> length mem \<Longrightarrow> d + n \<le> s \<or> s + length xs < d \<Longrightarrow>
     ncpy mem d s n = mem_put mem d (take n (xs @ replicate n 0))"
proof (induction n arbitrary: mem d s xs)
  case 0
  then show ?case by (simp add: mem_put_def)
next
  case (Suc n)
  show ?case
  proof (cases xs)
    case Nil
    then have "s < length mem" "mem ! s = 0" using Suc.prems by (auto simp: cstr_Nil)
    then show ?thesis using Suc.prems Nil mem_put_Cons [of d 0 "replicate n 0" mem]
      by (simp add: copy1_def rd_def wr_def zero_fill_ok)
  next
    case (Cons x ys)
    then have x: "s < length mem" "mem ! s = x" "x \<noteq> 0" and ys: "cstr mem (s + 1) ys"
      using Suc.prems by (auto simp: cstr_Cons)
    have "cstr (mem[d := x]) (s + 1) ys"
      by (rule cstr_upd [OF ys]) (use Suc.prems Cons in auto)
    then have "ncpy (mem[d := x]) (d + 1) (s + 1) n = mem_put (mem[d := x]) (d + 1) (take n (ys @ replicate n 0))"
      by (rule Suc.IH) (use Suc.prems Cons in auto)
    also have "\<dots> = mem_put mem d (x # take n (ys @ replicate n 0))"
      by (rule mem_put_Cons) (use Suc.prems in simp)
    also have "x # take n (ys @ replicate n 0) = take (Suc n) (xs @ replicate (Suc n) 0)"
      using Cons by (simp add: take_append replicate_append_same [symmetric] del: replicate_Suc)
    finally show ?thesis using x Suc.prems by (simp add: copy1_def rd_def wr_def)
  qed
qed

lemma strcpy_loop_ok:
  "cstr mem s xs \<Longrightarrow> d + length xs < length mem \<Longrightarrow> d + length xs < s \<or> s + length xs < d \<Longrightarrow>
     strcpy_loop mem d s = mem_put mem d (xs @ [0])"
proof (induction xs arbitrary: mem d s)
  case Nil
  then show ?case
    by (simp add: cstr_Nil wr_def mem_put_def strcpy_loop.simps [of mem] upd_conv_take_nth_drop)
next
  case (Cons x xs)
  then have x: "s < length mem" "mem ! s = x" "x \<noteq> 0" and xs: "cstr mem (s + 1) xs"
    by (auto simp: cstr_Cons)
  have "cstr (mem[d := x]) (s + 1) xs"
    by (rule cstr_upd [OF xs]) (use Cons.prems in auto)
  then have "strcpy_loop (mem[d := x]) (d + 1) (s + 1) = mem_put (mem[d := x]) (d + 1) (xs @ [0])"
    by (rule Cons.IH) (use Cons.prems in auto)
  also have "\<dots> = mem_put mem d (x # xs @ [0])"
    by (rule mem_put_Cons) (use Cons.prems in simp)
  finally show ?case using x Cons.prems
    by (simp add: strcpy_loop.simps [of mem] wr_def)
qed

lemma strend_ok: "cstr mem p xs \<Longrightarrow> strend mem p = Some (p + length xs)"
  by (induction xs arbitrary: p) (auto simp: cstr_Nil cstr_Cons strend.simps [of mem])


fun strspn_in :: "u8 list \<Rightarrow> u8 \<Rightarrow> bool" where
  "strspn_in [] c = False"
| "strspn_in (a # as) c = (if c = a then True else strspn_in as c)"

fun strspn_loop :: "u8 list \<Rightarrow> u8 list \<Rightarrow> u32 \<Rightarrow> u32" where
  "strspn_loop [] accept count = count"
| "strspn_loop (p # ps) accept count =
     (if \<not> strspn_in accept p then count else strspn_loop ps accept (count + 1))"

definition strspn :: "u8 list \<Rightarrow> u8 list \<Rightarrow> u32" where
  "strspn s accept = strspn_loop s accept 0"

text \<open>The pointer \<open>strpbrk\<close> returns, as an offset into \<open>s1\<close>.\<close>

fun strpbrk :: "u8 list \<Rightarrow> u8 list \<Rightarrow> nat option" where
  "strpbrk [] s2 = None"
| "strpbrk (s # ss) s2 = (if strspn_in s2 s then Some 0 else map_option Suc (strpbrk ss s2))"

lemma strspn_in_iff: "strspn_in as c \<longleftrightarrow> c \<in> set as"
  by (induction as) auto

lemma strspn_eq: "strspn s accept = of_nat (length (takeWhile (\<lambda>c. c \<in> set accept) s))"
proof -
  have "strspn_loop s accept n = n + of_nat (length (takeWhile (\<lambda>c. c \<in> set accept) s))" for n
    by (induction s accept n rule: strspn_loop.induct) (auto simp: strspn_in_iff)
  then show ?thesis by (simp add: strspn_def)
qed

lemma strpbrk_eq:
  "strpbrk s s2 = (let n = length (takeWhile (\<lambda>c. c \<notin> set s2) s) in if n = length s then None else Some n)"
  by (induction s) (auto simp: strspn_in_iff Let_def)

section \<open>Hexadecimal text\<close>

definition BtoH :: "u8 \<Rightarrow> u8" where
  "BtoH ch =
     (if 0x30 \<le> ch \<and> ch \<le> 0x39 then ch - 0x30
      else if 0x41 \<le> ch \<and> ch \<le> 0x46 then ch - 0x41 + 0xa
      else if 0x61 \<le> ch \<and> ch \<le> 0x66 then ch - 0x61 + 0xa
      else 255)"

text \<open>\<open>AtoH\<close>: the bytes written to \<open>dest\<close>; it reads \<open>2 * destlen\<close> bytes from \<open>src\<close> whatever
  they are.\<close>

fun AtoH :: "u8 list \<Rightarrow> nat \<Rightarrow> u8 list option" where
  "AtoH src 0 = Some []"
| "AtoH (a # b # src) (Suc n) = map_option ((#) (push_bit 4 (BtoH a) + BtoH b)) (AtoH src n)"
| "AtoH src (Suc n) = None"

text \<open>The two digits of a byte, in the letters of either case.\<close>

definition hex_digit :: "bool \<Rightarrow> u8 \<Rightarrow> u8" where
  "hex_digit upper d = (if d < 10 then 0x30 + d else if upper then 0x41 + (d - 10) else 0x61 + (d - 10))"

definition hex_byte :: "bool \<Rightarrow> u8 \<Rightarrow> u8 list" where
  "hex_byte upper b = [hex_digit upper (drop_bit 4 b), hex_digit upper (take_bit 4 b)]"

lemma BtoH_hex_digit:
  assumes "d < 16"
  shows "BtoH (hex_digit upper d) = d"
proof -
  have "unat d < 16" using assms by (simp add: word_less_nat_alt)
  moreover have "set [0..<16] = {0, 1, 2, 3, 4, 5, 6, 7, 8, 9, 10, 11, 12, 13, 14, 15}"
    by code_simp
  ultimately have "unat d \<in> {0, 1, 2, 3, 4, 5, 6, 7, 8, 9, 10, 11, 12, 13, 14, 15}"
    by (metis atLeastLessThan_iff set_upt zero_le)
  moreover have "\<forall>k\<in>{0, 1, 2, 3, 4, 5, 6, 7, 8, 9, 10, 11, 12, 13, 14, 15}.
      BtoH (hex_digit upper (of_nat k)) = of_nat k"
    by (cases upper) (simp_all add: BtoH_def hex_digit_def)
  ultimately show ?thesis by (metis of_nat_unat ucast_id)
qed

lemma nibbles: "push_bit 4 (drop_bit 4 b) + take_bit 4 b = b"
  by (metis add.commute bits_ident)

lemma AtoH_hex: "AtoH (concat (map (hex_byte upper) bs) @ rest) (length bs) = Some bs"
proof (induction bs)
  case (Cons b bs)
  have "drop_bit 4 b < 16" "take_bit 4 b < 16"
    using unsigned_less [of b, where ?'a = nat]
    by (simp_all add: word_less_nat_alt unsigned_drop_bit_eq unsigned_take_bit_eq drop_bit_eq_div
        take_bit_eq_mod unat_div unat_mod)
  with Cons show ?case
    by (simp add: hex_byte_def BtoH_hex_digit nibbles)
qed simp

section \<open>Software timers\<close>

text \<open>A timer as the wrappers see it; \<open>start\<close> and \<open>stop\<close> stand for \<open>OSTmrStart\<close> and
  \<open>OSTmrStop\<close> of the kernel.  A null pointer is \<^term>\<open>None\<close>.\<close>

record nst_timer =
  OSTmrOpt :: u8
  OSTmrPeriod :: u32
  OSTmrDly :: u32

definition NST_SetTimer :: "(nst_timer \<Rightarrow> nst_timer) \<Rightarrow> nst_timer option \<Rightarrow> u32 \<Rightarrow> nst_timer option" where
  "NST_SetTimer start pTimer Value =
     (let TimeValue = Value * 100 div 1000 in
      case pTimer of
        None \<Rightarrow> None
      | Some t \<Rightarrow>
          (let TimeValue = (if TimeValue = 0 then 1 else TimeValue);
               t = (if OSTmrOpt t = 2
                    then t\<lparr>OSTmrPeriod := TimeValue, OSTmrDly := 0\<rparr>
                    else t\<lparr>OSTmrPeriod := 0, OSTmrDly := TimeValue\<rparr>)
           in Some (start t)))"

definition NST_CancelTimer :: "(nst_timer \<Rightarrow> nst_timer \<times> bool) \<Rightarrow> nst_timer option \<Rightarrow> bool
    \<Rightarrow> nst_timer option \<times> bool" where
  "NST_CancelTimer stop pTimer Cancelled =
     (case pTimer of None \<Rightarrow> (None, Cancelled)
      | Some t \<Rightarrow> (let (t', c) = stop t in (Some t', c)))"

definition NST_ModTimer :: "(nst_timer \<Rightarrow> nst_timer) \<Rightarrow> (nst_timer \<Rightarrow> nst_timer \<times> bool)
    \<Rightarrow> nst_timer option \<Rightarrow> u32 \<Rightarrow> nst_timer option" where
  "NST_ModTimer start stop pTimer Value =
     (case pTimer of None \<Rightarrow> None
      | Some t \<Rightarrow> NST_SetTimer start (fst (NST_CancelTimer stop (Some t) False)) Value)"

text \<open>The number of ticks is right up to about twelve hours; then the product wraps.\<close>

lemma timer_ticks:
  fixes Value :: u32
  assumes "unat Value \<le> 42949672"
  shows "unat (Value * 100 div 1000) = unat Value div 10"
proof -
  have "unat Value * 100 < 2 ^ 32" using assms by simp
  then have "unat (Value * 100) = unat Value * 100"
    by (simp add: unat_word_ariths)
  then show ?thesis by (simp add: unat_div)
qed

section \<open>Properties\<close>

text \<open>C17: \<open>NST_MoveMemOvlap\<close> is \<open>memmove\<close>: whatever the overlap of the two areas, the destination
  receives the bytes the source held before the call and nothing else changes.\<close>

theorem NST_MoveMemOvlap_memmove:
  assumes "src + unat sz \<le> length mem" "dst + unat sz \<le> length mem"
  shows "NST_MoveMemOvlap mem dst src sz = mem_put mem dst (take (unat sz) (drop src mem))"
proof -
  have "moved mem dst src (unat sz) = take dst mem @ take (unat sz) (drop src mem) @ drop (dst + unat sz) mem"
    by (rule nth_equalityI) (use assms in \<open>auto simp: nth_moved nth_append add.commute\<close>)
  then show ?thesis using assms by (simp add: move_ok mem_put_def)
qed

lemma NST_MoveMemOvlap_memmove_witness:
  "NST_MoveMemOvlap [1, 2, 3, 4, 5] 1 0 4 = Some [1, 1, 2, 3, 4]"
  using NST_MoveMemOvlap_memmove [of 0 4 "[1, 2, 3, 4, 5]" 1]
  by (simp add: mem_put_def)

text \<open>C16: the table-driven 8-bit checksum and the 32 parity equations of the 32-bit one
  compute the bitwise division by their generators: \<open>NST_GetCrc32\<close> is the CRC-32 of IEEE 802.3.\<close>

theorem NST_GetCrc_spec:
  "NST_GetCrc8 data = crc8_spec data \<and> NST_GetCrc32 data = crc32_spec data"
  by (simp add: NST_GetCrc8_def crc8_spec_def crc8_loop_spec NST_GetCrc32_def crc32_spec_def
      crc32_loop_spec reflect32_ones)

text \<open>The unrolled \<open>strncpy\<close> writes the first \<open>n\<close> bytes of the string, padded with NULs, and
  nothing else.\<close>

theorem strncpy_spec:
  assumes "cstr mem s2 xs" "s1 + unat n \<le> length mem"
    and "s1 + unat n \<le> s2 \<or> s2 + length xs < s1"
  shows "strncpy mem s1 s2 n = mem_put mem s1 (take (unat n) (xs @ replicate (unat n) 0))"
  using ncpy_ok [OF assms] by (simp add: strncpy_ncpy)

lemma strncpy_spec_witness:
  "strncpy [0x61, 0x62, 0, 9, 9, 9, 9, 9, 9, 9] 3 0 6 = Some [0x61, 0x62, 0, 0x61, 0x62, 0, 0, 0, 0, 9]"
proof -
  have "cstr [0x61, 0x62, 0, 9, 9, 9, 9, 9, 9, 9] 0 [0x61, 0x62]" by (simp add: cstr_def)
  moreover have "replicate 6 0 = [0, 0, 0, 0, 0, 0 :: u8]" by (simp add: eval_nat_numeral)
  ultimately show ?thesis using strncpy_spec [of _ 0 "[0x61, 0x62]" 3 6] by (simp add: mem_put_def)
qed

text \<open>\<open>strcat\<close> appends the source and its NUL to the string at the destination.\<close>

lemma strcat_spec:
  assumes "cstr mem dest ds" "cstr mem src ss" "dest + length ds + length ss < length mem"
    and "dest + length ds + length ss < src \<or> src + length ss < dest + length ds"
  shows "strcat mem dest src = mem_put mem (dest + length ds) (ss @ [0])"
  using assms by (simp add: strcat_def strend_ok strcpy_loop_ok)

text \<open>\<open>AtoH\<close> reads back the bytes that were printed in hexadecimal, in either case of letters.\<close>

theorem AtoH_roundtrip:
  "AtoH (concat (map (hex_byte upper) bs) @ rest) (length bs) = Some bs"
  by (rule AtoH_hex)

end
