(* ===== verification/DnsServer.thy ===== *)
theory DnsServer
  imports CLib
begin

text \<open>
  The DNS server of the access point, \<^verbatim>\<open>App/DnsServer/dns_server.c\<close>: it answers a query for its
  own name with the address of the interface and every other query with a name error.

  \<^verbatim>\<open>DnsServer\<close> is a record; \<open>DnsName\<close> is the array of 32 bytes.  The received message is the heap
  block of its bytes, a pointer into it or into \<open>DnsName\<close> is an offset; an access outside of the
  block or the array is the fault \<^term>\<open>None\<close>.  Whether \<open>OSMMalloc\<close> and \<open>pbuf_alloc\<close> succeed for a
  length is a parameter, as is the socket that \<open>udp_new\<close> returns.
\<close>

section \<open>State\<close>

record dns_server =
  Socket :: "nat option"
  DnsName :: "u8 list"
  HostIp :: u32

section \<open>The name comparison\<close>

definition Nst_ToUpper :: "u8 \<Rightarrow> u8" where
  "Nst_ToUpper c = (if 0x61 \<le> c \<and> c \<le> 0x7a then c - 0x61 + 0x41 else c)"

definition byte_at :: "u8 list \<Rightarrow> nat \<Rightarrow> u8 option" where
  "byte_at b i = (if i < length b then Some (b ! i) else None)"

text \<open>\<open>strlen\<close> from an offset; without a NUL in the block it runs out of it.  The firmware's \<open>strlen\<close> (\<^verbatim>\<open>CLib\<close>) stops after
  4095 bytes, which is the same below (\<open>strlen_firmware\<close>).\<close>

fun strlen :: "u8 list \<Rightarrow> nat option" where
  "strlen [] = None"
| "strlen (c # cs) = (if c = 0 then Some 0 else map_option Suc (strlen cs))"

lemma strlen_firmware: "strlen s = Some n \<Longrightarrow> k + n \<le> m \<Longrightarrow> str_len_loop s k m = Some (k + n)"
  by (induction s arbitrary: n k) (auto split: if_splits)

text \<open>The characters of one label: \<open>Some None\<close> when they differ, else the new offsets.\<close>

fun compare_label :: "u8 list \<Rightarrow> u8 list \<Rightarrow> nat \<Rightarrow> nat \<Rightarrow> nat \<Rightarrow> (nat \<times> nat) option option" where
  "compare_label name msg my q 0 = Some (Some (my, q))"
| "compare_label name msg my q (Suc n) = do {
     src \<leftarrow> byte_at name my;
     dst \<leftarrow> byte_at msg q;
     if Nst_ToUpper src \<noteq> Nst_ToUpper dst then Some None
     else compare_label name msg (my + 1) (q + 1) n
   }"

lemma compare_label_mono: "compare_label name msg my q n = Some (Some (my', q')) \<Longrightarrow> q \<le> q'"
  by (induction n arbitrary: my q) (force split: Option.bind_splits if_splits)+

text \<open>\<open>*(--MyDns) == 0\<close>; one step back from the array's start is outside of it.\<close>

definition compare_end :: "u8 list \<Rightarrow> nat \<Rightarrow> int option" where
  "compare_end name my =
     (if my = 0 then None
      else map_option (\<lambda>c. if c = 0 then 0 else 1) (byte_at name (my - 1)))"

function compare_loop :: "u8 list \<Rightarrow> u8 list \<Rightarrow> nat \<Rightarrow> nat \<Rightarrow> int option" where
  "compare_loop name msg my q =
     (if q < length msg then
        let n = msg ! q in
        if n AND 0xc0 = 0xc0 then compare_end name my
        else (case compare_label name msg my (q + 1) (unat n) of
            None \<Rightarrow> None
          | Some None \<Rightarrow> Some 1
          | Some (Some (my', q')) \<Rightarrow>
              (case byte_at msg q' of
                 None \<Rightarrow> None
               | Some c \<Rightarrow> if c \<noteq> 0 then compare_loop name msg (my' + 1) q'
                           else compare_end name (my' + 1)))
      else None)"
  by pat_completeness auto
termination
  by (relation "measure (\<lambda>(name, msg, my, q). length msg - q)")
     (auto dest!: compare_label_mono simp: byte_at_def split: if_splits)

declare compare_loop.simps [simp del]

definition DnsCompareName :: "u8 list \<Rightarrow> u8 list \<Rightarrow> nat \<Rightarrow> int option" where
  "DnsCompareName name msg q = do {
     len \<leftarrow> strlen (drop q msg);
     if 32 < (of_nat len - 1 :: u32) then Some 1 else compare_loop name msg 0 q
   }"

section \<open>The replies\<close>

text \<open>What is sent, if anything: the payload of the datagram to the client.\<close>

definition DNSNameErrGenAndSend ::
  "(nat \<Rightarrow> bool) \<Rightarrow> (nat \<Rightarrow> bool) \<Rightarrow> u8 list \<Rightarrow> u8 list \<Rightarrow> u8 list \<Rightarrow> u8 list option" where
  "DNSNameErrGenAndSend malloc pbuf pDnsQuery QueryName TansactionId =
     (if \<not> malloc (((12 + (length QueryName + 1) + 4 + 3) div 4) * 4) then None
      else
        let reply = TansactionId @ [0x80, 0x03] @ le16 (lwip_htons 1) @ le16 0 @ le16 0 @ le16 0
              @ QueryName @ [0] @ pDnsQuery
        in if \<not> pbuf (12 + (length QueryName + 1) + 4) then None else Some reply)"

definition DNSAnswerGenAndSend ::
  "(nat \<Rightarrow> bool) \<Rightarrow> (nat \<Rightarrow> bool) \<Rightarrow> dns_server \<Rightarrow> u8 list \<Rightarrow> u8 list \<Rightarrow> u8 list \<Rightarrow> u8 list option" where
  "DNSAnswerGenAndSend malloc pbuf srv pDnsQuery QueryName TansactionId =
     (if \<not> malloc (((12 + (length QueryName + 1) + 4 + 2 + 8 + 2 + 4 + 3) div 4) * 4) then None
      else
        let reply = TansactionId @ [0x80, 0x00] @ le16 (lwip_htons 1) @ le16 (lwip_htons 1) @ le16 0 @ le16 0
              @ QueryName @ [0] @ pDnsQuery
              @ le16 (lwip_htons (0xc000 OR 12))
              @ le16 (lwip_htons 1) @ le16 (lwip_htons 1) @ le32 (lwip_htonl 3600)
              @ le16 (lwip_htons 4) @ le32 (HostIp srv)
        in if \<not> pbuf (12 + (length QueryName + 1) + 4 + 2 + 8 + 2 + 4) then None else Some reply)"

section \<open>The receive callback\<close>

text \<open>The outer \<^term>\<open>None\<close> is a fault; else the reply, if there is one.\<close>

definition DNSS_RecvCb ::
  "(nat \<Rightarrow> bool) \<Rightarrow> (nat \<Rightarrow> bool) \<Rightarrow> dns_server \<Rightarrow> u8 list \<Rightarrow> u8 list option option" where
  "DNSS_RecvCb malloc pbuf srv msg =
     (if \<not> malloc (length msg) then Some None
      else do {
        flag1 \<leftarrow> byte_at msg 2;
        if flag1 AND 0x80 \<noteq> 0 \<or> flag1 AND push_bit 3 0xf \<noteq> 0 then Some None
        else do {
          len \<leftarrow> strlen (drop 12 msg);
          query \<leftarrow> mem_get msg (12 + len + 1) 4;
          if of_le16 (drop 2 query) \<noteq> lwip_htons 1 \<and> of_le16 (take 2 query) \<noteq> lwip_htons 1
          then Some None
          else do {
            r \<leftarrow> DnsCompareName (DnsName srv) msg 12;
            let name = take len (drop 12 msg);
            let tid = take 2 msg;
            Some (if r \<noteq> 0 then DNSNameErrGenAndSend malloc pbuf query name tid
                  else DNSAnswerGenAndSend malloc pbuf srv query name tid)
          }
        }
      })"

section \<open>Configuration, start and stop\<close>

definition DNSS_Config :: "dns_server \<Rightarrow> u8 list option \<Rightarrow> dns_server \<times> int" where
  "DNSS_Config srv name =
     (case name of
        None \<Rightarrow> (srv, -2)
      | Some n \<Rightarrow> if 32 < length n then (srv, -2)
                  else (srv\<lparr>DnsName := n @ replicate (32 - length n) 0\<rparr>, 0))"

text \<open>\<open>Netif\<close>: the null pointer, or whether the interface is up and its address.\<close>

definition DNSS_Start ::
  "nat option \<Rightarrow> dns_server \<Rightarrow> (bool \<times> u32) option \<Rightarrow> u8 list \<Rightarrow> dns_server \<times> int" where
  "DNSS_Start udp_new srv Netif name =
     (case Netif of
        None \<Rightarrow> (srv, -2)
      | Some (up, ip_addr) \<Rightarrow>
          if 32 < length name then (srv, -2)
          else if \<not> up then (srv, -1)
          else
            let srv = \<lparr>Socket = udp_new, DnsName = name @ replicate (32 - length name) 0,
                       HostIp = ip_addr\<rparr>
            in if udp_new = None then (srv, -3) else (srv, 0))"

text \<open>The socket that is removed; \<open>Socket\<close> itself keeps the pointer.\<close>

definition DNSS_Stop :: "dns_server \<Rightarrow> dns_server \<times> nat option" where
  "DNSS_Stop srv = (srv, Socket srv)"

section \<open>Names and their encoding\<close>

text \<open>A question name as it is on the wire, and the characters a name must have to equal it:
  the separators of the labels are not compared.\<close>

definition dns_labels :: "u8 list list \<Rightarrow> u8 list" where
  "dns_labels ls = concat (map (\<lambda>l. of_nat (length l) # l) ls)"

fun dns_pattern :: "u8 list list \<Rightarrow> u8 option list" where
  "dns_pattern [] = []"
| "dns_pattern [l] = map Some l"
| "dns_pattern (l # l' # ls) = map Some l @ None # dns_pattern (l' # ls)"

definition char_match :: "u8 \<Rightarrow> u8 option \<Rightarrow> bool" where
  "char_match c p = (case p of None \<Rightarrow> True | Some d \<Rightarrow> Nst_ToUpper c = Nst_ToUpper d)"

definition name_match :: "u8 list \<Rightarrow> u8 list list \<Rightarrow> bool" where
  "name_match name ls = list_all2 char_match name (dns_pattern ls)"

definition label_ok :: "u8 list \<Rightarrow> bool" where
  "label_ok l \<longleftrightarrow> l \<noteq> [] \<and> length l < 64 \<and> 0 \<notin> set l"

text \<open>The array with the name and its padding.\<close>

definition name_array :: "u8 list \<Rightarrow> u8 list" where
  "name_array name = name @ replicate (32 - length name) 0"

abbreviation same_char :: "u8 \<Rightarrow> u8 \<Rightarrow> bool" where
  "same_char c d \<equiv> Nst_ToUpper c = Nst_ToUpper d"

lemma Nst_ToUpper_0: "Nst_ToUpper c = Nst_ToUpper 0 \<longleftrightarrow> c = 0"
proof -
  have "c - 0x20 = 0 \<Longrightarrow> c = 0x20" by (metis eq_iff_diff_eq_0)
  then show ?thesis by (auto simp: Nst_ToUpper_def)
qed

lemma compare_label_ok:
  "my + length l \<le> length nm \<Longrightarrow> take (length l) (drop q msg) = l \<Longrightarrow>
     compare_label nm msg my q (length l) =
       Some (if list_all2 same_char (take (length l) (drop my nm)) l
             then Some (my + length l, q + length l) else None)"
proof (induction l arbitrary: my q)
  case (Cons d l)
  have lt: "q < length msg" using Cons.prems(2) by (cases "q < length msg") simp_all
  then have "drop q msg = msg ! q # drop (q + 1) msg" by (simp add: Cons_nth_drop_Suc)
  then have q: "msg ! q = d" "take (length l) (drop (q + 1) msg) = l" using Cons.prems(2) by simp_all
  have my: "drop my nm = nm ! my # drop (my + 1) nm"
    using Cons.prems(1) by (simp add: Cons_nth_drop_Suc)
  show ?case
    using Cons.IH [of "my + 1" "q + 1"] Cons.prems(1) q lt
    by (simp add: byte_at_def my)
qed simp

lemma label_len: "label_ok l \<Longrightarrow> unat (of_nat (length l) :: u8) = length l"
  by (simp add: label_ok_def unat_of_nat)

lemma label_not_pointer: "label_ok l \<Longrightarrow> (of_nat (length l) :: u8) AND 0xc0 \<noteq> 0xc0"
proof
  assume l: "label_ok l" and eq: "(of_nat (length l) :: u8) AND 0xc0 = 0xc0"
  have "(0xc0 :: u8) \<le> of_nat (length l)"
    by (metis eq word_and_le2 and.commute)
  then have "192 \<le> length l" using l by (simp add: word_le_nat_alt label_len)
  then show False using l by (simp add: label_ok_def)
qed

lemma label_len_pos: "label_ok l \<Longrightarrow> (of_nat (length l) :: u8) \<noteq> 0"
  using label_len [of l] by (auto simp: label_ok_def)

lemma pattern_Nil: "ls \<noteq> [] \<Longrightarrow> \<forall>l\<in>set ls. label_ok l \<Longrightarrow> dns_pattern ls \<noteq> []"
  by (induction ls rule: dns_pattern.induct) (auto simp: label_ok_def)

lemma match_label: "list_all2 char_match xs (map Some l) \<longleftrightarrow> list_all2 same_char xs l"
  by (simp add: list_all2_map2 char_match_def [abs_def])


text \<open>A label that agrees lies within the name, not in its padding.\<close>

lemma agree_no_0: "list_all2 same_char xs l \<Longrightarrow> 0 \<notin> set l \<Longrightarrow> 0 \<notin> set xs"
proof (induction rule: list_all2_induct)
  case (Cons x xs y ys)
  then show ?case using Nst_ToUpper_0 [of y] by auto
qed simp

lemma label_within:
  assumes agree: "list_all2 same_char (take (length l) (drop my (name_array name))) l" and l: "label_ok l"
    and name: "length name < 32" and my: "my + length l \<le> 32" "my \<le> length name + 1"
  shows "my + length l \<le> length name"
proof (rule ccontr)
  assume "\<not> my + length l \<le> length name"
  define i where "i = max my (length name)"
  have l0: "1 \<le> length l" using l by (cases l) (simp_all add: label_ok_def)
  have i: "my \<le> i" "i < my + length l" "length name \<le> i" "i < 32"
    using \<open>\<not> my + length l \<le> length name\<close> my name l0 by (auto simp: i_def)
  have N: "length (name_array name) = 32" using name by (simp add: name_array_def)
  have "name_array name ! i = 0" using i name by (simp add: name_array_def nth_append)
  moreover have "take (length l) (drop my (name_array name)) ! (i - my) = name_array name ! i"
    using i N by simp
  moreover have "i - my < length (take (length l) (drop my (name_array name)))"
    using i N my by simp
  ultimately have "0 \<in> set (take (length l) (drop my (name_array name)))"
    by (metis nth_mem)
  then show False using agree_no_0 [OF agree] l by (simp add: label_ok_def)
qed

lemma match_append:
  "list_all2 char_match xs (map Some l @ p) \<longleftrightarrow>
     list_all2 same_char (take (length l) xs) l \<and> list_all2 char_match (drop (length l) xs) p"
proof
  assume "list_all2 char_match xs (map Some l @ p)"
  then obtain us vs where "xs = us @ vs" "list_all2 same_char us l" "list_all2 char_match vs p"
    by (auto simp: list_all2_append2 match_label)
  then show "list_all2 same_char (take (length l) xs) l \<and> list_all2 char_match (drop (length l) xs) p"
    using list_all2_lengthD [of same_char us l] by simp
next
  assume "list_all2 same_char (take (length l) xs) l \<and> list_all2 char_match (drop (length l) xs) p"
  then have "list_all2 char_match (take (length l) xs @ drop (length l) xs) (map Some l @ p)"
    by (intro list_all2_appendI) (simp_all add: match_label)
  then show "list_all2 char_match xs (map Some l @ p)" by simp
qed

lemma compare_loop_ok:
  assumes name: "length name < 32" "0 \<notin> set name"
  shows "ls \<noteq> [] \<Longrightarrow> \<forall>l\<in>set ls. label_ok l \<Longrightarrow> my \<le> length name + 1 \<Longrightarrow>
     my + length (dns_pattern ls) \<le> 32 \<Longrightarrow> drop q msg = dns_labels ls @ 0 # rest \<Longrightarrow>
     compare_loop (name_array name) msg my q =
       Some (if list_all2 char_match (drop my name) (dns_pattern ls) then 0 else 1)"
proof (induction ls arbitrary: my q)
  case (Cons l ls)
  let ?N = "name_array name"
  let ?T = "take (length l) (drop my ?N)"
  have N: "length ?N = 32" using name by (simp add: name_array_def)
  have l: "label_ok l" and ls: "\<forall>l\<in>set ls. label_ok l" using Cons.prems(2) by auto
  have pat: "dns_pattern (l # ls) = map Some l @ (if ls = [] then [] else None # dns_pattern ls)"
    by (cases ls) auto
  have my: "my + length l \<le> 32" using Cons.prems(4) by (simp add: pat)
  have q: "q < length msg" using Cons.prems(5) by (cases "q < length msg") (simp_all add: dns_labels_def)
  then have "drop q msg = msg ! q # drop (q + 1) msg" by (simp add: Cons_nth_drop_Suc)
  then have qn: "msg ! q = of_nat (length l)" and q1: "drop (q + 1) msg = l @ dns_labels ls @ 0 # rest"
    using Cons.prems(5) by (simp_all add: dns_labels_def)
  have q2: "drop (q + 1 + length l) msg = dns_labels ls @ 0 # rest"
    using arg_cong [OF q1, of "drop (length l)"] by (simp add: add.commute)
  have q3: "q + 1 + length l < length msg"
    using q2 by (cases "q + 1 + length l < length msg") simp_all
  then have "drop (q + 1 + length l) msg = msg ! (q + 1 + length l) # drop (q + 1 + length l + 1) msg"
    by (simp add: Cons_nth_drop_Suc)
  then have next_byte: "byte_at msg (q + 1 + length l) = Some (case ls of [] \<Rightarrow> 0 | l # _ \<Rightarrow> of_nat (length l))"
    using q2 q3 by (cases ls) (simp_all add: byte_at_def dns_labels_def)
  have label: "compare_label ?N msg my (q + 1) (length l) =
      Some (if list_all2 same_char ?T l then Some (my + length l, q + 1 + length l) else None)"
    by (rule compare_label_ok) (use my N q1 in simp_all)
  note step = compare_loop.simps [of ?N msg my q]
  show ?case
  proof (cases "list_all2 same_char ?T l")
    case False
    have "\<not> list_all2 same_char (take (length l) (drop my name)) l"
    proof
      assume a: "list_all2 same_char (take (length l) (drop my name)) l"
      then have "?T = take (length l) (drop my name)"
        using list_all2_lengthD [OF a] by (auto simp: name_array_def)
      then show False using a False by simp
    qed
    then have "\<not> list_all2 char_match (drop my name) (dns_pattern (l # ls))"
      by (simp add: pat match_append)
    then show ?thesis using q qn label False l
      by (simp add: step Let_def label_len label_not_pointer)
  next
    case True
    have within: "my + length l \<le> length name"
      by (rule label_within [OF True l name(1) my Cons.prems(3)])
    have T: "?T = take (length l) (drop my name)" using within by (simp add: name_array_def)
    have match: "list_all2 char_match (drop my name) (dns_pattern (l # ls)) \<longleftrightarrow>
        list_all2 char_match (drop (my + length l) name) (if ls = [] then [] else None # dns_pattern ls)"
      using True by (simp add: pat match_append T add.commute)
    have loop: "compare_loop ?N msg my q =
        (if ls = [] then compare_end ?N (my + length l + 1)
         else compare_loop ?N msg (my + length l + 1) (q + 1 + length l))"
      using q qn label True l next_byte ls
      by (cases ls) (simp_all add: step Let_def label_len label_not_pointer label_len_pos)
    show ?thesis
    proof (cases "ls = []")
      case nil: True
      have "my + length l < length name \<Longrightarrow> name ! (my + length l) \<noteq> 0"
        using name(2) nth_mem by metis
      then have "?N ! (my + length l) = 0 \<longleftrightarrow> my + length l = length name"
        using within name by (auto simp: name_array_def nth_append)
      then show ?thesis
        unfolding match loop using within name nil by (simp add: compare_end_def byte_at_def N)
    next
      case ne: False
      have len: "length (dns_pattern (l # ls)) = length l + 1 + length (dns_pattern ls)"
        using ne by (simp add: pat)
      have ih: "compare_loop ?N msg (my + length l + 1) (q + 1 + length l) =
          Some (if list_all2 char_match (drop (my + length l + 1) name) (dns_pattern ls) then 0 else 1)"
        by (rule Cons.IH [OF ne ls _ _ q2]) (use within Cons.prems(4) len in simp_all)
      have "list_all2 char_match (drop (my + length l) name) (None # dns_pattern ls) \<longleftrightarrow>
          list_all2 char_match (drop (my + length l + 1) name) (dns_pattern ls)"
      proof (cases "my + length l < length name")
        case True
        then have "drop (my + length l) name = name ! (my + length l) # drop (my + length l + 1) name"
          by (simp add: Cons_nth_drop_Suc)
        then show ?thesis by (simp add: char_match_def)
      next
        case False
        then show ?thesis using pattern_Nil [OF ne ls] by simp
      qed
      then show ?thesis using ne ih by (simp add: loop match)
    qed
  qed
qed simp

lemma strlen_append: "0 \<notin> set xs \<Longrightarrow> strlen (xs @ 0 # rest) = Some (length xs)"
  by (induction xs) auto

lemma labels_no_0: "\<forall>l\<in>set ls. label_ok l \<Longrightarrow> 0 \<notin> set (dns_labels ls)"
  by (induction ls) (auto simp: dns_labels_def label_ok_def label_len_pos [unfolded label_ok_def] dest: sym)

lemma length_pattern: "ls \<noteq> [] \<Longrightarrow> length (dns_labels ls) = length (dns_pattern ls) + 1"
  by (induction ls rule: dns_pattern.induct) (auto simp: dns_labels_def)

text \<open>The comparison decides \<open>name_match\<close> for names shorter than the array.\<close>

lemma DnsCompareName_ok:
  assumes name: "length name < 32" "0 \<notin> set name" and ls: "ls \<noteq> []" "\<forall>l\<in>set ls. label_ok l"
    and len: "length (dns_labels ls) < 2 ^ 32" and msg: "drop q msg = dns_labels ls @ 0 # rest"
  shows "DnsCompareName (name_array name) msg q = Some (if name_match name ls then 0 else 1)"
proof -
  let ?n = "length (dns_labels ls)"
  have strlen: "strlen (drop q msg) = Some ?n"
    unfolding msg by (rule strlen_append) (rule labels_no_0 [OF ls(2)])
  have "(of_nat ?n - 1 :: u32) = of_nat (length (dns_pattern ls))"
    by (simp add: length_pattern [OF ls(1)])
  then have long: "32 < (of_nat ?n - 1 :: u32) \<longleftrightarrow> 32 < length (dns_pattern ls)"
    using len length_pattern [OF ls(1)] by (simp add: word_less_nat_alt unat_of_nat)
  show ?thesis
  proof (cases "32 < length (dns_pattern ls)")
    case True
    then have "\<not> name_match name ls"
      using name list_all2_lengthD [of char_match name "dns_pattern ls"] by (auto simp: name_match_def)
    then show ?thesis using True long strlen by (simp add: DnsCompareName_def)
  next
    case False
    then show ?thesis
      using compare_loop_ok [OF name ls, of 0 q msg rest] msg long strlen
      by (simp add: DnsCompareName_def name_match_def)
  qed
qed


text \<open>The server before any start: the zeroed static record.\<close>

definition dns_server_zero :: dns_server where
  "dns_server_zero = \<lparr>Socket = None, DnsName = replicate 32 0, HostIp = 0\<rparr>"

section \<open>Properties\<close>

text \<open>A standard query: identification, flags of a query, one question with name, type and class;
  what follows the question is ignored.\<close>

definition dns_query :: "u8 list \<Rightarrow> u8 \<Rightarrow> u8 list \<Rightarrow> u8 list list \<Rightarrow> u16 \<Rightarrow> u16 \<Rightarrow> u8 list \<Rightarrow> u8 list" where
  "dns_query tid flag1 hdr ls typ cls rest =
     tid @ flag1 # hdr @ dns_labels ls @ 0 # le16 typ @ le16 cls @ rest"

text \<open>The replies, byte by byte.\<close>

definition dns_error_reply :: "u8 list \<Rightarrow> u8 list list \<Rightarrow> u16 \<Rightarrow> u16 \<Rightarrow> u8 list" where
  "dns_error_reply tid ls typ cls =
     tid @ [0x80, 3, 0, 1, 0, 0, 0, 0, 0, 0] @ dns_labels ls @ 0 # le16 typ @ le16 cls"

definition dns_answer_reply :: "u8 list \<Rightarrow> u8 list list \<Rightarrow> u16 \<Rightarrow> u16 \<Rightarrow> u32 \<Rightarrow> u8 list" where
  "dns_answer_reply tid ls typ cls addr =
     tid @ [0x80, 0, 0, 1, 0, 1, 0, 0, 0, 0] @ dns_labels ls @ 0 # le16 typ @ le16 cls
       @ [0xc0, 12, 0, 1, 0, 1, 0, 0, 14, 16, 0, 4] @ le32 addr"

lemma byte_order_constants:
  "le16 (lwip_htons 1) = [0, 1]" "le16 (lwip_htons 4) = [0, 4]" "le16 (lwip_htons (0xc00c)) = [0xc0, 12]"
  "le32 (lwip_htonl 3600) = [0, 0, 14, 16]" "le16 0 = [0, 0]"
  by (simp_all add: le16_def le32_def lwip_htons_def lwip_htonl_def)

text \<open>The callback on a query up to the comparison of the name.\<close>

lemma recv_well_formed:
  assumes hdr: "length tid = 2" "length hdr = 9" "flag1 AND 0x80 = 0" "flag1 AND 0x78 = 0"
    and name: "0 \<notin> set ys" and q: "length query = 4"
      "of_le16 (take 2 query) = lwip_htons 1 \<or> of_le16 (drop 2 query) = lwip_htons 1"
    and msg: "msg = tid @ flag1 # hdr @ ys @ 0 # query @ rest"
  shows "DNSS_RecvCb (\<lambda>n. True) (\<lambda>n. True) srv msg =
     map_option (\<lambda>r. if r \<noteq> 0 then DNSNameErrGenAndSend (\<lambda>n. True) (\<lambda>n. True) query ys tid
       else DNSAnswerGenAndSend (\<lambda>n. True) (\<lambda>n. True) srv query ys tid) (DnsCompareName (DnsName srv) msg 12)"
proof -
  have d12: "drop 12 msg = ys @ 0 # query @ rest"
    using hdr(1,2) by (simp add: msg)
  have b2: "byte_at msg 2 = Some flag1"
    using hdr(1) by (simp add: msg byte_at_def nth_append)
  have strlen: "strlen (drop 12 msg) = Some (length ys)"
    unfolding d12 by (rule strlen_append [OF name])
  have "drop (12 + length ys + 1) msg = query @ rest"
    using arg_cong [OF d12, of "drop (length ys + 1)"] by (simp add: add.commute)
  moreover have "12 + length ys + 1 + 4 \<le> length msg"
    using hdr(1,2) q(1) by (simp add: msg)
  ultimately have get: "mem_get msg (12 + length ys + 1) 4 = Some query"
    using q(1) by (simp add: mem_get_def)
  have take: "take 2 msg = tid" "take (length ys) (drop 12 msg) = ys"
    using hdr(1) by (simp add: msg) (simp add: d12)
  show ?thesis
    using q(2) hdr(3,4) unfolding DNSS_RecvCb_def b2 strlen
    by (auto simp: get [simplified] take [unfolded d12] d12 push_bit_eq_mult Let_def
        split: Option.bind_split option.split)
qed

lemma query_parts:
  "length (le16 typ @ le16 cls) = 4" "of_le16 (take 2 (le16 typ @ le16 cls)) = typ"
  "of_le16 (drop 2 (le16 typ @ le16 cls)) = cls"
  by simp_all

lemma recv_query:
  assumes name: "length name < 32" "0 \<notin> set name" and ls: "ls \<noteq> []" "\<forall>l\<in>set ls. label_ok l"
    and len: "length (dns_labels ls) < 2 ^ 32"
    and hdr: "length tid = 2" "length hdr = 9" "flag1 AND 0x80 = 0" "flag1 AND 0x78 = 0"
    and q: "typ = lwip_htons 1 \<or> cls = lwip_htons 1" and srv: "DnsName srv = name_array name"
  shows "DNSS_RecvCb (\<lambda>n. True) (\<lambda>n. True) srv (dns_query tid flag1 hdr ls typ cls rest) =
     Some (Some (if name_match name ls then dns_answer_reply tid ls typ cls (HostIp srv)
                 else dns_error_reply tid ls typ cls))"
proof -
  let ?msg = "dns_query tid flag1 hdr ls typ cls rest"
  have msg: "?msg = tid @ flag1 # hdr @ dns_labels ls @ 0 # (le16 typ @ le16 cls) @ rest"
    by (simp add: dns_query_def)
  have d12: "drop 12 ?msg = dns_labels ls @ 0 # le16 typ @ le16 cls @ rest"
    using hdr(1,2) by (simp add: dns_query_def)
  have "DnsCompareName (DnsName srv) ?msg 12 = Some (if name_match name ls then 0 else 1)"
    unfolding srv by (rule DnsCompareName_ok [OF name ls len d12])
  moreover have "(0xc000 :: u16) OR 12 = 0xc00c" by simp
  ultimately show ?thesis
    using recv_well_formed [OF hdr labels_no_0 [OF ls(2)] query_parts(1) _ msg, of srv] q
    by (auto simp: query_parts DNSAnswerGenAndSend_def DNSNameErrGenAndSend_def dns_error_reply_def
        dns_answer_reply_def byte_order_constants)
qed

text \<open>The dotted name agrees with its own labels in any case of the letters.\<close>

fun dotted_name :: "u8 list list \<Rightarrow> u8 list" where
  "dotted_name [] = []"
| "dotted_name [l] = l"
| "dotted_name (l # l' # ls) = l @ 0x2e # dotted_name (l' # ls)"

lemma name_match_dotted:
  "list_all2 (list_all2 same_char) ks ls \<Longrightarrow> name_match (dotted_name ks) ls"
  unfolding name_match_def
proof (induction ks arbitrary: ls rule: dotted_name.induct)
  case 1
  then show ?case by simp
next
  case (2 k)
  then show ?case by (auto simp: list_all2_Cons1 match_label)
next
  case (3 k k' ks)
  then obtain l l' ls' where ls: "ls = l # l' # ls'" and l: "list_all2 same_char k l"
    "list_all2 (list_all2 same_char) (k' # ks) (l' # ls')"
    by (auto simp: list_all2_Cons1)
  have "list_all2 char_match k (map Some l)" using l(1) by (simp add: match_label)
  moreover have "list_all2 char_match (0x2e # dotted_name (k' # ks)) (None # dns_pattern (l' # ls'))"
    using 3 (1) [OF l(2)] by (simp only: list.rel_inject) (simp add: char_match_def)
  ultimately show ?case by (simp add: ls list_all2_appendI)
qed

text \<open>C20: after \<open>DNSS_Start\<close> a standard query is answered with the address of the interface when
  its labels agree with the configured name, separators apart, and with a name error otherwise; the
  replies are determined byte by byte.  It is enough that the type or the class fits, so that a
  query for any other type in the Internet class also gets an address record.\<close>

theorem dns_start_answers:
  assumes start: "DNSS_Start sock srv0 (Some (True, addr)) name = (srv, 0)"
    and name: "length name < 32" "0 \<notin> set name"
    and ls: "ls \<noteq> []" "\<forall>l\<in>set ls. label_ok l" "length (dns_labels ls) < 2 ^ 32"
    and hdr: "length tid = 2" "length hdr = 9" "flag1 AND 0x80 = 0" "flag1 AND 0x78 = 0"
    and q: "typ = lwip_htons 1 \<or> cls = lwip_htons 1"
  shows "DNSS_RecvCb (\<lambda>n. True) (\<lambda>n. True) srv (dns_query tid flag1 hdr ls typ cls rest) =
     Some (Some (if name_match name ls then dns_answer_reply tid ls typ cls addr
                 else dns_error_reply tid ls typ cls))"
proof -
  have "DnsName srv = name_array name" "HostIp srv = addr"
    using start name(1) by (auto simp: DNSS_Start_def Let_def name_array_def split: if_splits)
  then show ?thesis using recv_query [OF name ls hdr q, of srv] by simp
qed

lemma dns_start_answers_witness:
  "DNSS_RecvCb (\<lambda>n. True) (\<lambda>n. True) (fst (DNSS_Start (Some 0) dns_server_zero (Some (True, 0x100a8c0)) [0x6e, 0x6c, 0x2e, 0x61]))
     (dns_query [7, 9] 1 [0, 0, 1, 0, 0, 0, 0, 0, 0] [[0x4e, 0x4c], [0x61]] (lwip_htons 28) (lwip_htons 1) [])
   = Some (Some [7, 9, 0x80, 0, 0, 1, 0, 1, 0, 0, 0, 0, 2, 0x4e, 0x4c, 1, 0x61, 0, 0, 28, 0, 1,
       0xc0, 12, 0, 1, 0, 1, 0, 0, 14, 16, 0, 4, 192, 168, 0, 1])"
proof -
  let ?ls = "[[0x4e, 0x4c], [0x61]] :: u8 list list"
  obtain srv where srv: "DNSS_Start (Some 0) dns_server_zero (Some (True, 0x100a8c0)) [0x6e, 0x6c, 0x2e, 0x61] = (srv, 0)"
    by (simp add: DNSS_Start_def)
  have "name_match [0x6e, 0x6c, 0x2e, 0x61] ?ls"
    by (simp add: name_match_def char_match_def Nst_ToUpper_def)
  then show ?thesis
    using dns_start_answers [OF srv, of ?ls "[7, 9]" "[0, 0, 1, 0, 0, 0, 0, 0, 0]" 1 "lwip_htons 28"
        "lwip_htons 1" "[]"] srv
    by (simp add: label_ok_def dns_labels_def dns_answer_reply_def le16_def le32_def lwip_htons_def)
qed

text \<open>\<open>DNSS_Config\<close> accepts a name of 32 characters, which leaves no place for the NUL; the
  comparison with it then reads behind \<open>DnsName\<close>.  A query whose name starts with a compression
  pointer makes the comparison read before \<open>DnsName\<close>.\<close>

theorem dns_name_overread:
  assumes name: "length name = 32" "0 \<notin> set name"
    and hdr: "length tid = 2" "length hdr = 9" "flag1 AND 0x80 = 0" "flag1 AND 0x78 = 0"
    and ptr: "p AND 0xc0 = 0xc0" "q \<noteq> 0"
  shows "snd (DNSS_Config srv (Some name)) = 0
    \<and> DNSS_RecvCb (\<lambda>n. True) (\<lambda>n. True) (fst (DNSS_Config srv (Some name)))
        (dns_query tid flag1 hdr [name] (lwip_htons 1) (lwip_htons 1) rest) = None
    \<and> DNSS_RecvCb (\<lambda>n. True) (\<lambda>n. True) srv
        (tid @ flag1 # hdr @ p # q # 0 # le16 (lwip_htons 1) @ le16 (lwip_htons 1) @ rest) = None"
proof (intro conjI)
  let ?h = "le16 (lwip_htons 1) @ le16 (lwip_htons 1)"
  let ?q = "dns_query tid flag1 hdr [name] (lwip_htons 1) (lwip_htons 1) rest"
  let ?srv = "srv\<lparr>DnsName := name\<rparr>"
  have srv: "DNSS_Config srv (Some name) = (?srv, 0)" using name by (simp add: DNSS_Config_def)
  then show "snd (DNSS_Config srv (Some name)) = 0" by simp
  have d12: "drop 12 ?q = (32 # name) @ 0 # ?h @ rest"
    using hdr name by (simp add: dns_query_def dns_labels_def)
  have strlen: "strlen (drop 12 ?q) = Some 33"
    unfolding d12 using strlen_append [of "32 # name" "?h @ rest"] name by simp
  have "take (length name) (drop 13 ?q) = name" and "drop 45 ?q = 0 # ?h @ rest"
    using arg_cong [OF d12, of "drop 1"] arg_cong [OF d12, of "drop 33"] name by simp_all
  moreover from this have "byte_at ?q 45 = Some 0"
    by (cases "45 < length ?q") (auto simp: byte_at_def dest: nth_via_drop)
  ultimately have "compare_label name ?q 0 13 32 = Some (Some (32, 45))" "byte_at ?q 45 = Some 0"
    using compare_label_ok [of 0 name name 13 ?q] name by (simp_all add: list.rel_refl)
  moreover have "12 < length ?q" "?q ! 12 = 32"
    using d12 by (cases "12 < length ?q"; simp add: nth_via_drop)+
  ultimately have "DnsCompareName name ?q 12 = None"
    using strlen name
    by (simp add: DnsCompareName_def compare_loop.simps [of name ?q] compare_end_def byte_at_def)
  then show "DNSS_RecvCb (\<lambda>n. True) (\<lambda>n. True) (fst (DNSS_Config srv (Some name))) ?q = None"
    using recv_well_formed [OF hdr _ query_parts(1), of "32 # name" "lwip_htons 1" "lwip_htons 1" ?q rest ?srv]
      name by (simp add: srv query_parts dns_query_def dns_labels_def)
  define m where m: "m = tid @ flag1 # hdr @ [p, q] @ 0 # ?h @ rest"
  have p: "p \<noteq> 0" using ptr(1) by auto
  have "drop 12 m = [p, q] @ 0 # ?h @ rest" using hdr by (simp add: m)
  then have "strlen (drop 12 m) = Some 2" "12 < length m" "m ! 12 = p"
    using strlen_append [of "[p, q]" "?h @ rest"] p ptr(2) hdr by (auto simp: m nth_append)
  then have "DnsCompareName (DnsName srv) m 12 = None"
    using ptr(1) by (simp add: DnsCompareName_def compare_loop.simps [of _ m] compare_end_def)
  then have "DNSS_RecvCb (\<lambda>n. True) (\<lambda>n. True) srv m = None"
    using recv_well_formed [OF hdr _ query_parts(1) _ m, of srv] p ptr(2) by (simp add: query_parts)
  then show "DNSS_RecvCb (\<lambda>n. True) (\<lambda>n. True) srv
      (tid @ flag1 # hdr @ p # q # 0 # le16 (lwip_htons 1) @ le16 (lwip_htons 1) @ rest) = None"
    by (simp add: m)
qed

lemma dns_name_overread_witness:
  "DNSS_RecvCb (\<lambda>n. True) (\<lambda>n. True) (fst (DNSS_Config dns_server_zero (Some (replicate 32 0x61))))
     (dns_query [7, 9] 1 (replicate 9 0) [replicate 32 0x61] (lwip_htons 1) (lwip_htons 1) []) = None"
  using dns_name_overread [of "replicate 32 0x61" "[7, 9]" "replicate 9 0" 1 "0xc0" 12 dns_server_zero "[]"] by simp

end
