(* ===== verification/UartRx.thy ===== *)
theory UartRx
  imports RingBuf
begin

text \<open>
  The serial receiver, \<^verbatim>\<open>App/SerialNet/nl6621_uart.c\<close>, with the two parts of \<^verbatim>\<open>serialNet.c\<close> that share
  its state: the frame timer's handler and the check for the escape sequence in
  \<^verbatim>\<open>TestSerialToWifi\<close>.  In data mode a byte goes to the ring buffer, re-arms the frame timer and
  is watched for \<open>+++\<close>; in AT mode a small machine assembles the command line.

  \<open>pCmdLine\<close> is the offset of the pointer from \<open>uart_rec_atcmd\<close>; a write outside of this array is the
  fault \<^term>\<open>None\<close>.  The semaphores are the numbers of their posts, the timer its two registers.
  The remaining settings, and whether a connection exists, are the environment.
\<close>

section \<open>State\<close>

datatype at_stateType =
  at_statIdle | at_statRecving | at_statProcess | at_statIpSending | at_statIpSended | at_statIpTraning

record uart =
  atMode :: u8
  uartrxbuf :: ring_buffer
  atHead :: "u8 \<times> u8"
  pCmdLine :: int
  uart_rec_atcmd :: "u8 list"
  at_state :: at_stateType
  net_sendStart :: u8
  uart_send_flag :: u8
  end_sendFlags :: u8
  Tmr0Ctl :: u32
  Tmr0Load :: u32
  rts_level :: bool
  sendSwitchSem :: nat
  modeSwitchSem :: nat
  uart_busy :: nat

record uart_env =
  frameLength :: u16
  frameGap :: u16
  connected :: bool

section \<open>Receiving a byte\<close>

text \<open>The timer is stopped, loaded and started again.\<close>

definition reset_timer0 :: "uart_env \<Rightarrow> uart \<Rightarrow> uart" where
  "reset_timer0 e s =
     s\<lparr>Tmr0Load := 40000 * ucast (frameGap e), Tmr0Ctl := NOT 4 OR 1 OR 2, net_sendStart := 1\<rparr>"

definition watch_escape :: "u8 \<Rightarrow> uart \<Rightarrow> uart" where
  "watch_escape Dummy s =
     (if Dummy = 0x2b then
        let s = s\<lparr>end_sendFlags := end_sendFlags s + 1\<rparr>
        in if end_sendFlags s = 3 then s\<lparr>modeSwitchSem := modeSwitchSem s + 1\<rparr> else s
      else if end_sendFlags s = 3 \<and> (Dummy = 0x0d \<or> Dummy = 0x0a) then s\<lparr>end_sendFlags := 3\<rparr>
      else s\<lparr>end_sendFlags := 0\<rparr>)"

definition data_mode_recv :: "uart_env \<Rightarrow> uart \<Rightarrow> u8 \<Rightarrow> uart option" where
  "data_mode_recv e s Dummy = do {
     (r, _) \<leftarrow> ring_buf_write_char (uartrxbuf s) Dummy;
     let s = s\<lparr>uartrxbuf := r\<rparr>;
     let s = (if net_sendStart s = 0 then reset_timer0 e s else s);
     let s = (if int (unat (frameLength e)) \<le> ring_buf_cnt r \<and> ring_buf_full r
              then s\<lparr>sendSwitchSem := sendSwitchSem s + 1\<rparr> else s);
     let s = (if 15360 < ring_buf_cnt r \<and> uart_send_flag s = 1 \<and> connected e
              then reset_timer0 e (s\<lparr>uart_send_flag := 0, rts_level := False\<rparr>) else s);
     Some (watch_escape Dummy s)
   }"

text \<open>\<open>*pCmdLine = c\<close>\<close>

definition put_cmd :: "uart \<Rightarrow> int \<Rightarrow> u8 \<Rightarrow> uart option" where
  "put_cmd s p c =
     (if 0 \<le> p \<and> p < int (length (uart_rec_atcmd s))
      then Some (s\<lparr>uart_rec_atcmd := (uart_rec_atcmd s)[nat p := c]\<rparr>) else None)"

definition at_mode_recv :: "uart \<Rightarrow> u8 \<Rightarrow> uart option" where
  "at_mode_recv s Dummy =
     (case at_state s of
        at_statIdle \<Rightarrow>
          let s = s\<lparr>atHead := (snd (atHead s), Dummy)\<rparr>
          in if atHead s = (0x41, 0x54) \<or> atHead s = (0x61, 0x74)
             then Some (s\<lparr>at_state := at_statRecving, pCmdLine := 0, atHead := (fst (atHead s), 0)\<rparr>)
             else Some s
      | at_statRecving \<Rightarrow> do {
          s \<leftarrow> put_cmd s (pCmdLine s) Dummy;
          s \<leftarrow> (if Dummy = 0x0a then do {
                  let s = s\<lparr>pCmdLine := pCmdLine s - 1\<rparr>;
                  s \<leftarrow> put_cmd s (pCmdLine s) 0;
                  Some (s\<lparr>at_state := at_statProcess\<rparr>) }
                else if 200 - 1 \<le> pCmdLine s then Some (s\<lparr>at_state := at_statIdle\<rparr>)
                else Some s);
          Some (s\<lparr>pCmdLine := pCmdLine s + 1\<rparr>) }
      | at_statProcess \<Rightarrow>
          Some (if Dummy = 0x0a then s\<lparr>uart_busy := uart_busy s + 1\<rparr> else s)
      | _ \<Rightarrow> Some s)"

definition uart_data_recv :: "uart_env \<Rightarrow> uart \<Rightarrow> u8 \<Rightarrow> uart option" where
  "uart_data_recv e s Dummy =
     (if atMode s = 1 then data_mode_recv e s Dummy else at_mode_recv s Dummy)"

definition uart_init :: "u32 \<Rightarrow> dmem \<Rightarrow> u8 list \<Rightarrow> uart \<Rightarrow> (dmem \<times> uart) option" where
  "uart_init pool m storage s = do {
     (m', r, _) \<leftarrow> ring_buf_alloc pool m storage (1024 * 20);
     Some (m', s\<lparr>uartrxbuf := r\<rparr>)
   }"

section \<open>The timer handler and the end of data mode\<close>

definition timerFuncProcess :: "uart \<Rightarrow> uart" where
  "timerFuncProcess s =
     (let s = s\<lparr>sendSwitchSem := sendSwitchSem s + 1\<rparr>
      in if uart_send_flag s \<noteq> 0 then s\<lparr>Tmr0Ctl := 4\<rparr> else s)"

text \<open>What \<open>TestSerialToWifi\<close> does a second after \<open>modeSwitchSem\<close> was posted.\<close>

definition leave_data_mode :: "uart \<Rightarrow> uart" where
  "leave_data_mode s =
     (if end_sendFlags s = 3
      then s\<lparr>end_sendFlags := 0, net_sendStart := 0, atMode := 0, uartrxbuf := ring_buf_clear (uartrxbuf s),
             sendSwitchSem := sendSwitchSem s + 1, at_state := at_statIdle\<rparr>
      else s)"

section \<open>Sequences of bytes\<close>

fun recv_all :: "uart_env \<Rightarrow> uart \<Rightarrow> u8 list \<Rightarrow> uart option" where
  "recv_all e s [] = Some s"
| "recv_all e s (c # cs) = do { s \<leftarrow> uart_data_recv e s c; recv_all e s cs }"

lemma recv_all_append: "recv_all e s (cs @ ds) = do { s \<leftarrow> recv_all e s cs; recv_all e s ds }"
  by (induction cs arbitrary: s) (auto split: Option.bind_split)

section \<open>Invariant\<close>

definition uart_ok :: "uart \<Rightarrow> bool" where
  "uart_ok s \<longleftrightarrow> ring_ok (uartrxbuf s) \<and> length (uart_rec_atcmd s) = 200
     \<and> (at_state s = at_statRecving \<longrightarrow> 0 \<le> pCmdLine s \<and> pCmdLine s < 200)"

text \<open>Every event that touches the state: a byte, the timer, the end of data mode, and the command
  task, which may rewrite the command line and the mode but not grow the array.\<close>

inductive uart_reach :: "uart \<Rightarrow> uart \<Rightarrow> bool" for s0 where
  start: "uart_reach s0 s0"
| recv: "uart_reach s0 s \<Longrightarrow> uart_data_recv e s c = Some s' \<Longrightarrow> uart_reach s0 s'"
| timer: "uart_reach s0 s \<Longrightarrow> uart_reach s0 (timerFuncProcess s)"
| leave: "uart_reach s0 s \<Longrightarrow> uart_reach s0 (leave_data_mode s)"
| command: "uart_reach s0 s \<Longrightarrow> at_state s = at_statProcess \<Longrightarrow> length line = length (uart_rec_atcmd s) \<Longrightarrow>
    uart_reach s0 (s\<lparr>uart_rec_atcmd := line, atMode := mode, at_state := at_statIdle\<rparr>)"

definition recv_faults :: "uart \<Rightarrow> u8 \<Rightarrow> bool" where
  "recv_faults s c \<longleftrightarrow> atMode s \<noteq> 1 \<and> at_state s = at_statRecving \<and> pCmdLine s = 0 \<and> c = 0x0a"

lemma data_mode_recv_ok:
  assumes "uart_ok s"
  shows "\<exists>s'. data_mode_recv e s c = Some s' \<and> uart_ok s' \<and> atMode s' = atMode s
    \<and> capacity (uartrxbuf s') = capacity (uartrxbuf s)
    \<and> contents (uartrxbuf s') = (if length (contents (uartrxbuf s)) < capacity (uartrxbuf s)
        then contents (uartrxbuf s) @ [c] else contents (uartrxbuf s))
    \<and> end_sendFlags s' = (if c = 0x2b then end_sendFlags s + 1
        else if end_sendFlags s = 3 \<and> (c = 0x0d \<or> c = 0x0a) then 3 else 0)
    \<and> modeSwitchSem s' = modeSwitchSem s + (if c = 0x2b \<and> end_sendFlags s + 1 = 3 then 1 else 0)"
proof -
  from ring_buf_write_char_ok [of "uartrxbuf s" c] assms obtain r where
    "ring_buf_write_char (uartrxbuf s) c = Some (r, length (contents (uartrxbuf s)) < capacity (uartrxbuf s))"
    "ring_ok r" "capacity r = capacity (uartrxbuf s)"
    "contents r = (if length (contents (uartrxbuf s)) < capacity (uartrxbuf s)
        then contents (uartrxbuf s) @ [c] else contents (uartrxbuf s))"
    by (auto simp: uart_ok_def)
  then show ?thesis using assms
    by (auto simp: data_mode_recv_def Let_def watch_escape_def reset_timer0_def uart_ok_def)
qed

lemma at_mode_recv_ok:
  assumes "uart_ok s" and "atMode s \<noteq> 1"
  shows "if recv_faults s c then at_mode_recv s c = None
    else \<exists>s'. at_mode_recv s c = Some s' \<and> uart_ok s'"
  using assms
  by (cases "at_state s") (auto simp: at_mode_recv_def Let_def uart_ok_def recv_faults_def put_cmd_def)

lemma uart_data_recv_ok:
  "uart_ok s \<Longrightarrow> if recv_faults s c then uart_data_recv e s c = None
     else \<exists>s'. uart_data_recv e s c = Some s' \<and> uart_ok s'"
  using at_mode_recv_ok [of s c] data_mode_recv_ok [of s e c]
  by (auto simp: uart_data_recv_def recv_faults_def split: if_splits)

lemma leave_data_mode_ok: "uart_ok s \<Longrightarrow> uart_ok (leave_data_mode s)"
  using ring_buf_clear_ok [of "uartrxbuf s"] by (auto simp: leave_data_mode_def uart_ok_def)

lemma uart_reach_ok: "uart_reach s0 s \<Longrightarrow> uart_ok s0 \<Longrightarrow> uart_ok s"
proof (induction rule: uart_reach.induct)
  case (recv s e c s')
  then show ?case using uart_data_recv_ok [of s c e] by (auto split: if_splits)
next
  case (timer s)
  then show ?case by (simp add: uart_ok_def timerFuncProcess_def Let_def)
next
  case (leave s)
  then show ?case by (blast intro: leave_data_mode_ok)
next
  case (command s line mode)
  then show ?case by (simp add: uart_ok_def)
qed

section \<open>The command line\<close>

text \<open>The bytes in front of a command: no \<open>AT\<close> or \<open>at\<close> among them.\<close>

definition at_head :: "u8 \<Rightarrow> u8 \<Rightarrow> bool" where
  "at_head a b \<longleftrightarrow> a = 0x41 \<and> b = 0x54 \<or> a = 0x61 \<and> b = 0x74"

fun at_free :: "u8 \<Rightarrow> u8 list \<Rightarrow> bool" where
  "at_free h [] = True"
| "at_free h (c # cs) = (\<not> at_head h c \<and> at_free c cs)"

lemma recv_noise:
  "atMode s \<noteq> 1 \<Longrightarrow> at_state s = at_statIdle \<Longrightarrow> at_free (snd (atHead s)) cs \<Longrightarrow>
     \<exists>h. recv_all e s cs = Some (s\<lparr>atHead := h\<rparr>)
       \<and> snd h = (if cs = [] then snd (atHead s) else last cs)"
proof (induction cs arbitrary: s)
  case Nil
  then show ?case by (intro exI [of _ "atHead s"]) simp
next
  case (Cons c cs)
  let ?s = "s\<lparr>atHead := (snd (atHead s), c)\<rparr>"
  have step: "uart_data_recv e s c = Some ?s"
    using Cons.prems by (auto simp: uart_data_recv_def at_mode_recv_def at_head_def)
  have "\<exists>h. recv_all e ?s cs = Some (?s\<lparr>atHead := h\<rparr>) \<and> snd h = (if cs = [] then snd (atHead ?s) else last cs)"
    by (rule Cons.IH) (use Cons.prems in simp_all)
  then show ?case by (auto simp: step)
qed

lemma recv_head:
  assumes "atMode s \<noteq> 1" "at_state s = at_statIdle" "at_head a b" "\<not> at_head (snd (atHead s)) a"
  shows "recv_all e s [a, b] = Some (s\<lparr>atHead := (a, 0), at_state := at_statRecving, pCmdLine := 0\<rparr>)"
proof -
  let ?s = "s\<lparr>atHead := (snd (atHead s), a)\<rparr>"
  have "uart_data_recv e s a = Some ?s"
    using assms by (auto simp: uart_data_recv_def at_mode_recv_def at_head_def)
  moreover have "uart_data_recv e ?s b = Some (s\<lparr>atHead := (a, 0), at_state := at_statRecving, pCmdLine := 0\<rparr>)"
    using assms by (auto simp: uart_data_recv_def at_mode_recv_def at_head_def)
  ultimately show ?thesis by simp
qed

lemma recv_line:
  "atMode s \<noteq> 1 \<Longrightarrow> at_state s = at_statRecving \<Longrightarrow> length (uart_rec_atcmd s) = 200 \<Longrightarrow>
     pCmdLine s = int k \<Longrightarrow> k + length cs < 200 \<Longrightarrow> 0x0a \<notin> set cs \<Longrightarrow>
     recv_all e s cs = Some (s\<lparr>pCmdLine := int (k + length cs),
       uart_rec_atcmd := take k (uart_rec_atcmd s) @ cs @ drop (k + length cs) (uart_rec_atcmd s)\<rparr>)"
proof (induction cs arbitrary: s k)
  case Nil
  then show ?case by simp
next
  case (Cons c cs)
  let ?b = "(uart_rec_atcmd s)[k := c]"
  let ?s = "s\<lparr>uart_rec_atcmd := ?b, pCmdLine := int (Suc k)\<rparr>"
  have step: "uart_data_recv e s c = Some ?s"
    using Cons.prems by (auto simp: uart_data_recv_def at_mode_recv_def put_cmd_def)
  have "recv_all e ?s cs = Some (?s\<lparr>pCmdLine := int (Suc k + length cs),
      uart_rec_atcmd := take (Suc k) ?b @ cs @ drop (Suc k + length cs) ?b\<rparr>)"
    using Cons.IH [of ?s "Suc k"] Cons.prems by simp
  moreover have "take (Suc k) ?b = take k (uart_rec_atcmd s) @ [c]"
    using Cons.prems by (simp add: take_Suc_conv_app_nth)
  ultimately show ?case by (simp add: step)
qed


text \<open>The end of the line: the byte before the newline is overwritten with NUL.\<close>

lemma recv_newline:
  assumes "atMode s \<noteq> 1" "at_state s = at_statRecving" "length (uart_rec_atcmd s) = 200"
    and "pCmdLine s = int (Suc k)" "Suc k < 200"
  shows "uart_data_recv e s 0x0a = Some (s\<lparr>at_state := at_statProcess, pCmdLine := int (Suc k),
    uart_rec_atcmd := (uart_rec_atcmd s)[Suc k := 0x0a, k := 0]\<rparr>)"
  using assms by (simp add: uart_data_recv_def at_mode_recv_def put_cmd_def Let_def nat_add_distrib)

section \<open>Properties\<close>

text \<open>C21: a command line is assembled: after any bytes without \<open>AT\<close>, the prefix \<open>AT\<close> or \<open>at\<close>, the
  command and CR LF leave exactly the command, NUL-terminated, at the start of the line buffer, hand
  it to the command task and change nothing of the data path.\<close>

theorem uart_at_line:
  assumes s: "uart_ok s" "atMode s \<noteq> 1" "at_state s = at_statIdle"
    and noise: "at_free (snd (atHead s)) (noise @ [a])" and head: "at_head a b"
    and cmd: "length cmd < 199" "0x0a \<notin> set cmd"
  shows "\<exists>s'. recv_all e s (noise @ [a, b] @ cmd @ [0x0d, 0x0a]) = Some s'
    \<and> at_state s' = at_statProcess
    \<and> take (length cmd + 1) (uart_rec_atcmd s') = cmd @ [0]
    \<and> uartrxbuf s' = uartrxbuf s \<and> end_sendFlags s' = end_sendFlags s
    \<and> net_sendStart s' = net_sendStart s \<and> uart_send_flag s' = uart_send_flag s"
proof -
  have "at_free h (xs @ ys) \<longleftrightarrow> at_free h xs \<and> at_free (if xs = [] then h else last xs) ys" for h xs ys
    by (induction xs arbitrary: h) auto
  with noise have free: "at_free (snd (atHead s)) noise"
    "\<not> at_head (if noise = [] then snd (atHead s) else last noise) a" by auto
  from recv_noise [OF s(2,3) free(1), of e] obtain h where
    h: "recv_all e s noise = Some (s\<lparr>atHead := h\<rparr>)"
      "snd h = (if noise = [] then snd (atHead s) else last noise)" by blast
  let ?s1 = "s\<lparr>atHead := (a, 0), at_state := at_statRecving, pCmdLine := 0\<rparr>"
  have 1: "recv_all e (s\<lparr>atHead := h\<rparr>) [a, b] = Some ?s1"
    using recv_head [of "s\<lparr>atHead := h\<rparr>" a b e] s head free(2) h(2) by simp
  let ?n = "length cmd" and ?b = "uart_rec_atcmd s"
  have len: "length ?b = 200" using s(1) by (simp add: uart_ok_def)
  let ?b2 = "cmd @ [0x0d] @ drop (?n + 1) ?b"
  let ?s2 = "?s1\<lparr>pCmdLine := int (Suc ?n), uart_rec_atcmd := ?b2\<rparr>"
  have 2: "recv_all e ?s1 (cmd @ [0x0d]) = Some ?s2"
    using recv_line [of ?s1 0 "cmd @ [0x0d]" e] s cmd len by simp
  have 3: "uart_data_recv e ?s2 0x0a = Some (?s2\<lparr>at_state := at_statProcess, pCmdLine := int (Suc ?n),
      uart_rec_atcmd := (uart_rec_atcmd ?s2)[Suc ?n := 0x0a, ?n := 0]\<rparr>)"
    by (rule recv_newline) (use s cmd len in simp_all)
  have "recv_all e s (noise @ [a, b] @ (cmd @ [0x0d]) @ [0x0a]) =
      Some (?s2\<lparr>at_state := at_statProcess, pCmdLine := int (Suc ?n), uart_rec_atcmd := ?b2[Suc ?n := 0x0a, ?n := 0]\<rparr>)"
    unfolding recv_all_append [of e _ noise] recv_all_append [of e _ "[a, b]"]
      recv_all_append [of e _ "cmd @ [0x0d]"] h(1) bind.bind_lunit 1 2
    using 3 by simp
  moreover have "take (?n + 1) (?b2[Suc ?n := 0x0a, ?n := 0]) = cmd @ [0]"
    using cmd len by (simp add: list_update_append)
  ultimately show ?thesis by simp
qed

text \<open>Along every history of bytes, timer events, mode switches and command processing the receiver
  stays inside its buffers, with one exception: a newline right behind \<open>AT\<close> is written as NUL in
  front of \<open>uart_rec_atcmd\<close>.\<close>

theorem uart_recv_fault_iff:
  assumes "uart_ok s0" "uart_reach s0 s"
  shows "uart_data_recv e s c = None \<longleftrightarrow>
    atMode s \<noteq> 1 \<and> at_state s = at_statRecving \<and> pCmdLine s = 0 \<and> c = 0x0a"
  using uart_data_recv_ok [OF uart_reach_ok [OF assms(2,1)], of c e]
  by (auto simp: recv_faults_def split: if_splits)

lemma recv_data:
  "uart_ok s \<Longrightarrow> atMode s = 1 \<Longrightarrow> length (contents (uartrxbuf s)) + length cs \<le> capacity (uartrxbuf s) \<Longrightarrow>
     \<exists>s'. recv_all e s cs = Some s' \<and> uart_ok s' \<and> atMode s' = 1
       \<and> capacity (uartrxbuf s') = capacity (uartrxbuf s)
       \<and> contents (uartrxbuf s') = contents (uartrxbuf s) @ cs"
proof (induction cs arbitrary: s)
  case (Cons c cs)
  from data_mode_recv_ok [OF Cons.prems(1), of e c] Cons.prems obtain s1 where
    s1: "uart_data_recv e s c = Some s1" "uart_ok s1" "atMode s1 = 1"
      "capacity (uartrxbuf s1) = capacity (uartrxbuf s)" "contents (uartrxbuf s1) = contents (uartrxbuf s) @ [c]"
    by (auto simp: uart_data_recv_def)
  then show ?case using Cons.IH [of s1] Cons.prems by simp
qed simp

lemma recv_plus:
  "uart_ok s \<Longrightarrow> atMode s = 1 \<Longrightarrow> end_sendFlags s = of_nat j \<Longrightarrow> j + k < 256 \<Longrightarrow>
     \<exists>s'. recv_all e s (replicate k 0x2b) = Some s' \<and> end_sendFlags s' = of_nat (j + k)
       \<and> modeSwitchSem s' = modeSwitchSem s + (if j < 3 \<and> 3 \<le> j + k then 1 else 0)"
proof (induction k arbitrary: s j)
  case (Suc k)
  from data_mode_recv_ok [OF Suc.prems(1), of e "0x2b"] Suc.prems obtain s1 where
    s1: "uart_data_recv e s 0x2b = Some s1" "uart_ok s1" "atMode s1 = 1" "end_sendFlags s1 = of_nat (Suc j)"
      "modeSwitchSem s1 = modeSwitchSem s + (if (of_nat (Suc j) :: u8) = 3 then 1 else 0)"
    by (auto simp: uart_data_recv_def add.commute)
  have "(of_nat (Suc j) :: u8) = 3 \<longleftrightarrow> Suc j = 3"
  proof -
    have "unat (of_nat (Suc j) :: u8) = Suc j"
      using Suc.prems(4) by (simp add: unat_of_nat del: of_nat_Suc)
    then show ?thesis by (auto simp: word_unat_eq_iff simp del: of_nat_Suc)
  qed
  then show ?case using Suc.IH [of s1 "Suc j"] Suc.prems s1 by auto
qed simp


text \<open>In data mode bytes enter the ring in order as long as it has room, the escape sequence too,
  and behind any other byte than a line end \<open>k\<close> plus signs leave the counter at \<open>k\<close> and wake the
  mode switch when the third arrives.\<close>

theorem uart_data_mode:
  assumes s: "uart_ok s" "atMode s = 1"
    and room: "length (contents (uartrxbuf s)) + length (xs @ [c] @ replicate k 0x2b) \<le> capacity (uartrxbuf s)"
    and c: "c \<notin> {0x2b, 0x0d, 0x0a}" and k: "k < 256"
  shows "\<exists>s1 s'. recv_all e s (xs @ [c]) = Some s1
    \<and> recv_all e s1 (replicate k 0x2b) = Some s'
    \<and> contents (uartrxbuf s') = contents (uartrxbuf s) @ xs @ [c] @ replicate k 0x2b
    \<and> end_sendFlags s' = of_nat k
    \<and> modeSwitchSem s' = modeSwitchSem s1 + (if 3 \<le> k then 1 else 0)
    \<and> (leave_data_mode s' = s' \<longleftrightarrow> k \<noteq> 3)"
proof -
  from recv_data [OF s, of xs e] room obtain s0 where
    s0: "recv_all e s xs = Some s0" "uart_ok s0" "atMode s0 = 1" "capacity (uartrxbuf s0) = capacity (uartrxbuf s)"
      "contents (uartrxbuf s0) = contents (uartrxbuf s) @ xs" by auto
  from data_mode_recv_ok [OF s0(2), of e c] s0 room c obtain s1 where
    s1: "uart_data_recv e s0 c = Some s1" "uart_ok s1" "atMode s1 = 1" "capacity (uartrxbuf s1) = capacity (uartrxbuf s)"
      "contents (uartrxbuf s1) = contents (uartrxbuf s) @ xs @ [c]" "end_sendFlags s1 = of_nat 0"
    by (auto simp: uart_data_recv_def)
  from recv_data [OF s1(2,3), of "replicate k 0x2b" e] room s1 obtain s' where
    s': "recv_all e s1 (replicate k 0x2b) = Some s'" "atMode s' = 1"
      "contents (uartrxbuf s') = contents (uartrxbuf s) @ xs @ [c] @ replicate k 0x2b" by auto
  with recv_plus [OF s1(2,3,6), of k e] k have
    e: "end_sendFlags s' = of_nat k" "modeSwitchSem s' = modeSwitchSem s1 + (if 3 \<le> k then 1 else 0)" by auto
  have "(of_nat k :: u8) = 3 \<longleftrightarrow> k = 3"
    using k by (auto simp: word_unat_eq_iff unat_of_nat)
  moreover have "leave_data_mode s' = s' \<longleftrightarrow> end_sendFlags s' \<noteq> 3"
  proof
    assume "leave_data_mode s' = s'"
    then have "atMode (leave_data_mode s') = 1" using s'(2) by simp
    then show "end_sendFlags s' \<noteq> 3" by (auto simp: leave_data_mode_def)
  qed (simp add: leave_data_mode_def)
  ultimately have "leave_data_mode s' = s' \<longleftrightarrow> k \<noteq> 3" using e by simp
  then show ?thesis using s0 s1 s' e by (auto simp: recv_all_append)
qed

text \<open>The receiver at power-on, with an empty ring, in one of the two modes.\<close>

definition uart_example :: "u8 \<Rightarrow> uart" where
  "uart_example mode = \<lparr>atMode = mode, uartrxbuf = \<lparr>rb_size = 16, rb_head = 0, rb_tail = 0, rb_buffer = replicate 16 0\<rparr>,
     atHead = (0, 0), pCmdLine = 0, uart_rec_atcmd = replicate 200 0, at_state = at_statIdle,
     net_sendStart = 0, uart_send_flag = 1, end_sendFlags = 0, Tmr0Ctl = 4, Tmr0Load = 0, rts_level = True,
     sendSwitchSem = 0, modeSwitchSem = 0, uart_busy = 0\<rparr>"

lemma uart_example_ok: "uart_ok (uart_example mode)"
  by (simp add: uart_ok_def uart_example_def ring_ok_def)

lemma uart_at_line_witness:
  "\<exists>s'. recv_all \<lparr>frameLength = 256, frameGap = 10, connected = True\<rparr> (uart_example 0)
      ([0x0a, 0x41] @ [0x41, 0x54] @ [0x2b, 0x56] @ [0x0d, 0x0a]) = Some s'
    \<and> at_state s' = at_statProcess \<and> take 3 (uart_rec_atcmd s') = [0x2b, 0x56, 0]"
  using uart_at_line [OF uart_example_ok, of 0 "[0x0a, 0x41]" "0x41" "0x54" "[0x2b, 0x56]"
      "\<lparr>frameLength = 256, frameGap = 10, connected = True\<rparr>"]
  by (auto simp: uart_example_def at_head_def numeral_3_eq_3)

lemma uart_recv_fault_iff_witness:
  "\<exists>s. recv_all \<lparr>frameLength = 256, frameGap = 10, connected = True\<rparr> (uart_example 0) [0x41, 0x54] = Some s
    \<and> uart_data_recv \<lparr>frameLength = 256, frameGap = 10, connected = True\<rparr> s 0x0a = None"
proof -
  let ?e = "\<lparr>frameLength = 256, frameGap = 10, connected = True\<rparr>" and ?s = "uart_example 0"
  obtain s1 where s1: "uart_data_recv ?e ?s 0x41 = Some s1" "atMode s1 = 0" "at_state s1 = at_statIdle"
    "atHead s1 = (0, 0x41)"
    by (simp add: uart_data_recv_def at_mode_recv_def uart_example_def)
  then obtain s2 where s2: "uart_data_recv ?e s1 0x54 = Some s2" "atMode s2 = 0"
    "at_state s2 = at_statRecving" "pCmdLine s2 = 0"
    by (simp add: uart_data_recv_def at_mode_recv_def)
  have "uart_reach ?s s2"
    by (rule uart_reach.recv [OF uart_reach.recv [OF uart_reach.start s1(1)] s2(1)])
  then have "uart_data_recv ?e s2 0x0a = None"
    using uart_recv_fault_iff [OF uart_example_ok, of 0 s2 ?e "0x0a"] s2 by simp
  then show ?thesis using s1 s2 by auto
qed

lemma uart_data_mode_witness:
  "\<exists>s1 s'. recv_all \<lparr>frameLength = 256, frameGap = 10, connected = True\<rparr> (uart_example 1) [7, 8] = Some s1
    \<and> recv_all \<lparr>frameLength = 256, frameGap = 10, connected = True\<rparr> s1 [0x2b, 0x2b, 0x2b] = Some s'
    \<and> contents (uartrxbuf s') = [7, 8, 0x2b, 0x2b, 0x2b] \<and> end_sendFlags s' = 3
    \<and> modeSwitchSem s' = modeSwitchSem s1 + 1"
proof -
  have "contents (uartrxbuf (uart_example 1)) = []" "capacity (uartrxbuf (uart_example 1)) = 15"
    by (simp_all add: uart_example_def contents_def capacity_def)
  then show ?thesis
    using uart_data_mode [OF uart_example_ok, of 1 "[7]" 8 3
        "\<lparr>frameLength = 256, frameGap = 10, connected = True\<rparr>"]
    by (auto simp: uart_example_def numeral_3_eq_3)
qed

end
