(* ===== verification/Params.thy ===== *)
theory Params
  imports Prelude "HOL-Library.Signed_Division"
begin

text \<open>
  The system parameters and the control interface of the firmware, \<^verbatim>\<open>Sys/param.c\<close>.  \<open>SysParam\<close> is
  a record with the arrays as byte lists of their C lengths; the requests to the WiFi
  task, which \<open>PostTaskMsg\<close> queues, are the list of their identifiers and bodies.  An operation
  returns the state and the result code; a read behind the caller's buffer is the fault \<^term>\<open>None\<close>.
  Pointers that only travel inside a message are 32-bit addresses.
\<close>

section \<open>State\<close>

record wifi_cfg =
  Ssid :: "u8 list"
  SSIDBrdEnable :: u8
  PhyMode :: u8
  Channel :: u8
  Encry :: u8
  AuthMode :: u8
  Protocol :: u8
  KeyLength :: u8
  KeyIndex :: u8
  PSK :: "u8 list"
  WscEn :: u8
  ConTryTimes :: u8
  WmmEn :: u8

record ip_cfg =
  Ip :: "u8 list"
  Netmask :: "u8 list"
  GateWay :: "u8 list"
  Dns :: "u8 list"
  bDhcp :: u8
  DhcpTryTimes :: u8
  Res_2 :: "u8 list"

record cfg_param =
  WiFiCfg :: wifi_cfg
  IPCfg :: ip_cfg
  bDhcpServer :: u8
  bDnsServer :: u8
  cfg_DnsName :: "u8 list"
  Res_3 :: u8

datatype mlme_id =
  MLME_SCAN_REQUEST_ID | MLME_DIRECT_CFG_ID | MLME_START_ID | MLME_STOP_ID | MLME_PS_MODE_SET_ID
  | MLME_DEEP_SLEEP_SET_ID | MLME_TX_RATE_SET_ID | MLME_TX_PWR_LEVEL_SET_ID | MLME_AUTO_WAKEUP_ID
  | MLME_BCN_PRD_SET_ID | MLME_LISTEN_INTVL_SET_ID | MLME_PEER_AGE_OUT_SET_ID | MLME_PEER_KICK_OUT_ID
  | MLME_PROTECT_MODE_SET_ID | MLME_WPS_START_SET_ID | MLME_WPS_STOP_SET_ID | MLME_SNIFFER_START_ID
  | MLME_VENDOR_IE_SET_ID

record sys =
  SysParam :: cfg_param
  PermanentAddress :: "u8 list"
  SysEvtCB :: u32
  mac_msgs :: "(mlme_id \<times> u8 list) list"

abbreviation upd_wifi :: "(wifi_cfg \<Rightarrow> wifi_cfg) \<Rightarrow> sys \<Rightarrow> sys" where
  "upd_wifi f s \<equiv> s\<lparr>SysParam := (SysParam s)\<lparr>WiFiCfg := f (WiFiCfg (SysParam s))\<rparr>\<rparr>"

abbreviation wifi :: "sys \<Rightarrow> wifi_cfg" where
  "wifi s \<equiv> WiFiCfg (SysParam s)"

text \<open>\<open>PostTaskMsg\<close> copies the body into the message, so it is a value here.\<close>

definition PostTaskMsg :: "mlme_id \<Rightarrow> u8 list \<Rightarrow> sys \<Rightarrow> sys" where
  "PostTaskMsg i body s = s\<lparr>mac_msgs := mac_msgs s @ [(i, body)]\<rparr>"

section \<open>Configuration\<close>

definition hex_lower :: "u8 \<Rightarrow> u8" where
  "hex_lower d = (if d < 10 then 0x30 + d else 0x61 + (d - 10))"

text \<open>\<open>%02x\<close> of a byte.\<close>

definition fmt_02x :: "u8 \<Rightarrow> u8 list" where
  "fmt_02x b = [hex_lower (drop_bit 4 b), hex_lower (b AND 0xf)]"

definition pad :: "nat \<Rightarrow> u8 list \<Rightarrow> u8 list" where
  "pad n xs = xs @ replicate (n - length xs) 0"

definition InfLoadDefaultParam :: "sys \<Rightarrow> sys" where
  "InfLoadDefaultParam s = s\<lparr>SysParam := \<lparr>
     WiFiCfg = \<lparr>
       Ssid = pad 33 ([0x6e, 0x75, 0x61, 0x70] @ fmt_02x (PermanentAddress s ! 3)
         @ fmt_02x (PermanentAddress s ! 4) @ fmt_02x (PermanentAddress s ! 5)),
       SSIDBrdEnable = 1, PhyMode = 0, Channel = 11, Encry = 0, AuthMode = 0, Protocol = 2,
       KeyLength = 10, KeyIndex = 0,
       PSK = pad 64 [0x31, 0x32, 0x33, 0x34, 0x35, 0x36, 0x37, 0x38, 0x39, 0x30],
       WscEn = 0, ConTryTimes = 0, WmmEn = 0\<rparr>,
     IPCfg = \<lparr>
       Ip = [192, 168, 0, 1], Netmask = [255, 255, 255, 0], GateWay = [192, 168, 0, 1],
       Dns = [192, 168, 0, 1], bDhcp = 1, DhcpTryTimes = 0, Res_2 = [0, 0]\<rparr>,
     bDhcpServer = 1, bDnsServer = 1,
     cfg_DnsName = pad 33 [0x6c, 0x6f, 0x63, 0x61, 0x6c, 0x2e, 0x6e, 0x75, 0x66, 0x72, 0x6f, 0x6e, 0x74],
     Res_3 = 0\<rparr>\<rparr>"

definition InfConfigQuery :: "sys \<Rightarrow> bool \<Rightarrow> cfg_param option \<times> int" where
  "InfConfigQuery s pParam = (if \<not> pParam then (None, -1) else (Some (SysParam s), 0))"

definition InfNetModeSet :: "u8 \<Rightarrow> sys \<Rightarrow> sys \<times> int" where
  "InfNetModeSet Mode s = (if 3 \<le> Mode then (s, -1) else (upd_wifi (\<lambda>w. w\<lparr>Protocol := Mode\<rparr>) s, 0))"

definition InfPhyModeSet :: "u8 \<Rightarrow> sys \<Rightarrow> sys \<times> int" where
  "InfPhyModeSet Mode s = (if 3 \<le> Mode then (s, -1) else (upd_wifi (\<lambda>w. w\<lparr>PhyMode := Mode\<rparr>) s, 0))"

text \<open>Copying \<open>n\<close> bytes from the caller's buffer into an array.\<close>

definition copy_in :: "u8 list \<Rightarrow> u8 list \<Rightarrow> nat \<Rightarrow> u8 list option" where
  "copy_in arr buf n = do { xs \<leftarrow> mem_get buf 0 n; mem_put arr 0 xs }"

definition InfSsidSet :: "u8 list option \<Rightarrow> u8 \<Rightarrow> sys \<Rightarrow> (sys \<times> int) option" where
  "InfSsidSet pSsid SsidLen s =
     (case pSsid of
        Some buf \<Rightarrow>
          if 32 < SsidLen \<or> SsidLen = 0
          then Some (upd_wifi (\<lambda>w. w\<lparr>Ssid := (Ssid w)[0 := 0]\<rparr>) s, -1)
          else do {
            arr \<leftarrow> copy_in (Ssid (wifi s)) buf (unat SsidLen);
            Some (upd_wifi (\<lambda>w. w\<lparr>Ssid := arr[unat SsidLen := 0]\<rparr>) s, 0) }
      | None \<Rightarrow> Some (upd_wifi (\<lambda>w. w\<lparr>Ssid := (Ssid w)[0 := 0]\<rparr>) s, -1))"

definition InfSsidBrdcastSet :: "u8 \<Rightarrow> sys \<Rightarrow> sys \<times> int" where
  "InfSsidBrdcastSet Enable s = (upd_wifi (\<lambda>w. w\<lparr>SSIDBrdEnable := if Enable \<noteq> 0 then 1 else 0\<rparr>) s, 0)"

definition InfChannelSet :: "u8 \<Rightarrow> sys \<Rightarrow> sys \<times> int" where
  "InfChannelSet Ch s =
     (if Ch < 1 \<or> 13 < Ch then (s, -1) else (upd_wifi (\<lambda>w. w\<lparr>Channel := Ch\<rparr>) s, 0))"

definition InfEncModeSet :: "u8 \<Rightarrow> sys \<Rightarrow> sys \<times> int" where
  "InfEncModeSet EncMode s =
     (if 5 \<le> EncMode then (s, -1) else (upd_wifi (\<lambda>w. w\<lparr>Encry := EncMode\<rparr>) s, 0))"

definition InfAuthModeSet :: "u8 \<Rightarrow> sys \<Rightarrow> sys \<times> int" where
  "InfAuthModeSet AMode s =
     (if 4 \<le> AMode then (s, -1) else (upd_wifi (\<lambda>w. w\<lparr>AuthMode := AMode\<rparr>) s, 0))"

definition InfKeySet :: "u8 \<Rightarrow> u8 list option \<Rightarrow> u8 \<Rightarrow> sys \<Rightarrow> (sys \<times> int) option" where
  "InfKeySet Index KeyBuf KeyLen s =
     (case KeyBuf of
        None \<Rightarrow> Some (s, -1)
      | Some buf \<Rightarrow>
          if 3 < Index \<or> 64 < KeyLen then Some (s, -1)
          else do {
            arr \<leftarrow> copy_in (PSK (wifi s)) buf (unat KeyLen);
            let arr = (if KeyLen < 64 then arr[unat KeyLen := 0] else arr);
            Some (upd_wifi (\<lambda>w. w\<lparr>KeyIndex := Index, KeyLength := KeyLen, PSK := arr\<rparr>) s, 0) })"

definition InfConTryTimesSet :: "u8 \<Rightarrow> sys \<Rightarrow> sys \<times> int" where
  "InfConTryTimesSet TryTimes s = (upd_wifi (\<lambda>w. w\<lparr>ConTryTimes := TryTimes\<rparr>) s, 0)"

definition InfWmmEnableSet :: "u8 \<Rightarrow> sys \<Rightarrow> sys \<times> int" where
  "InfWmmEnableSet Enable s = (upd_wifi (\<lambda>w. w\<lparr>WmmEn := Enable\<rparr>) s, 0)"

definition InfWscEnSet :: "u8 \<Rightarrow> sys \<Rightarrow> sys \<times> int" where
  "InfWscEnSet En s = (upd_wifi (\<lambda>w. w\<lparr>WscEn := En\<rparr>) s, 0)"

definition InfIpSet :: "ip_cfg option \<Rightarrow> sys \<Rightarrow> sys \<times> int" where
  "InfIpSet IpParam s =
     (case IpParam of None \<Rightarrow> (s, -1)
      | Some ip \<Rightarrow> (s\<lparr>SysParam := (SysParam s)\<lparr>IPCfg := ip\<rparr>\<rparr>, 0))"

definition InfDhcpSrvSet :: "u8 \<Rightarrow> sys \<Rightarrow> sys \<times> int" where
  "InfDhcpSrvSet Enable s =
     (s\<lparr>SysParam := (SysParam s)\<lparr>bDhcpServer := if Enable \<noteq> 0 then 1 else 0\<rparr>\<rparr>, 0)"

definition InfDnsSrvSet :: "u8 \<Rightarrow> u8 list option \<Rightarrow> u8 \<Rightarrow> sys \<Rightarrow> (sys \<times> int) option" where
  "InfDnsSrvSet Enable DName DnsNameLen s =
     (if Enable \<noteq> 0 then
        (case DName of
           None \<Rightarrow> Some (s, -1)
         | Some buf \<Rightarrow>
             if 32 < DnsNameLen then Some (s, -1)
             else do {
               arr \<leftarrow> copy_in (cfg_DnsName (SysParam s)) buf (unat DnsNameLen);
               Some (s\<lparr>SysParam := (SysParam s)\<lparr>bDnsServer := 1, cfg_DnsName := arr\<rparr>\<rparr>, 0) })
      else Some (s\<lparr>SysParam := (SysParam s)\<lparr>bDnsServer := 0\<rparr>\<rparr>, 0))"

definition InfMacAddrSet :: "u8 list option \<Rightarrow> sys \<Rightarrow> (sys \<times> int) option" where
  "InfMacAddrSet Addr s =
     (case Addr of
        None \<Rightarrow> Some (s, -1)
      | Some buf \<Rightarrow> do {
          arr \<leftarrow> copy_in (PermanentAddress s) buf 6;
          Some (s\<lparr>PermanentAddress := arr\<rparr>, 0) })"

definition InfSysEvtCBSet :: "u32 \<Rightarrow> sys \<Rightarrow> sys \<times> int" where
  "InfSysEvtCBSet pFuncCb s = (if pFuncCb = 0 then (s, -1) else (s\<lparr>SysEvtCB := pFuncCb\<rparr>, 0))"

section \<open>Control\<close>

definition InfWiFiStart :: "sys \<Rightarrow> sys \<times> int" where
  "InfWiFiStart s = (PostTaskMsg MLME_START_ID [] s, 0)"

definition InfWiFiStop :: "sys \<Rightarrow> sys \<times> int" where
  "InfWiFiStop s = (PostTaskMsg MLME_STOP_ID [] s, 0)"

text \<open>\<open>pScanTable\<close>: its address and its \<open>InfoCount\<close>.\<close>

definition InfScanStart :: "(u32 \<times> u8) option \<Rightarrow> 8 word \<Rightarrow> u8 \<Rightarrow> sys \<Rightarrow> sys \<times> int" where
  "InfScanStart pScanTable MinRssiFilter ScanType s =
     (case pScanTable of
        None \<Rightarrow> (s, -1)
      | Some (p, InfoCount) \<Rightarrow>
          if InfoCount = 0 then (s, -1)
          else
            let MinRssiFilter = (if 0 < sint MinRssiFilter then 0 else MinRssiFilter)
            in (PostTaskMsg MLME_SCAN_REQUEST_ID (le32 p @ [MinRssiFilter, ScanType]) s, 0))"

text \<open>\<open>PARAM_RATE_IDX_3\<close> is 4 and \<open>PARAM_RATE_IDX_7\<close> is 8.\<close>

definition InfTxRateSet :: "u8 \<Rightarrow> u8 \<Rightarrow> sys \<Rightarrow> sys \<times> int" where
  "InfTxRateSet RateMode RateIdx s =
     (if RateMode = 0 \<and> 4 < RateIdx then (s, -1)
      else if (RateMode = 1 \<or> RateMode = 2) \<and> 8 < RateIdx then (s, -1)
      else if 2 < RateMode then (s, -1)
      else (PostTaskMsg MLME_TX_RATE_SET_ID [RateMode, RateIdx] s, 0))"

definition InfTxPwrLevelSet :: "u8 \<Rightarrow> sys \<Rightarrow> sys \<times> int" where
  "InfTxPwrLevelSet TxPwrLevel s =
     (if 9 < TxPwrLevel then (s, -1) else (PostTaskMsg MLME_TX_PWR_LEVEL_SET_ID [TxPwrLevel] s, 0))"

definition InfPowerSaveSet :: "u8 \<Rightarrow> sys \<Rightarrow> sys \<times> int" where
  "InfPowerSaveSet PowerSaveMode s =
     (if 3 < PowerSaveMode then (s, -1) else (PostTaskMsg MLME_PS_MODE_SET_ID [PowerSaveMode] s, 0))"

definition InfDeepSleepSet :: "u32 \<Rightarrow> sys \<Rightarrow> sys \<times> int" where
  "InfDeepSleepSet WakeUpMode s =
     (if 0 < WakeUpMode \<and> WakeUpMode AND 0x80000000 = 0 then (s, -1)
      else (PostTaskMsg MLME_DEEP_SLEEP_SET_ID (le32 WakeUpMode) s, 0))"

text \<open>\<open>efuse\<close> stands for \<open>BSP_EfuseRead\<close>: the words from an offset.\<close>

definition InfEfuseInfoGet :: "(u8 \<Rightarrow> u8 \<Rightarrow> u32 list) \<Rightarrow> u8 \<Rightarrow> u8 \<Rightarrow> bool \<Rightarrow> u32 list option \<times> int" where
  "InfEfuseInfoGet efuse Offset Cnt pEfuseInfo =
     (if \<not> pEfuseInfo \<or> 7 < Offset then (None, -1) else (Some (efuse Offset Cnt), 0))"

definition InfBeaconPeriodSet :: "u16 \<Rightarrow> u8 \<Rightarrow> sys \<Rightarrow> sys \<times> int" where
  "InfBeaconPeriodSet BcnPrd NotifyPeerEn s =
     (PostTaskMsg MLME_BCN_PRD_SET_ID (le16 BcnPrd @ [NotifyPeerEn]) s, 0)"

definition InfListenIntervalSet :: "u8 \<Rightarrow> u8 \<Rightarrow> sys \<Rightarrow> sys \<times> int" where
  "InfListenIntervalSet ListenIntv ListenDtim s =
     (if ListenIntv = 0 then (s, -1)
      else (PostTaskMsg MLME_LISTEN_INTVL_SET_ID [ListenIntv, ListenDtim] s, 0))"

definition InfDirectCfgStart :: "u8 \<Rightarrow> u8 \<Rightarrow> u32 \<Rightarrow> sys \<Rightarrow> sys \<times> int" where
  "InfDirectCfgStart MinRssiFilter TryPeerNum pCustomStr s =
     (PostTaskMsg MLME_DIRECT_CFG_ID
        ([MinRssiFilter, TryPeerNum] @ (if pCustomStr \<noteq> 0 then le32 pCustomStr else [0, 0, 0, 0])) s, 0)"

definition InfSnifferStart :: "u32 \<Rightarrow> u8 list \<Rightarrow> u8 \<Rightarrow> sys \<Rightarrow> (sys \<times> int) option" where
  "InfSnifferStart pFuncCb BindBssid Ch s = do {
     b \<leftarrow> mem_get BindBssid 0 6;
     Some (PostTaskMsg MLME_SNIFFER_START_ID (le32 pFuncCb @ b @ [Ch]) s, 0) }"

definition InfPeerAgeOutSet :: "u32 \<Rightarrow> sys \<Rightarrow> sys \<times> int" where
  "InfPeerAgeOutSet Time s = (PostTaskMsg MLME_PEER_AGE_OUT_SET_ID (le32 Time) s, 0)"

definition InfPeerKickOut :: "u8 list option \<Rightarrow> sys \<Rightarrow> (sys \<times> int) option" where
  "InfPeerKickOut pMacAddr s =
     (case pMacAddr of
        None \<Rightarrow> Some (s, -1)
      | Some buf \<Rightarrow> do { b \<leftarrow> mem_get buf 0 6; Some (PostTaskMsg MLME_PEER_KICK_OUT_ID b s, 0) })"

definition InfProtectModeSet :: "u8 \<Rightarrow> sys \<Rightarrow> sys \<times> int" where
  "InfProtectModeSet Mode s =
     (if 2 < Mode then (s, -1) else (PostTaskMsg MLME_PROTECT_MODE_SET_ID [Mode] s, 0))"

definition InfWPSStart :: "u8 \<Rightarrow> u32 \<Rightarrow> sys \<Rightarrow> sys \<times> int" where
  "InfWPSStart WscMode PinCode s =
     (if 2 < WscMode then (s, -1)
      else (PostTaskMsg MLME_WPS_START_SET_ID
              ((if WscMode = 1 then le32 PinCode else [0, 0, 0, 0]) @ [WscMode]) s, 0))"

definition InfWPSStop :: "sys \<Rightarrow> sys \<times> int" where
  "InfWPSStop s = (PostTaskMsg MLME_WPS_STOP_SET_ID [] s, 0)"

definition InfVendorIESet :: "u32 \<Rightarrow> u8 \<Rightarrow> sys \<Rightarrow> sys \<times> int" where
  "InfVendorIESet pIePtr IeLen s = (PostTaskMsg MLME_VENDOR_IE_SET_ID (le32 pIePtr @ [IeLen]) s, 0)"

text \<open>The launch ticks are a signed 64-bit number.\<close>

definition InfSysTimeGet :: "int \<Rightarrow> int" where
  "InfSysTimeGet Ticks = Ticks sdiv 1024 * 125 + (Ticks smod 1024 * 125) sdiv 1024"

section \<open>Well-formed parameters\<close>

definition ip_ok :: "ip_cfg \<Rightarrow> bool" where
  "ip_ok i \<longleftrightarrow> length (Ip i) = 4 \<and> length (Netmask i) = 4 \<and> length (GateWay i) = 4
     \<and> length (Dns i) = 4 \<and> length (Res_2 i) = 2"

definition wifi_ok :: "wifi_cfg \<Rightarrow> bool" where
  "wifi_ok w \<longleftrightarrow> length (Ssid w) = 33 \<and> Ssid w ! 32 = 0 \<and> SSIDBrdEnable w \<le> 1 \<and> PhyMode w \<le> 2
     \<and> 1 \<le> Channel w \<and> Channel w \<le> 13 \<and> Encry w \<le> 4 \<and> AuthMode w \<le> 3 \<and> Protocol w \<le> 2
     \<and> KeyLength w \<le> 64 \<and> KeyIndex w \<le> 3 \<and> length (PSK w) = 64"

definition cfg_ok :: "cfg_param \<Rightarrow> bool" where
  "cfg_ok c \<longleftrightarrow> wifi_ok (WiFiCfg c) \<and> ip_ok (IPCfg c) \<and> bDhcpServer c \<le> 1 \<and> bDnsServer c \<le> 1
     \<and> length (cfg_DnsName c) = 33 \<and> cfg_DnsName c ! 32 = 0"

text \<open>The requests the WiFi task may rely on: body length and range of each.\<close>

fun msg_ok :: "mlme_id \<times> u8 list \<Rightarrow> bool" where
  "msg_ok (MLME_TX_RATE_SET_ID, b) \<longleftrightarrow>
     (\<exists>m r. b = [m, r] \<and> m \<le> 2 \<and> r \<le> (if m = 0 then 4 else 8))"
| "msg_ok (MLME_TX_PWR_LEVEL_SET_ID, b) \<longleftrightarrow> (\<exists>l. b = [l] \<and> l \<le> 9)"
| "msg_ok (MLME_PS_MODE_SET_ID, b) \<longleftrightarrow> (\<exists>m. b = [m] \<and> m \<le> 3)"
| "msg_ok (MLME_PROTECT_MODE_SET_ID, b) \<longleftrightarrow> (\<exists>m. b = [m] \<and> m \<le> 2)"
| "msg_ok (MLME_LISTEN_INTVL_SET_ID, b) \<longleftrightarrow> (\<exists>i d. b = [i, d] \<and> i \<noteq> 0)"
| "msg_ok (MLME_DEEP_SLEEP_SET_ID, b) \<longleftrightarrow> (\<exists>w. b = le32 w \<and> (w = 0 \<or> w AND 0x80000000 \<noteq> 0))"
| "msg_ok (MLME_SCAN_REQUEST_ID, b) \<longleftrightarrow> length b = 6 \<and> sint (b ! 4) \<le> 0"
| "msg_ok (MLME_DIRECT_CFG_ID, b) \<longleftrightarrow> length b = 6"
| "msg_ok (MLME_BCN_PRD_SET_ID, b) \<longleftrightarrow> length b = 3"
| "msg_ok (MLME_PEER_AGE_OUT_SET_ID, b) \<longleftrightarrow> length b = 4"
| "msg_ok (MLME_PEER_KICK_OUT_ID, b) \<longleftrightarrow> length b = 6"
| "msg_ok (MLME_WPS_START_SET_ID, b) \<longleftrightarrow> length b = 5 \<and> b ! 4 \<le> 2"
| "msg_ok (MLME_SNIFFER_START_ID, b) \<longleftrightarrow> length b = 11"
| "msg_ok (MLME_VENDOR_IE_SET_ID, b) \<longleftrightarrow> length b = 5"
| "msg_ok (i, b) \<longleftrightarrow> b = []"

definition sys_ok :: "sys \<Rightarrow> bool" where
  "sys_ok s \<longleftrightarrow> cfg_ok (SysParam s) \<and> length (PermanentAddress s) = 6 \<and> (\<forall>m\<in>set (mac_msgs s). msg_ok m)"

lemmas sys_ok_defs = sys_ok_def cfg_ok_def wifi_ok_def ip_ok_def

lemma post_ok [simp]: "sys_ok (PostTaskMsg i b s) \<longleftrightarrow> sys_ok s \<and> msg_ok (i, b)"
  by (auto simp: PostTaskMsg_def sys_ok_def)

lemma copy_in_length: "copy_in arr buf n = Some arr' \<Longrightarrow> length arr' = length arr"
  by (auto simp: copy_in_def mem_put_length split: Option.bind_splits)

lemma copy_in_rest: "copy_in arr buf n = Some arr' \<Longrightarrow> n \<le> k \<Longrightarrow> arr' ! k = arr ! k"
  by (auto simp: copy_in_def mem_get_def mem_put_def nth_append split: Option.bind_splits if_splits)

lemma copy_in_take: "copy_in arr buf n = Some arr' \<Longrightarrow> take n arr' = take n buf"
  by (auto simp: copy_in_def mem_get_def mem_put_def split: Option.bind_splits if_splits)

lemma load_default_ok: "length (PermanentAddress s) = 6 \<Longrightarrow> \<forall>m\<in>set (mac_msgs s). msg_ok m \<Longrightarrow>
    sys_ok (InfLoadDefaultParam s)"
  by (simp add: InfLoadDefaultParam_def sys_ok_defs pad_def fmt_02x_def nth_append)

text \<open>One call of the interface, whatever its arguments.\<close>

inductive inf_step :: "sys \<Rightarrow> sys \<Rightarrow> bool" where
  "InfNetModeSet m s = (s', r) \<Longrightarrow> inf_step s s'"
| "InfPhyModeSet m s = (s', r) \<Longrightarrow> inf_step s s'"
| "InfSsidSet p n s = Some (s', r) \<Longrightarrow> inf_step s s'"
| "InfSsidBrdcastSet e s = (s', r) \<Longrightarrow> inf_step s s'"
| "InfChannelSet c s = (s', r) \<Longrightarrow> inf_step s s'"
| "InfEncModeSet m s = (s', r) \<Longrightarrow> inf_step s s'"
| "InfAuthModeSet m s = (s', r) \<Longrightarrow> inf_step s s'"
| "InfKeySet i k n s = Some (s', r) \<Longrightarrow> inf_step s s'"
| "InfConTryTimesSet n s = (s', r) \<Longrightarrow> inf_step s s'"
| "InfWmmEnableSet e s = (s', r) \<Longrightarrow> inf_step s s'"
| "InfWscEnSet e s = (s', r) \<Longrightarrow> inf_step s s'"
| "InfIpSet ip s = (s', r) \<Longrightarrow> \<forall>i. ip = Some i \<longrightarrow> ip_ok i \<Longrightarrow> inf_step s s'"
| "InfDhcpSrvSet e s = (s', r) \<Longrightarrow> inf_step s s'"
| "InfDnsSrvSet e nm n s = Some (s', r) \<Longrightarrow> inf_step s s'"
| "InfMacAddrSet a s = Some (s', r) \<Longrightarrow> inf_step s s'"
| "InfSysEvtCBSet f s = (s', r) \<Longrightarrow> inf_step s s'"
| "InfWiFiStart s = (s', r) \<Longrightarrow> inf_step s s'"
| "InfWiFiStop s = (s', r) \<Longrightarrow> inf_step s s'"
| "InfScanStart p rssi t s = (s', r) \<Longrightarrow> inf_step s s'"
| "InfTxRateSet m i s = (s', r) \<Longrightarrow> inf_step s s'"
| "InfTxPwrLevelSet l s = (s', r) \<Longrightarrow> inf_step s s'"
| "InfPowerSaveSet m s = (s', r) \<Longrightarrow> inf_step s s'"
| "InfDeepSleepSet w s = (s', r) \<Longrightarrow> inf_step s s'"
| "InfBeaconPeriodSet b n s = (s', r) \<Longrightarrow> inf_step s s'"
| "InfListenIntervalSet i d s = (s', r) \<Longrightarrow> inf_step s s'"
| "InfDirectCfgStart m n c s = (s', r) \<Longrightarrow> inf_step s s'"
| "InfSnifferStart f b c s = Some (s', r) \<Longrightarrow> inf_step s s'"
| "InfPeerAgeOutSet t s = (s', r) \<Longrightarrow> inf_step s s'"
| "InfPeerKickOut a s = Some (s', r) \<Longrightarrow> inf_step s s'"
| "InfProtectModeSet m s = (s', r) \<Longrightarrow> inf_step s s'"
| "InfWPSStart w p s = (s', r) \<Longrightarrow> inf_step s s'"
| "InfWPSStop s = (s', r) \<Longrightarrow> inf_step s s'"
| "InfVendorIESet p n s = (s', r) \<Longrightarrow> inf_step s s'"

lemma u8_le_2: "(m :: u8) \<le> 2 \<longleftrightarrow> m = 0 \<or> m = 1 \<or> m = 2"
  unfolding word_le_nat_alt word_unat_eq_iff by simp presburger

lemma set_value_ok:
  "sys_ok s \<Longrightarrow> sys_ok (fst (InfNetModeSet m s))"
  "sys_ok s \<Longrightarrow> sys_ok (fst (InfPhyModeSet m s))"
  "sys_ok s \<Longrightarrow> sys_ok (fst (InfSsidBrdcastSet m s))"
  "sys_ok s \<Longrightarrow> sys_ok (fst (InfChannelSet m s))"
  "sys_ok s \<Longrightarrow> sys_ok (fst (InfEncModeSet m s))"
  "sys_ok s \<Longrightarrow> sys_ok (fst (InfAuthModeSet m s))"
  "sys_ok s \<Longrightarrow> sys_ok (fst (InfConTryTimesSet m s))"
  "sys_ok s \<Longrightarrow> sys_ok (fst (InfWmmEnableSet m s))"
  "sys_ok s \<Longrightarrow> sys_ok (fst (InfWscEnSet m s))"
  "sys_ok s \<Longrightarrow> sys_ok (fst (InfDhcpSrvSet m s))"
  "sys_ok s \<Longrightarrow> sys_ok (fst (InfSysEvtCBSet f s))"
  by (auto simp: InfNetModeSet_def InfPhyModeSet_def InfSsidBrdcastSet_def InfChannelSet_def InfEncModeSet_def
      InfAuthModeSet_def InfConTryTimesSet_def InfWmmEnableSet_def InfWscEnSet_def InfDhcpSrvSet_def
      InfSysEvtCBSet_def sys_ok_defs word_le_nat_alt not_less Suc_le_eq unat_gt_0)

lemma InfSsidSet_ok: "InfSsidSet p n s = Some (s', r) \<Longrightarrow> sys_ok s \<Longrightarrow> sys_ok s'"
  by (auto simp: InfSsidSet_def sys_ok_defs copy_in_length copy_in_rest nth_list_update word_le_nat_alt word_less_nat_alt
      split: option.splits if_splits Option.bind_splits)

lemma InfKeySet_ok: "InfKeySet i k n s = Some (s', r) \<Longrightarrow> sys_ok s \<Longrightarrow> sys_ok s'"
  by (auto simp: InfKeySet_def sys_ok_defs copy_in_length Let_def
      split: option.splits if_splits Option.bind_splits)

lemma InfDnsSrvSet_ok: "InfDnsSrvSet e nm n s = Some (s', r) \<Longrightarrow> sys_ok s \<Longrightarrow> sys_ok s'"
  by (auto simp: InfDnsSrvSet_def sys_ok_defs copy_in_length copy_in_rest word_le_nat_alt word_less_nat_alt
      split: option.splits if_splits Option.bind_splits)

lemma InfMacAddrSet_ok: "InfMacAddrSet a s = Some (s', r) \<Longrightarrow> sys_ok s \<Longrightarrow> sys_ok s'"
  by (auto simp: InfMacAddrSet_def sys_ok_defs copy_in_length split: option.splits Option.bind_splits)

lemma InfIpSet_ok: "\<forall>i. ip = Some i \<longrightarrow> ip_ok i \<Longrightarrow> sys_ok s \<Longrightarrow> sys_ok (fst (InfIpSet ip s))"
  by (auto simp: InfIpSet_def sys_ok_defs split: option.split)

lemma request_ok:
  "sys_ok s \<Longrightarrow> sys_ok (fst (InfWiFiStart s))"
  "sys_ok s \<Longrightarrow> sys_ok (fst (InfWiFiStop s))"
  "sys_ok s \<Longrightarrow> sys_ok (fst (InfScanStart p rssi t s))"
  "sys_ok s \<Longrightarrow> sys_ok (fst (InfTxRateSet m i s))"
  "sys_ok s \<Longrightarrow> sys_ok (fst (InfTxPwrLevelSet m s))"
  "sys_ok s \<Longrightarrow> sys_ok (fst (InfPowerSaveSet m s))"
  "sys_ok s \<Longrightarrow> sys_ok (fst (InfDeepSleepSet w s))"
  "sys_ok s \<Longrightarrow> sys_ok (fst (InfBeaconPeriodSet b m s))"
  "sys_ok s \<Longrightarrow> sys_ok (fst (InfListenIntervalSet m i s))"
  "sys_ok s \<Longrightarrow> sys_ok (fst (InfDirectCfgStart m i w s))"
  "sys_ok s \<Longrightarrow> sys_ok (fst (InfPeerAgeOutSet w s))"
  "sys_ok s \<Longrightarrow> sys_ok (fst (InfProtectModeSet m s))"
  "sys_ok s \<Longrightarrow> sys_ok (fst (InfWPSStart m w s))"
  "sys_ok s \<Longrightarrow> sys_ok (fst (InfWPSStop s))"
  "sys_ok s \<Longrightarrow> sys_ok (fst (InfVendorIESet w m s))"
  by (auto simp: InfWiFiStart_def InfWiFiStop_def InfScanStart_def InfTxRateSet_def InfTxPwrLevelSet_def
      InfPowerSaveSet_def InfDeepSleepSet_def InfBeaconPeriodSet_def InfListenIntervalSet_def
      InfDirectCfgStart_def InfPeerAgeOutSet_def InfProtectModeSet_def InfWPSStart_def InfWPSStop_def
      InfVendorIESet_def nth_append Let_def not_less u8_le_2
      split: option.split)

lemma copied_request_ok:
  "InfSnifferStart f b c s = Some (s', r) \<Longrightarrow> sys_ok s \<Longrightarrow> sys_ok s'"
  "InfPeerKickOut a s = Some (s', r) \<Longrightarrow> sys_ok s \<Longrightarrow> sys_ok s'"
  by (auto simp: InfSnifferStart_def InfPeerKickOut_def dest: mem_get_length split: option.splits Option.bind_splits)

lemma inf_step_ok: "inf_step s s' \<Longrightarrow> sys_ok s \<Longrightarrow> sys_ok s'"
proof (induction rule: inf_step.induct)
qed (metis fst_conv set_value_ok InfIpSet_ok request_ok |
     metis InfSsidSet_ok InfKeySet_ok InfDnsSrvSet_ok InfMacAddrSet_ok copied_request_ok)+


section \<open>Properties\<close>

text \<open>C22: whatever sequence of interface calls follows \<open>InfLoadDefaultParam\<close>, the parameters keep their
  types and ranges (terminated SSID, channel, modes, key length, flags) and every request queued for the WiFi task has
  the length and the values its handler expects.\<close>

theorem params_stay_ok:
  assumes "length (PermanentAddress s0) = 6" "mac_msgs s0 = []"
    and "inf_step\<^sup>*\<^sup>* (InfLoadDefaultParam s0) s"
  shows "cfg_ok (SysParam s) \<and> (\<forall>m\<in>set (mac_msgs s). msg_ok m)"
proof -
  have "sys_ok s"
    using assms(3) load_default_ok [of s0] assms(1,2)
    by (induction rule: rtranclp_induct) (auto intro: inf_step_ok)
  then show ?thesis by (simp add: sys_ok_def)
qed

definition sys_zero :: sys where
  "sys_zero = \<lparr>SysParam = \<lparr>WiFiCfg = \<lparr>Ssid = replicate 33 0, SSIDBrdEnable = 0, PhyMode = 0, Channel = 0,
     Encry = 0, AuthMode = 0, Protocol = 0, KeyLength = 0, KeyIndex = 0, PSK = replicate 64 0, WscEn = 0,
     ConTryTimes = 0, WmmEn = 0\<rparr>, IPCfg = \<lparr>Ip = [0, 0, 0, 0], Netmask = [0, 0, 0, 0], GateWay = [0, 0, 0, 0],
     Dns = [0, 0, 0, 0], bDhcp = 0, DhcpTryTimes = 0, Res_2 = [0, 0]\<rparr>, bDhcpServer = 0, bDnsServer = 0,
     cfg_DnsName = replicate 33 0, Res_3 = 0\<rparr>,
   PermanentAddress = [0, 1, 2, 3, 4, 5], SysEvtCB = 0, mac_msgs = []\<rparr>"

lemma params_stay_ok_witness:
  "let s = fst (InfTxRateSet 1 8 (fst (InfChannelSet 6 (InfLoadDefaultParam sys_zero))))
   in Channel (wifi s) = 6 \<and> mac_msgs s = [(MLME_TX_RATE_SET_ID, [1, 8])]
     \<and> cfg_ok (SysParam s) \<and> (\<forall>m\<in>set (mac_msgs s). msg_ok m)"
proof -
  let ?s0 = "InfLoadDefaultParam sys_zero"
  let ?s1 = "fst (InfChannelSet 6 ?s0)" and ?s2 = "fst (InfTxRateSet 1 8 (fst (InfChannelSet 6 ?s0)))"
  have "inf_step ?s0 ?s1" by (rule inf_step.intros(5)) (rule prod.collapse [symmetric])
  moreover have "inf_step ?s1 ?s2" by (rule inf_step.intros(20)) (rule prod.collapse [symmetric])
  ultimately have "inf_step\<^sup>*\<^sup>* ?s0 ?s2" by (rule converse_rtranclp_into_rtranclp [OF _ r_into_rtranclp])
  then have "cfg_ok (SysParam ?s2) \<and> (\<forall>m\<in>set (mac_msgs ?s2). msg_ok m)"
    by (intro params_stay_ok [of sys_zero]) (simp_all add: sys_zero_def)
  moreover have "Channel (wifi ?s2) = 6 \<and> mac_msgs ?s2 = [(MLME_TX_RATE_SET_ID, [1, 8])]"
    by (simp add: InfTxRateSet_def InfChannelSet_def PostTaskMsg_def InfLoadDefaultParam_def sys_zero_def)
  ultimately show ?thesis unfolding Let_def by blast
qed

lemma sdiv_nonneg: "0 \<le> a \<Longrightarrow> 0 < b \<Longrightarrow> a sdiv b = a div (b :: int)"
  by (cases "a = 0") (simp_all add: signed_divide_int_def)

lemma smod_nonneg: "0 \<le> a \<Longrightarrow> 0 < b \<Longrightarrow> a smod b = a mod (b :: int)"
  by (cases "a = 0") (simp_all add: signed_modulo_int_def)

text \<open>\<open>InfSysTimeGet\<close> computes the quotient of the ticks by 8.192 exactly, without the overflow
  that the direct product would have; with the tick of 1/32.768 ms that \<open>bsp.h\<close> documents this is four times
  the number of milliseconds.\<close>

theorem sys_time_exact:
  assumes "0 \<le> Ticks" "Ticks < 2 ^ 63" "0 \<le> secs"
  shows "InfSysTimeGet Ticks = Ticks * 125 div 1024 \<and> InfSysTimeGet Ticks < 2 ^ 63
    \<and> InfSysTimeGet (32768 * secs) = 4 * (1000 * secs)"
proof -
  have exact: "InfSysTimeGet t = t * 125 div 1024" if "0 \<le> t" for t
  proof -
    have "t sdiv 1024 = t div 1024" "t smod 1024 = t mod 1024" "((t mod 1024) * 125) sdiv 1024 = ((t mod 1024) * 125) div 1024"
      using that by (simp_all add: sdiv_nonneg smod_nonneg)
    moreover have "t * 125 div 1024 = (t div 1024) * 125 + ((t mod 1024) * 125) div 1024"
    proof -
      have "t * 125 = (t mod 1024) * 125 + (t div 1024 * 125) * 1024"
        using mult_div_mod_eq [of 1024 t] by linarith
      then show ?thesis by simp
    qed
    ultimately show ?thesis by (simp add: InfSysTimeGet_def)
  qed
  show ?thesis using assms by (simp add: exact)
qed

lemma sys_time_exact_witness: "InfSysTimeGet (2 ^ 62 + 1023) = 562949953421312124"
  using sys_time_exact [of "2 ^ 62 + 1023" 1] by simp

text \<open>\<open>InfDnsSrvSet\<close> copies a name without terminating it, so a shorter name is continued by the
  end of the longer one before it.\<close>

theorem dns_name_stale:
  assumes "cfg_ok (SysParam s)" "length old \<le> 32" "length new < length old"
    and "InfDnsSrvSet 1 (Some old) (of_nat (length old)) s = Some (s1, 0)"
  shows "\<exists>s2. InfDnsSrvSet 1 (Some new) (of_nat (length new)) s1 = Some (s2, 0)
    \<and> take (length old) (cfg_DnsName (SysParam s2)) = new @ drop (length new) old"
proof -
  let ?arr = "cfg_DnsName (SysParam s)"
  have len: "length ?arr = 33" using assms(1) by (simp add: cfg_ok_def)
  have n: "unat (of_nat (length old) :: u8) = length old" "unat (of_nat (length new) :: u8) = length new"
    using assms(2,3) by (simp_all add: unat_of_nat)
  have old: "copy_in ?arr old (length old) = Some (old @ drop (length old) ?arr)"
    using assms(2) len by (simp add: copy_in_def mem_get_def mem_put_def)
  have "s1 = s\<lparr>SysParam := (SysParam s)\<lparr>bDnsServer := 1, cfg_DnsName := old @ drop (length old) ?arr\<rparr>\<rparr>"
    using assms(4) old by (auto simp: InfDnsSrvSet_def n split: if_splits)
  moreover have "copy_in (old @ drop (length old) ?arr) new (length new) =
      Some (new @ drop (length new) old @ drop (length old) ?arr)"
    using assms(2,3) len by (simp add: copy_in_def mem_get_def mem_put_def)
  moreover have "\<not> 32 < (of_nat (length new) :: u8)"
    using assms(2,3) by (simp add: word_less_nat_alt n)
  ultimately show ?thesis using assms(3) by (simp add: InfDnsSrvSet_def n)
qed

lemma dns_name_stale_witness:
  "let s = InfLoadDefaultParam sys_zero;
       s1 = fst (the (InfDnsSrvSet 1 (Some [0x61, 0x2e, 0x62]) 3 s))
   in \<exists>s2. InfDnsSrvSet 1 (Some [0x63]) 1 s1 = Some (s2, 0) \<and> take 3 (cfg_DnsName (SysParam s2)) = [0x63, 0x2e, 0x62]"
proof -
  let ?s = "InfLoadDefaultParam sys_zero"
  have ok: "cfg_ok (SysParam ?s)"
    using load_default_ok [of sys_zero] by (simp add: sys_ok_def sys_zero_def)
  have "\<exists>s1. InfDnsSrvSet 1 (Some [0x61, 0x2e, 0x62]) 3 ?s = Some (s1, 0)"
    by (simp add: InfDnsSrvSet_def copy_in_def mem_get_def mem_put_def InfLoadDefaultParam_def pad_def)
  then obtain s1 where s1: "InfDnsSrvSet 1 (Some [0x61, 0x2e, 0x62]) 3 ?s = Some (s1, 0)" ..
  then show ?thesis
    using dns_name_stale [OF ok, of "[0x61, 0x2e, 0x62]" "[0x63]" s1] by (simp add: Let_def numeral_3_eq_3)
qed

end
