(* ===== verification/AtLine.thy ===== *)
theory AtLine
  imports StrLib
begin

text \<open>
  The front of the command interpreter, \<^verbatim>\<open>App/SerialNet/at_cmd.c\<close>: splitting a command line into its
  arguments (\<open>parseParameter\<close>) and recognising the command (\<open>stringTorequest\<close> and the table
  \<open>s_at_commands\<close>).  The line is the buffer the receiver filled, so the arguments are offsets into it
  until they are read as strings; a store behind the array of 50 argument pointers is the fault
  \<^term>\<open>None\<close>.
\<close>

section \<open>Splitting a line\<close>

text \<open>\<open>offs\<close>: the pointers stored in \<open>argv\<close> so far, \<open>p\<close> the variable that \<open>strsep\<close> advances.\<close>

lemma strsep_advances:
  "strsep delim buf p = Some (buf', p', Some tok) \<Longrightarrow>
     length buf' = length buf \<and> p = Some tok \<and> (\<forall>q. p' = Some q \<longrightarrow> tok < q \<and> q \<le> length buf)"
proof -
  have "strsep_loop delim buf s = Some (buf', p') \<Longrightarrow>
      length buf' = length buf \<and> (\<forall>q. p' = Some q \<longrightarrow> s < q \<and> q \<le> length buf)" for s
  proof (induction delim buf s rule: strsep_loop.induct)
    case (1 delim buf s)
    show ?case
    proof (cases "s < length buf \<and> buf ! s \<noteq> 0 \<and> buf ! s \<notin> set delim")
      case True
      then have "strsep_loop delim buf (s + 1) = Some (buf', p')"
        using 1(2) by (simp add: strsep_loop.simps [of _ _ s])
      with 1(1) True have "length buf' = length buf \<and> (\<forall>q. p' = Some q \<longrightarrow> s + 1 < q \<and> q \<le> length buf)"
        by blast
      then show ?thesis by auto
    next
      case False
      then show ?thesis using 1(2) by (auto simp: strsep_loop.simps [of _ _ s] split: if_splits)
    qed
  qed
  then show "strsep delim buf p = Some (buf', p', Some tok) \<Longrightarrow> ?thesis"
    by (auto simp: strsep_def split: option.splits)
qed

function parse_args :: "u8 list \<Rightarrow> nat option \<Rightarrow> nat list \<Rightarrow> (u8 list \<times> nat list) option" where
  "parse_args buf p offs =
     (if 50 \<le> length offs then None
      else (case strsep [0x2c] buf p of
              None \<Rightarrow> None
            | Some (buf', p', None) \<Rightarrow> Some (buf', offs)
            | Some (buf', p', Some tok) \<Rightarrow> parse_args buf' p' (offs @ [tok])))"
  by pat_completeness auto
termination
  by (relation "measure (\<lambda>(buf, p, offs). case p of None \<Rightarrow> 0 | Some s \<Rightarrow> Suc (length buf - s))")
     (auto dest!: strsep_advances split: option.split)

declare parse_args.simps [simp del]

text \<open>The string at an offset.\<close>

definition string_at :: "u8 list \<Rightarrow> nat \<Rightarrow> u8 list" where
  "string_at buf p = takeWhile (\<lambda>c. c \<noteq> 0) (drop p buf)"

text \<open>The buffer afterwards and the strings \<open>processCommand\<close> gets.\<close>

definition parseParameter :: "u8 list \<Rightarrow> (u8 list \<times> u8 list list) option" where
  "parseParameter args = do {
     (buf, p, arg0) \<leftarrow> strsep [0x3d] args (Some 0);
     (buf, offs) \<leftarrow> (if p = None then Some (buf, [0]) else parse_args buf p [0]);
     Some (buf, map (string_at buf) offs)
   }"

section \<open>Recognising the command\<close>

datatype request =
  REQ_HELP | REQ_VER | REQ_SVER | REQ_SAVE | REQ_FACTORY | REQ_RST | REQ_SYSTIME | REQ_BAUDRATE
  | REQ_UARTFT | REQ_UARTFL | REQ_MSLP | REQ_LSLPT | REQ_IPCONFIG | REQ_PING | REQ_MAC | REQ_WQSOPT
  | REQ_WPHYMODE | REQ_WTXRATE | REQ_WSCANAP | REQ_WSBCN | REQ_WSCAP | REQ_WSMTCONF | REQ_WSTOP
  | REQ_NQSCNN | REQ_NLOCIP | REQ_WSACONF | REQ_AIRKISS | REQ_BCTTXSTART | REQ_BCTTXSTOP
  | REQ_BCTTXDATA | REQ_BCTRXSTART | REQ_BCTRXSTOP | REQ_QUIT

definition ascii :: "string \<Rightarrow> u8 list" where
  "ascii = map (\<lambda>c. of_nat (of_char c))"

definition s_at_commands :: "(request \<times> string) list" where
  "s_at_commands = [
     (REQ_HELP, ''AT+HELP''), (REQ_VER, ''AT+VER''), (REQ_SVER, ''AT+SVER''), (REQ_SAVE, ''AT+SAVE''),
     (REQ_FACTORY, ''AT+FACTORY''), (REQ_RST, ''AT+RST''), (REQ_SYSTIME, ''AT+SYSTIME''),
     (REQ_BAUDRATE, ''AT+BAUDRATE''), (REQ_UARTFT, ''AT+UARTFT''), (REQ_UARTFL, ''AT+UARTFL''),
     (REQ_MSLP, ''AT+MSLP''), (REQ_LSLPT, ''AT+LSLPT''), (REQ_IPCONFIG, ''AT+IPCONFIG''),
     (REQ_PING, ''AT+PING''), (REQ_MAC, ''AT+MAC''), (REQ_WQSOPT, ''AT+WQSOPT''),
     (REQ_WPHYMODE, ''AT+WPHYMODE''), (REQ_WTXRATE, ''AT+WTXRATE''), (REQ_WSCANAP, ''AT+WSCANAP''),
     (REQ_WSBCN, ''AT+WSBCN''), (REQ_WSCAP, ''AT+WSCAP''), (REQ_WSMTCONF, ''AT+WSMTCONF''),
     (REQ_WSTOP, ''AT+WSTOP''), (REQ_NQSCNN, ''AT+NQSCNN''), (REQ_NLOCIP, ''AT+NLOCIP''),
     (REQ_WSACONF, ''AT+WSACONF''), (REQ_AIRKISS, ''AT+AIRKISS''), (REQ_BCTTXSTART, ''AT+BCTTXSTART''),
     (REQ_BCTTXSTOP, ''AT+BCTTXSTOP''), (REQ_BCTTXDATA, ''AT+BCTTXDATA''),
     (REQ_BCTRXSTART, ''AT+BCTRXSTART''), (REQ_BCTRXSTOP, ''AT+BCTRXSTOP''), (REQ_QUIT, ''AT+QUIT'')]"

definition toupper :: "u8 \<Rightarrow> u8" where
  "toupper c = (if 0x61 \<le> c \<and> c \<le> 0x7a then c - 0x20 else c)"

text \<open>\<^term>\<open>None\<close> stands for \<open>INVALID_COMMAND\<close>.\<close>

definition stringTorequest :: "u8 list \<Rightarrow> request option" where
  "stringTorequest str0 =
     (let str = map toupper str0 in
      if str = ascii ''+HELP'' then Some REQ_HELP
      else if str = ascii ''+VER'' then Some REQ_VER
      else if str = ascii ''+SVER'' then Some REQ_SVER
      else if str = ascii ''+SAVE'' then Some REQ_SAVE
      else if str = ascii ''+FACTORY'' then Some REQ_FACTORY
      else if str = ascii ''+RST'' then Some REQ_RST
      else if str = ascii ''+SYSTIME'' then Some REQ_SYSTIME
      else if str = ascii ''+BAUDRATE'' then Some REQ_BAUDRATE
      else if str = ascii ''+UARTFT'' then Some REQ_UARTFT
      else if str = ascii ''+UARTFL'' then Some REQ_UARTFL
      else if str = ascii ''+MSLP'' then Some REQ_MSLP
      else if str = ascii ''+LSLPT'' then Some REQ_LSLPT
      else if str = ascii ''+IPCONFIG'' then Some REQ_IPCONFIG
      else if str = ascii ''+PING'' then Some REQ_PING
      else if str = ascii ''+MAC'' then Some REQ_MAC
      else if str = ascii ''+WQSOPT'' then Some REQ_WQSOPT
      else if str = ascii ''+WSCANAP'' then Some REQ_WSCANAP
      else if str = ascii ''+WSTOP'' then Some REQ_WSTOP
      else if str = ascii ''+WPHYMODE'' then Some REQ_WPHYMODE
      else if str = ascii ''+WTXRATE'' then Some REQ_WTXRATE
      else if str = ascii ''+WSBCN'' then Some REQ_WSBCN
      else if str = ascii ''+WSCAP'' then Some REQ_WSCAP
      else if str = ascii ''+WSMTCONF'' then Some REQ_WSMTCONF
      else if str = ascii ''+NQSCNN'' then Some REQ_NQSCNN
      else if str = ascii ''+NLOCIP'' then Some REQ_NLOCIP
      else if str = ascii ''+WSACONF'' then Some REQ_WSACONF
      else if str = ascii ''+AIRKISS'' then Some REQ_AIRKISS
      else if str = ascii ''+BCTTXSTART'' then Some REQ_BCTTXSTART
      else if str = ascii ''+BCTTXSTOP'' then Some REQ_BCTTXSTOP
      else if str = ascii ''+BCTTXDATA'' then Some REQ_BCTTXDATA
      else if str = ascii ''+BCTRXSTART'' then Some REQ_BCTRXSTART
      else if str = ascii ''+BCTRXSTOP'' then Some REQ_BCTRXSTOP
      else if str = ascii ''+QUIT'' then Some REQ_QUIT
      else None)"

text \<open>The entry of the table whose handler \<open>processCommand\<close> calls.\<close>

definition find_command :: "u8 list list \<Rightarrow> request option" where
  "find_command argv =
     (case argv of
        [] \<Rightarrow> None
      | a # _ \<Rightarrow>
          (case stringTorequest a of
             None \<Rightarrow> None
           | Some r \<Rightarrow> map_option fst (List.find (\<lambda>e. fst e = r) s_at_commands)))"

section \<open>Lines and their arguments\<close>

fun commas :: "u8 list list \<Rightarrow> u8 list" where
  "commas [] = []"
| "commas [a] = a"
| "commas (a # b # as) = a @ 0x2c # commas (b # as)"

definition at_line :: "u8 list \<Rightarrow> u8 list list \<Rightarrow> u8 list" where
  "at_line name args = (if args = [] then name else name @ 0x3d # commas args)"

definition arg_ok :: "u8 list \<Rightarrow> bool" where
  "arg_ok a \<longleftrightarrow> 0 \<notin> set a \<and> 0x2c \<notin> set a"

lemma strsep_at:
  assumes "0 \<notin> set a" "set a \<inter> set delim = {}" "c = 0 \<or> c \<in> set delim"
  shows "strsep delim (pre @ a @ c # rest) (Some (length pre)) =
    Some (if c = 0 then (pre @ a @ c # rest, None, Some (length pre))
          else (pre @ a @ 0 # rest, Some (length pre + length a + 1), Some (length pre)))"
proof -
  let ?b = "pre @ a @ c # rest"
  have nth: "?b ! (length pre + i) = a ! i" if "i < length a" for i
    using that by (simp add: nth_append)
  have c: "?b ! (length pre + length a) = c" by (simp add: nth_append)
  have "strsep_loop delim ?b (length pre) = Some (if ?b ! (length pre + length a) = 0 then (?b, None)
      else (?b[length pre + length a := 0], Some (length pre + length a + 1)))"
  proof (rule strsep_loop_ok)
    show "length pre + length a < length ?b" by simp
    show "\<forall>i<length a. ?b ! (length pre + i) \<noteq> 0 \<and> ?b ! (length pre + i) \<notin> set delim"
      using assms(1,2) nth by (auto simp: disjoint_iff) (metis nth_mem)+
    show "?b ! (length pre + length a) = 0 \<or> ?b ! (length pre + length a) \<in> set delim"
      using assms(3) c by simp
  qed
  moreover have "?b[length pre + length a := 0] = pre @ a @ 0 # rest"
    by (simp add: list_update_append)
  ultimately show ?thesis by (simp add: strsep_def c)
qed

fun offsets :: "nat \<Rightarrow> u8 list list \<Rightarrow> nat list" where
  "offsets p [] = []"
| "offsets p (a # as) = p # offsets (p + length a + 1) as"

definition nuls :: "u8 list list \<Rightarrow> u8 list" where
  "nuls args = concat (map (\<lambda>a. a @ [0]) args)"

lemma parse_args_ok:
  "args \<noteq> [] \<Longrightarrow> \<forall>a\<in>set args. arg_ok a \<Longrightarrow> length offs < 50 \<Longrightarrow>
     parse_args (pre @ commas args @ 0 # rest) (Some (length pre)) offs =
       (if length offs + length args < 50
        then Some (pre @ nuls args @ rest, offs @ offsets (length pre) args) else None)"
proof (induction args arbitrary: pre offs rule: commas.induct)
  case 1
  then show ?case by simp
next
  case (2 a)
  have "strsep [0x2c] (pre @ a @ 0 # rest) (Some (length pre)) = Some (pre @ a @ 0 # rest, None, Some (length pre))"
    using strsep_at [of a "[0x2c]" 0 pre rest] 2 by (simp add: arg_ok_def)
  moreover have "strsep [0x2c] b None = Some (b, None, None)" for b by (simp add: strsep_def)
  ultimately show ?case using 2
    by (simp add: parse_args.simps [of "pre @ a @ 0 # rest"] parse_args.simps [of _ None] nuls_def)
next
  case (3 a b as)
  let ?r = "commas (b # as) @ 0 # rest" and ?pre = "pre @ a @ [0]"
  have sep: "strsep [0x2c] (pre @ a @ 0x2c # ?r) (Some (length pre)) =
      Some (?pre @ ?r, Some (length ?pre), Some (length pre))"
    using strsep_at [of a "[0x2c]" "0x2c" pre ?r] 3 by (simp add: arg_ok_def)
  show ?case
  proof (cases "length offs + 1 < 50")
    case True
    have "parse_args (?pre @ ?r) (Some (length ?pre)) (offs @ [length pre]) =
        (if length (offs @ [length pre]) + length (b # as) < 50
         then Some (?pre @ nuls (b # as) @ rest, (offs @ [length pre]) @ offsets (length ?pre) (b # as)) else None)"
      by (rule 3(1)) (use 3 True in auto)
    then show ?thesis using sep 3(4)
      by (simp add: parse_args.simps [of "pre @ a @ 0x2c # commas (b # as) @ 0 # rest"] nuls_def)
  next
    case False
    then show ?thesis using sep 3(4)
      by (simp add: parse_args.simps [of "pre @ a @ 0x2c # commas (b # as) @ 0 # rest"]
          parse_args.simps [of _ _ "offs @ _"])
  qed
qed

lemma string_at_app: "0 \<notin> set a \<Longrightarrow> string_at (pre @ a @ 0 # r) (length pre) = a"
  by (auto simp: string_at_def takeWhile_append)

lemma strings_at_nuls:
  "\<forall>a\<in>set args. 0 \<notin> set a \<Longrightarrow> map (string_at (pre @ nuls args @ rest)) (offsets (length pre) args) = args"
proof (induction args arbitrary: pre)
  case (Cons a as)
  have "map (string_at ((pre @ a @ [0]) @ nuls as @ rest)) (offsets (length (pre @ a @ [0])) as) = as"
    by (rule Cons.IH) (use Cons.prems in simp)
  moreover have "string_at (pre @ a @ 0 # nuls as @ rest) (length pre) = a"
    by (rule string_at_app) (use Cons.prems in simp)
  ultimately show ?case by (simp add: nuls_def)
qed simp

lemma parseParameter_ok:
  assumes name: "0 \<notin> set name" "0x3d \<notin> set name" and args: "\<forall>a\<in>set args. arg_ok a"
  shows "parseParameter (at_line name args @ 0 # rest) =
     (if length args < 49 then Some (nuls (name # args) @ rest, name # args) else None)"
proof (cases "args = []")
  case True
  have "strsep [0x3d] (name @ 0 # rest) (Some 0) = Some (name @ 0 # rest, None, Some 0)"
    using strsep_at [of name "[0x3d]" 0 "[]" rest] name by simp
  then show ?thesis using True string_at_app [OF name(1), of "[]" rest]
    by (simp add: parseParameter_def at_line_def nuls_def)
next
  case False
  let ?pre = "name @ [0]"
  have sep: "strsep [0x3d] (name @ 0x3d # commas args @ 0 # rest) (Some 0) =
      Some (?pre @ commas args @ 0 # rest, Some (length ?pre), Some 0)"
    using strsep_at [of name "[0x3d]" "0x3d" "[]" "commas args @ 0 # rest"] name by simp
  have parse: "parse_args (?pre @ commas args @ 0 # rest) (Some (length ?pre)) [0] =
      (if length args < 49 then Some (?pre @ nuls args @ rest, [0] @ offsets (length ?pre) args) else None)"
    using parse_args_ok [OF False args, of "[0]" ?pre rest] by simp
  have buf: "nuls (name # args) = name @ 0 # nuls args" by (simp add: nuls_def)
  have "map (string_at (nuls (name # args) @ rest)) (0 # offsets (length ?pre) args) = name # args"
    using strings_at_nuls [of "name # args" "[]" rest] name args by (auto simp: arg_ok_def)
  then show ?thesis using False sep parse
    by (simp add: parseParameter_def at_line_def buf)
qed

section \<open>The two command tables\<close>

lemma of_char_inj: "(of_nat (of_char c) :: u8) = of_nat (of_char d) \<longleftrightarrow> c = d"
proof
  assume "(of_nat (of_char c) :: u8) = of_nat (of_char d)"
  then have "unat (of_nat (of_char c) :: u8) = unat (of_nat (of_char d) :: u8)" by simp
  then have "(of_char c :: nat) = of_char d" by (simp add: unat_of_nat)
  then show "c = d" by simp
qed simp

lemma ascii_inj: "ascii s = ascii t \<longleftrightarrow> s = t"
  by (simp add: ascii_def inj_map_eq_map inj_def of_char_inj)

text \<open>The chain of comparisons as a list.\<close>

definition request_names :: "(string \<times> request) list" where
  "request_names = [
     (''+HELP'', REQ_HELP), (''+VER'', REQ_VER), (''+SVER'', REQ_SVER), (''+SAVE'', REQ_SAVE),
     (''+FACTORY'', REQ_FACTORY), (''+RST'', REQ_RST), (''+SYSTIME'', REQ_SYSTIME),
     (''+BAUDRATE'', REQ_BAUDRATE), (''+UARTFT'', REQ_UARTFT), (''+UARTFL'', REQ_UARTFL),
     (''+MSLP'', REQ_MSLP), (''+LSLPT'', REQ_LSLPT), (''+IPCONFIG'', REQ_IPCONFIG),
     (''+PING'', REQ_PING), (''+MAC'', REQ_MAC), (''+WQSOPT'', REQ_WQSOPT),
     (''+WSCANAP'', REQ_WSCANAP), (''+WSTOP'', REQ_WSTOP), (''+WPHYMODE'', REQ_WPHYMODE),
     (''+WTXRATE'', REQ_WTXRATE), (''+WSBCN'', REQ_WSBCN), (''+WSCAP'', REQ_WSCAP),
     (''+WSMTCONF'', REQ_WSMTCONF), (''+NQSCNN'', REQ_NQSCNN), (''+NLOCIP'', REQ_NLOCIP),
     (''+WSACONF'', REQ_WSACONF), (''+AIRKISS'', REQ_AIRKISS), (''+BCTTXSTART'', REQ_BCTTXSTART),
     (''+BCTTXSTOP'', REQ_BCTTXSTOP), (''+BCTTXDATA'', REQ_BCTTXDATA),
     (''+BCTRXSTART'', REQ_BCTRXSTART), (''+BCTRXSTOP'', REQ_BCTRXSTOP), (''+QUIT'', REQ_QUIT)]"

lemma stringTorequest_find:
  "stringTorequest s = map_option snd (List.find (\<lambda>e. map toupper s = ascii (fst e)) request_names)"
  by (simp add: stringTorequest_def request_names_def Let_def)

lemma names_table: "set (map (\<lambda>e. (snd e, ''AT'' @ fst e)) request_names) = set s_at_commands"
  unfolding request_names_def s_at_commands_def by (simp add: insert_commute)

lemma names_distinct: "distinct (map fst request_names) \<and> distinct (map snd request_names)"
  by (simp add: request_names_def)


lemma commands_distinct: "distinct (map fst s_at_commands)"
  by (simp add: s_at_commands_def)

lemma find_distinct:
  "distinct (map f xs) \<Longrightarrow> x \<in> set xs \<Longrightarrow> List.find (\<lambda>e. f e = f x) xs = Some x"
  by (induction xs) auto

lemma stringTorequest_iff:
  "stringTorequest s = Some r \<longleftrightarrow> (\<exists>n. (r, ''AT'' @ n) \<in> set s_at_commands \<and> map toupper s = ascii n)"
proof
  assume "stringTorequest s = Some r"
  then obtain e where "List.find (\<lambda>e. map toupper s = ascii (fst e)) request_names = Some e" "r = snd e"
    by (auto simp: stringTorequest_find)
  then have "e \<in> set request_names" "map toupper s = ascii (fst e)"
    by (auto simp: find_Some_iff)
  then show "\<exists>n. (r, ''AT'' @ n) \<in> set s_at_commands \<and> map toupper s = ascii n"
    using \<open>r = snd e\<close> unfolding names_table [symmetric] by (intro exI [of _ "fst e"]) auto
next
  assume "\<exists>n. (r, ''AT'' @ n) \<in> set s_at_commands \<and> map toupper s = ascii n"
  then obtain e where e: "e \<in> set request_names" "r = snd e" "map toupper s = ascii (fst e)"
    unfolding names_table [symmetric] by auto
  then have "List.find (\<lambda>e'. fst e' = fst e) request_names = Some e"
    using find_distinct [of fst request_names e] names_distinct by blast
  moreover have "(\<lambda>e' :: string \<times> request. map toupper s = ascii (fst e')) = (\<lambda>e'. fst e' = fst e)"
    using e(3) by (auto simp: ascii_inj)
  ultimately have "List.find (\<lambda>e'. map toupper s = ascii (fst e')) request_names = Some e" by (simp only:)
  then show "stringTorequest s = Some r" by (simp add: stringTorequest_find e(2))
qed

lemma find_command_eq: "find_command (a # as) = stringTorequest a"
proof (cases "stringTorequest a")
  case (Some r)
  then obtain n where "(r, n) \<in> set s_at_commands" by (auto simp: stringTorequest_iff)
  from find_distinct [OF commands_distinct this] Some show ?thesis by (simp add: find_command_def)
qed (simp add: find_command_def)

section \<open>Properties\<close>

text \<open>C23: a command line is taken apart as it was put together: the name in front of the equals sign
  and the arguments between the commas, empty ones included.  With 49 or more arguments the store of the
  pointers leaves the array \<open>argv\<close>, which a line of 52 bytes achieves.\<close>

theorem at_parse_line:
  assumes "0 \<notin> set name" "0x3d \<notin> set name" and "\<forall>a\<in>set args. 0 \<notin> set a \<and> 0x2c \<notin> set a"
  shows "map_option snd (parseParameter (at_line name args @ 0 # rest)) =
     (if length args < 49 then Some (name # args) else None)"
  using parseParameter_ok [of name args rest] assms by (simp add: arg_ok_def)

lemma at_parse_line_witness:
  "map_option snd (parseParameter [0x2b, 0x58, 0x3d, 0x31, 0x2c, 0x2c, 0x32, 0, 7]) = Some [[0x2b, 0x58], [0x31], [], [0x32]]
   \<and> map_option snd (parseParameter ([0x2b, 0x58, 0x3d] @ replicate 48 0x2c @ [0])) = None"
proof -
  have c: "commas (replicate (Suc k) []) = replicate k 0x2c" for k
    by (induction k) auto
  have "at_line [0x2b, 0x58] (replicate 49 []) = [0x2b, 0x58, 0x3d] @ replicate 48 0x2c"
    using c [of 48] by (simp add: at_line_def)
  then show ?thesis
    using at_parse_line [of "[0x2b, 0x58]" "[[0x31], [], [0x32]]" "[7]"]
      at_parse_line [of "[0x2b, 0x58]" "replicate 49 []" "[]"]
    by (simp add: at_line_def)
qed

text \<open>\<open>processCommand\<close> finds the handler of exactly the commands of its table, in letters of either
  case: the chain of \<open>stringTorequest\<close> and the table \<open>s_at_commands\<close> agree.\<close>

theorem at_command_lookup:
  "find_command (a # args) = Some r \<longleftrightarrow>
     (\<exists>n. (r, ''AT'' @ n) \<in> set s_at_commands \<and> map toupper a = ascii n)"
  by (simp add: find_command_eq stringTorequest_iff)

end
