(* ===== verification/IpAddr.thy ===== *)
theory IpAddr
  imports StrLib
begin

text \<open>
  The address functions of the IP stack, \<^verbatim>\<open>LwIP/src/core/ipv4/ip_addr.c\<close>: the test for broadcast
  addresses, the test of network masks, and the conversion between an address and its text.  An address is
  the 32-bit word in network order, as it lies in memory; a string that is read is the list of its bytes
  before the NUL.
\<close>

section \<open>Broadcast addresses and masks\<close>

record netif =
  ip_addr :: u32
  netmask :: u32
  flag_broadcast :: bool

definition ip4_addr_isbroadcast :: "u32 \<Rightarrow> netif \<Rightarrow> bool" where
  "ip4_addr_isbroadcast addr nif =
     (if NOT addr = 0 \<or> addr = 0 then True
      else if \<not> flag_broadcast nif then False
      else if addr = ip_addr nif then False
      else if addr AND netmask nif = ip_addr nif AND netmask nif
              \<and> addr AND NOT (netmask nif) = 0xffffffff AND NOT (netmask nif)
      then True else False)"

text \<open>The loops over \<open>mask = 1 << (k - 1)\<close>; \<^term>\<open>0 :: nat\<close> is the end, \<open>mask = 0\<close>.\<close>

fun first_zero :: "u32 \<Rightarrow> nat \<Rightarrow> nat" where
  "first_zero nm 0 = 0"
| "first_zero nm (Suc k) = (if nm AND push_bit k 1 = 0 then Suc k else first_zero nm k)"

fun no_one :: "u32 \<Rightarrow> nat \<Rightarrow> bool" where
  "no_one nm 0 = True"
| "no_one nm (Suc k) = (if nm AND push_bit k 1 \<noteq> 0 then False else no_one nm k)"

definition ip4_addr_netmask_valid :: "u32 \<Rightarrow> bool" where
  "ip4_addr_netmask_valid nm = (let h = lwip_htonl nm in no_one h (first_zero h 32))"

section \<open>From text\<close>

definition isxdigit :: "u8 \<Rightarrow> bool" where
  "isxdigit c \<longleftrightarrow> isdigit c \<or> 0x61 \<le> c \<and> c \<le> 0x66 \<or> 0x41 \<le> c \<and> c \<le> 0x46"

definition islower :: "u8 \<Rightarrow> bool" where
  "islower c \<longleftrightarrow> 0x61 \<le> c \<and> c \<le> 0x7a"

definition isspace :: "u8 \<Rightarrow> bool" where
  "isspace c \<longleftrightarrow> c \<in> {0x20, 0x0c, 0x0a, 0x0d, 0x09, 0x0b}"

text \<open>The digits of one part: its value and what follows.\<close>

fun aton_digits :: "u32 \<Rightarrow> u32 \<Rightarrow> u8 list \<Rightarrow> u32 \<times> u8 list" where
  "aton_digits base val [] = (val, [])"
| "aton_digits base val (c # cp) =
     (if isdigit c then aton_digits base (val * base + (ucast c - 0x30)) cp
      else if base = 16 \<and> isxdigit c
      then aton_digits base (push_bit 4 val OR (ucast c + 10 - (if islower c then 0x61 else 0x41))) cp
      else (val, c # cp))"

definition aton_base :: "u8 list \<Rightarrow> u32 \<times> u8 list" where
  "aton_base cp =
     (case cp of
        c # cs \<Rightarrow>
          if c = 0x30 then
            (case cs of d # ds \<Rightarrow> if d = 0x78 \<or> d = 0x58 then (16, ds) else (8, cs) | [] \<Rightarrow> (8, cs))
          else (10, cp)
      | [] \<Rightarrow> (10, cp))"

lemma length_aton_digits: "length (snd (aton_digits base val cp)) \<le> length cp"
  by (induction base val cp rule: aton_digits.induct) auto

lemma length_aton_base: "length (snd (aton_base cp)) \<le> length cp"
  by (simp add: aton_base_def split: list.split)

text \<open>The parts before the last, the last value and the rest of the string.\<close>

function aton_parts :: "u32 list \<Rightarrow> u8 list \<Rightarrow> (u32 list \<times> u32 \<times> u8 list) option" where
  "aton_parts pp cp =
     (if cp = [] \<or> \<not> isdigit (hd cp) then None
      else let (base, cs) = aton_base cp; (val, rest) = aton_digits base 0 cs
           in case rest of
                c # cs' \<Rightarrow>
                  if c = 0x2e then (if 3 \<le> length pp then None else aton_parts (pp @ [val]) cs')
                  else Some (pp, val, rest)
              | [] \<Rightarrow> Some (pp, val, rest))"
  by pat_completeness auto
termination
proof (relation "measure (\<lambda>(pp, cp). length cp)", goal_cases)
  case (2 pp cp x base cs y val rest c cs')
  then have "length rest \<le> length cp"
    using length_aton_digits [of base 0 cs] length_aton_base [of cp] by (metis le_trans snd_conv)
  then show ?case using 2 by simp
qed simp

declare aton_parts.simps [simp del]

definition ipaddr_aton :: "u8 list \<Rightarrow> u32 option" where
  "ipaddr_aton cp = do {
     (pp, val, rest) \<leftarrow> aton_parts [] cp;
     if rest \<noteq> [] \<and> \<not> isspace (hd rest) then None
     else
       (case pp of
          [] \<Rightarrow> Some (lwip_htonl val)
        | [a] \<Rightarrow> if 0xffffff < val then None else Some (lwip_htonl (val OR push_bit 24 a))
        | [a, b] \<Rightarrow> if 0xffff < val then None
                    else Some (lwip_htonl (val OR (push_bit 24 a OR push_bit 16 b)))
        | [a, b, c] \<Rightarrow> if 0xff < val then None
                       else Some (lwip_htonl (val OR (push_bit 24 a OR push_bit 16 b OR push_bit 8 c)))
        | _ \<Rightarrow> Some (lwip_htonl val))
   }"

definition ipaddr_addr :: "u8 list \<Rightarrow> u32" where
  "ipaddr_addr cp = (case ipaddr_aton cp of Some v \<Rightarrow> v | None \<Rightarrow> 0xffffffff)"

section \<open>To text\<close>

text \<open>The digits of a byte in reverse, as \<open>inv\<close> collects them.\<close>

function ntoa_digits :: "u8 \<Rightarrow> u8 list" where
  "ntoa_digits ap =
     (0x30 + ap mod 10) # (let ap = ap div 10 in if ap \<noteq> 0 then ntoa_digits ap else [])"
  by pat_completeness auto
termination
  by (relation "measure unat") (auto simp: unat_div word_unat_eq_iff intro!: div_less_dividend)

declare ntoa_digits.simps [simp del]

text \<open>Storing characters while there is room in the buffer of \<open>buflen\<close> bytes.\<close>

fun ntoa_put :: "int \<Rightarrow> u8 list \<Rightarrow> u8 list \<Rightarrow> u8 list option" where
  "ntoa_put buflen out [] = Some out"
| "ntoa_put buflen out (c # cs) =
     (if buflen \<le> int (length out) then None else ntoa_put buflen (out @ [c]) cs)"

fun ntoa_bytes :: "int \<Rightarrow> u8 list \<Rightarrow> u8 list \<Rightarrow> u8 list option" where
  "ntoa_bytes buflen out [] = Some out"
| "ntoa_bytes buflen out (ap # aps) = do {
     out \<leftarrow> ntoa_put buflen out (rev (ntoa_digits ap));
     out \<leftarrow> ntoa_put buflen out [0x2e];
     ntoa_bytes buflen out aps
   }"

text \<open>The string in the buffer: the last dot becomes the NUL.\<close>

definition ipaddr_ntoa_r :: "u32 \<Rightarrow> int \<Rightarrow> u8 list option" where
  "ipaddr_ntoa_r addr buflen = map_option butlast (ntoa_bytes buflen [] (le32 addr))"

definition ipaddr_ntoa :: "u32 \<Rightarrow> u8 list option" where
  "ipaddr_ntoa addr = ipaddr_ntoa_r addr 16"

section \<open>Masks\<close>

lemma no_one_iff: "k \<le> 32 \<Longrightarrow> no_one nm k \<longleftrightarrow> (\<forall>j<k. \<not> bit nm j)"
  by (induction k) (auto simp: and_exp_eq_0_iff_not_bit less_Suc_eq)

lemma first_zero_spec:
  "k \<le> 32 \<Longrightarrow> first_zero nm k \<le> k \<and> (\<forall>j. first_zero nm k \<le> j \<and> j < k \<longrightarrow> bit nm j)
     \<and> (0 < first_zero nm k \<longrightarrow> \<not> bit nm (first_zero nm k - 1))"
  by (induction k) (auto simp: and_exp_eq_0_iff_not_bit less_Suc_eq)

lemma netmask_valid_iff:
  "ip4_addr_netmask_valid nm \<longleftrightarrow> (\<exists>n\<le>32. lwip_htonl nm = NOT (mask n))"
proof -
  let ?h = "lwip_htonl nm" and ?f = "first_zero (lwip_htonl nm) 32"
  have f: "?f \<le> 32" "\<And>j. ?f \<le> j \<Longrightarrow> j < 32 \<Longrightarrow> bit ?h j"
    using first_zero_spec [of 32 ?h] by auto
  show ?thesis
  proof
    assume "ip4_addr_netmask_valid nm"
    then have "\<forall>j<?f. \<not> bit ?h j" using f by (simp add: ip4_addr_netmask_valid_def no_one_iff Let_def)
    then have "?h = NOT (mask ?f)"
      using f by (intro bit_word_eqI) (auto simp: bit_simps not_less)
    then show "\<exists>n\<le>32. ?h = NOT (mask n)" using f by blast
  next
    assume "\<exists>n\<le>32. ?h = NOT (mask n)"
    then obtain n where n: "n \<le> 32" "?h = NOT (mask n)" by blast
    have "\<not> bit ?h j" if "j < ?f" for j
    proof -
      have "0 < ?f" using that by simp
      then have "\<not> bit ?h (?f - 1)" using first_zero_spec [of 32 ?h] by simp
      then have "?f - 1 < n" using f(1) \<open>0 < ?f\<close> by (simp add: n(2) bit_simps)
      then show ?thesis using that f(1) by (simp add: n(2) bit_simps)
    qed
    then show "ip4_addr_netmask_valid nm" using f by (simp add: ip4_addr_netmask_valid_def no_one_iff Let_def)
  qed
qed

section \<open>Digits\<close>

lemma ntoa_digits_dec: "rev (ntoa_digits b) = dec (unat b)"
proof (induction b rule: ntoa_digits.induct)
  case (1 b)
  have z: "b div 10 = 0 \<longleftrightarrow> unat b < 10"
    by (simp add: word_unat_eq_iff unat_div div_eq_0_iff)
  have m: "b mod 10 = of_nat (unat b mod 10)"
    by (simp add: word_unat_eq_iff unat_mod unat_of_nat)
  show ?case
    using 1 by (subst ntoa_digits.simps, subst dec.simps) (auto simp: Let_def z m unat_div)
qed

lemma aton_digits_append:
  "\<forall>c\<in>set ds. isdigit c \<Longrightarrow> aton_digits 10 v (ds @ rest) = aton_digits 10 (sec_value v ds) rest"
  by (induction ds arbitrary: v) (simp_all add: add_diff_eq)

lemma aton_digits_stop: "rest = [] \<or> \<not> isdigit (hd rest) \<Longrightarrow> aton_digits 10 v rest = (v, rest)"
  by (cases rest) auto

lemma hd_dec: "0 < n \<Longrightarrow> hd (dec n) \<noteq> 0x30"
proof (induction n rule: dec.induct)
  case (1 n)
  show ?case
  proof (cases "n < 10")
    case True
    then have "unat (0x30 + of_nat n :: u8) = 48 + n" by (simp add: unat_add_small unat_of_nat)
    then show ?thesis using True 1(2) by (subst dec.simps) (auto simp: word_unat_eq_iff)
  next
    case False
    then show ?thesis using 1 by (subst dec.simps) (simp add: dec_nonempty)
  qed
qed

lemma aton_part:
  assumes "rest = [] \<or> \<not> isdigit (hd rest)" "rest = [] \<or> hd rest \<notin> {0x78, 0x58}"
  shows "(let (base, cs) = aton_base (dec n @ rest) in aton_digits base 0 cs) = (of_nat n, rest)"
proof (cases "n = 0")
  case True
  then have "dec n = [0x30]" by (simp add: dec.simps)
  then have "aton_base (dec n @ rest) = (8, rest)"
    using assms(2) by (auto simp: aton_base_def split: list.split)
  moreover have "aton_digits 8 0 rest = (0, rest)" using assms(1) by (cases rest) auto
  ultimately show ?thesis using True by simp
next
  case False
  then have "hd (dec n @ rest) \<noteq> 0x30" "dec n @ rest \<noteq> []" using hd_dec [of n] dec_nonempty [of n] by simp_all
  then have "aton_base (dec n @ rest) = (10, dec n @ rest)"
    by (cases "dec n @ rest") (simp_all add: aton_base_def)
  then show ?thesis
    using dec_digits [of n] aton_digits_stop [OF assms(1)] by (simp add: aton_digits_append sec_value_dec)
qed

lemma aton_parts_step:
  assumes "rest = [] \<or> \<not> isdigit (hd rest)" "rest = [] \<or> hd rest \<notin> {0x78, 0x58}"
  shows "aton_parts pp (dec n @ rest) =
    (case rest of
       c # cs' \<Rightarrow> if c = 0x2e then (if 3 \<le> length pp then None else aton_parts (pp @ [of_nat n]) cs')
                  else Some (pp, of_nat n, rest)
     | [] \<Rightarrow> Some (pp, of_nat n, rest))"
proof -
  obtain base cs where b: "aton_base (dec n @ rest) = (base, cs)" by fastforce
  have "dec n @ rest \<noteq> []" "isdigit (hd (dec n @ rest))"
    using dec_nonempty [of n] dec_digits [of n] by (simp_all add: hd_append)
  then show ?thesis
    using aton_part [OF assms, of n] by (simp add: aton_parts.simps [of _ "dec n @ rest"] b split: list.split)
qed

lemma ipaddr_aton_dotted:
  assumes "a < 256" "b < 256" "c < 256" "d < 256"
  shows "ipaddr_aton (dotted [a, b, c, d]) =
    Some (lwip_htonl (of_nat d OR (push_bit 24 (of_nat a) OR push_bit 16 (of_nat b) OR push_bit 8 (of_nat c))))"
proof -
  have "aton_parts [] (dotted [a, b, c, d]) = Some ([of_nat a, of_nat b, of_nat c], of_nat d, [])"
    using aton_parts_step [of "[]" _ d]
    by (simp add: dotted_def aton_parts_step)
  moreover have "\<not> (0xff :: u32) < of_nat d"
    using assms(4) by (simp add: word_less_nat_alt unat_of_nat)
  ultimately show ?thesis by (simp add: ipaddr_aton_def)
qed

lemma ntoa_put_ok: "int (length out + length cs) \<le> buflen \<Longrightarrow> ntoa_put buflen out cs = Some (out @ cs)"
  by (induction cs arbitrary: out) auto

lemma length_dec_byte: "n < 256 \<Longrightarrow> length (dec n) \<le> 3"
  by (subst dec.simps, subst dec.simps, subst dec.simps) auto

lemma ipaddr_ntoa_dotted:
  "ipaddr_ntoa_r addr 16 = Some (dotted (map unat (le32 addr)))"
proof -
  have len: "length (dec (unat b)) \<le> 3" for b :: u8
    by (rule length_dec_byte) (use unsigned_less [of b, where ?'a = nat] in simp)
  obtain a b c d where le: "le32 addr = [a, b, c, d]" by (simp add: le32_def)
  have "ntoa_bytes 16 [] [a, b, c, d] =
      Some ((((dec (unat a) @ [0x2e]) @ dec (unat b) @ [0x2e]) @ dec (unat c) @ [0x2e]) @ dec (unat d) @ [0x2e])"
    using len [of a] len [of b] len [of c] len [of d]
    by (simp add: ntoa_digits_dec ntoa_put_ok)
  then show ?thesis by (simp add: ipaddr_ntoa_r_def le dotted_def butlast_append)
qed


lemma ucast_byte: "(ucast (ucast w :: u8) :: u32) = take_bit 8 (w :: u32)"
  by (rule bit_word_eqI) (auto simp: bit_simps)

lemma htonl_le32:
  assumes "le32 addr = [a, b, c, d]"
  shows "lwip_htonl (ucast d OR (push_bit 24 (ucast a) OR push_bit 16 (ucast b) OR push_bit 8 (ucast c))) = addr"
proof -
  have "a = ucast addr" "b = ucast (drop_bit 8 addr)" "c = ucast (drop_bit 16 addr)" "d = ucast (drop_bit 24 addr)"
    using assms by (simp_all add: le32_def)
  then have "ucast d OR (push_bit 24 (ucast a) OR push_bit 16 (ucast b) OR push_bit 8 (ucast c)) = lwip_htonl addr"
    by (simp only: ucast_byte lwip_htonl_parts) (simp only: ac_simps)
  then show ?thesis by simp
qed

section \<open>Properties\<close>

text \<open>The text of every address fits the buffer, reads back as the same address, and passes the check of
  the command interpreter unless the last number is zero.\<close>

theorem ipaddr_roundtrip:
  "\<exists>s. ipaddr_ntoa addr = Some s \<and> length s \<le> 15 \<and> ipaddr_aton s = Some addr
     \<and> is_valid_ip s = (if drop_bit 24 addr = 0 then -1 else 0)"
proof -
  obtain a b c d where le: "le32 addr = [a, b, c, d]" by (simp add: le32_def)
  have lt: "unat x < 256" for x :: u8
    using unsigned_less [of x, where ?'a = nat] by simp
  let ?s = "dotted [unat a, unat b, unat c, unat d]"
  have w: "(of_nat (unat x) :: u32) = ucast x" for x :: u8 by (rule of_nat_unat)
  have s: "ipaddr_ntoa addr = Some ?s" using ipaddr_ntoa_dotted [of addr] le by (simp add: ipaddr_ntoa_def)
  have "length ?s \<le> 15"
    using length_dec_byte [OF lt, of a] length_dec_byte [OF lt, of b] length_dec_byte [OF lt, of c]
      length_dec_byte [OF lt, of d] by (simp add: dotted_def)
  moreover have "ipaddr_aton ?s = Some addr"
    using ipaddr_aton_dotted [OF lt lt lt lt, of a b c d] htonl_le32 [OF le] by (simp only: w)
  moreover have "is_valid_ip ?s = (if drop_bit 24 addr = 0 then -1 else 0)"
  proof -
    have "d = ucast (drop_bit 24 addr)" using le by (simp add: le32_def)
    then have "drop_bit 24 addr = ucast d"
      by (intro bit_word_eqI) (auto simp: bit_simps dest: bit_imp_le_length)
    moreover have "(ucast d :: u32) = 0 \<longleftrightarrow> d = 0"
    proof -
      have "unat d < 2 ^ 32" using lt [of d] by simp
      then show ?thesis by (simp add: word_unat_eq_iff unsigned_ucast_eq take_bit_nat_eq_self)
    qed
    ultimately show ?thesis
      using sec_ok_nat [OF lt, of a] sec_ok_nat [OF lt, of b] sec_ok_nat [OF lt, of c] sec_ok_nat [OF lt, of d]
      by (simp add: is_valid_ip_iff accepted_dotted4 w)
  qed
  ultimately show ?thesis using s by blast
qed

text \<open>The check of the command interpreter and the conversion behind it disagree: a number with a
  leading zero is checked as decimal and converted as octal, and texts with an empty or a wrapped section pass the
  check and cannot be converted, which leaves the caller's address unset.\<close>

theorem ipaddr_check_differs:
  "is_valid_ip (dotted [192, 168, 0] @ [0x2e, 0x30, 0x31, 0x30]) = 0
   \<and> ipaddr_aton (dotted [192, 168, 0] @ [0x2e, 0x30, 0x31, 0x30]) = ipaddr_aton (dotted [192, 168, 0, 8])
   \<and> is_valid_ip [0x2e, 0x2e, 0x2e, 0x31] = 0 \<and> ipaddr_aton [0x2e, 0x2e, 0x2e, 0x31] = None
   \<and> is_valid_ip (dotted [4294967297, 1, 1, 1]) = 0
   \<and> ipaddr_aton (dotted [4294967297, 1, 1, 1]) = ipaddr_aton (dotted [1, 1, 1, 1])"
proof -
  have d: "dec 192 = [0x31, 0x39, 0x32]" "dec 168 = [0x31, 0x36, 0x38]" "dec 0 = [0x30]" "dec 8 = [0x38]"
    "dec 1 = [0x31]" "dec (Suc 0) = [0x31]" "dec 4294967297 = [0x34, 0x32, 0x39, 0x34, 0x39, 0x36, 0x37, 0x32, 0x39, 0x37]"
    by (simp_all add: dec.simps)
  have "lwip_htonl 72057594054770945 = lwip_htonl 16843009" by (rule arg_cong) simp
  then show ?thesis
    by (simp add: dotted_def d is_valid_ip_def isdigit_def ipaddr_aton_def aton_parts.simps aton_base_def)
qed

end
