(* ===== verification/AtCmd.thy ===== *)
theory AtCmd
  imports AtLine IpAddr Params CLib
begin

text \<open>
  The commands of the serial interface, \<^verbatim>\<open>App/SerialNet/at_cmd.c\<close>: the handlers behind the table of
  \<^verbatim>\<open>AtLine\<close> and \<open>processCommand\<close>.  A handler gets the strings of \<open>argv\<close>; \<open>argc\<close> is their number.  Its
  effects are on the user parameters, the system parameters and the requests to the WiFi task
  (\<^verbatim>\<open>Params\<close>), and the list of what it prints, each entry the format of a \<open>printf\<close> without its line
  end and the arguments.  \<open>SaveUserParam\<close> appends to the list of saved parameters, \<open>BSP_ChipReset\<close> sets a flag;
  \<open>OSTimeDly\<close> has no effect.  \<^term>\<open>None\<close> is an access outside of an array.
\<close>

section \<open>State\<close>

datatype sys_evt =
  SYS_EVT_LINK_DOWN | SYS_EVT_LINK_UP | SYS_EVT_JOIN_FAIL | SYS_EVT_DHCP_FAIL | SYS_EVT_SCAN_DONE
  | SYS_EVT_DIRECT_CFG_DONE

record user_param =
  isValid :: u32
  up_atMode :: u8
  SleepMode :: u8
  Baudrate :: u32
  socketProtocol :: u8
  socketType :: u8
  socketPort :: u16
  remoteCommIp :: u32
  up_frameLength :: u16
  up_frameGap :: u16
  cfg :: cfg_param

record broadcast_sts =
  tx_status :: u16
  tx_port :: u16
  tx_len :: u32
  tx_sockfd :: int
  rx_status :: u16
  rx_port :: u16
  rx_sockfd :: int

record conn_status =
  connStatus :: u8
  cs_socketProtocol :: u8
  cs_socketType :: u8
  cs_socketPort :: u16
  remoteIp :: u32
  localIp :: u32
  sockfd :: int
  connectFd :: int

datatype at_arg = I int | S "u8 list"

record at_sys =
  inf :: sys
  user :: user_param
  link_status :: sys_evt
  rate_opt :: "u8 \<times> u8"
  beacon_opt :: "u32 \<times> u8"
  smtconfigBegin :: u8
  broadcast_status :: broadcast_sts
  WifiConnStatus :: conn_status
  uart_rate :: u32
  saved :: "user_param list"
  closed :: "int list"
  chip_reset :: bool
  out :: "(string \<times> at_arg list) list"

text \<open>What the handlers read and the model does not contain: results of the socket calls, the launch
  ticks, and the contents of an uninitialised variable.\<close>

record at_env =
  r_socket :: int
  r_setsockopt :: int
  r_bind :: int
  r_sendto :: int
  ticks :: int
  uninit :: u32

definition say :: "string \<Rightarrow> at_arg list \<Rightarrow> at_sys \<Rightarrow> at_sys" where
  "say fmt args s = s\<lparr>out := out s @ [(fmt, args)]\<rparr>"

definition error :: "int \<Rightarrow> at_sys \<Rightarrow> at_sys" where
  "error code s = say ''+ERROR=%d'' [I code] s"

abbreviation INVALID_COMMAND :: int where "INVALID_COMMAND \<equiv> -1"
abbreviation INVALID_PARAMETER :: int where "INVALID_PARAMETER \<equiv> -2"

definition upd_inf :: "(sys \<Rightarrow> sys \<times> int) \<Rightarrow> at_sys \<Rightarrow> at_sys" where
  "upd_inf f s = s\<lparr>inf := fst (f (inf s))\<rparr>"

definition upd_user :: "(user_param \<Rightarrow> user_param) \<Rightarrow> at_sys \<Rightarrow> at_sys" where
  "upd_user f s = s\<lparr>user := f (user s)\<rparr>"

text \<open>\<open>memcpy(&UserParam.cfg, &SysParam, sizeof(CFG_PARAM))\<close>\<close>

definition copy_cfg :: "at_sys \<Rightarrow> at_sys" where
  "copy_cfg s = upd_user (\<lambda>u. u\<lparr>cfg := SysParam (inf s)\<rparr>) s"

definition link_started :: "at_sys \<Rightarrow> bool" where
  "link_started s \<longleftrightarrow> link_status s = SYS_EVT_LINK_UP \<or> link_status s = SYS_EVT_SCAN_DONE"

definition is_num :: "u8 list \<Rightarrow> bool" where
  "is_num str \<longleftrightarrow> str_is_digit str \<noteq> 0"

abbreviation query :: "u8 list list \<Rightarrow> bool" where
  "query argv \<equiv> length argv = 2 \<and> argv ! 1 = [0x3f]"

section \<open>Base commands\<close>

definition responseHELP :: "at_sys \<Rightarrow> u8 list list \<Rightarrow> at_sys" where
  "responseHELP s argv =
     (if length argv \<noteq> 1 then error INVALID_COMMAND s
      else s\<lparr>out := out s @ (''+++++++ COMMAND LIST ++++++'', [])
               # map (\<lambda>(r, n). (''%s'', [S (ascii n)])) s_at_commands
               @ [(''------- COMMAND LIST ------ +OK'', [])]\<rparr>)"

definition responseVER :: "at_sys \<Rightarrow> u8 list list \<Rightarrow> at_sys" where
  "responseVER s argv =
     (if length argv \<noteq> 1 then error INVALID_COMMAND s
      else say ''+OK=ATI:%d.%02x.%02x'' [I 1, I 5, I 0] s)"

definition responseSVER :: "at_sys \<Rightarrow> u8 list list \<Rightarrow> at_sys" where
  "responseSVER s argv =
     (if length argv \<noteq> 1 then error INVALID_COMMAND s
      else say ''+OK=%s:%x.%02x.%02x'' [S (ascii ''SDK''), I 1, I 0x13, I 0] s)"

definition SaveUserParam :: "at_sys \<Rightarrow> at_sys" where
  "SaveUserParam s = s\<lparr>saved := saved s @ [user s]\<rparr>"

definition responseSAVE :: "at_sys \<Rightarrow> u8 list list \<Rightarrow> at_sys" where
  "responseSAVE s argv =
     (if length argv \<noteq> 1 then error INVALID_COMMAND s
      else say ''+OK'' [] (SaveUserParam (upd_user (\<lambda>u. u\<lparr>isValid := 0x01020304\<rparr>) s)))"

definition zero_cfg :: cfg_param where
  "zero_cfg = \<lparr>WiFiCfg = \<lparr>Ssid = replicate 33 0, SSIDBrdEnable = 0, PhyMode = 0, Channel = 0,
     Encry = 0, AuthMode = 0, Protocol = 0, KeyLength = 0, KeyIndex = 0, PSK = replicate 64 0, WscEn = 0,
     ConTryTimes = 0, WmmEn = 0\<rparr>, IPCfg = \<lparr>Ip = [0, 0, 0, 0], Netmask = [0, 0, 0, 0], GateWay = [0, 0, 0, 0],
     Dns = [0, 0, 0, 0], bDhcp = 0, DhcpTryTimes = 0, Res_2 = [0, 0]\<rparr>, bDhcpServer = 0, bDnsServer = 0,
     cfg_DnsName = replicate 33 0, Res_3 = 0\<rparr>"

definition zero_user :: user_param where
  "zero_user = \<lparr>isValid = 0, up_atMode = 0, SleepMode = 0, Baudrate = 0, socketProtocol = 0, socketType = 0,
     socketPort = 0, remoteCommIp = 0, up_frameLength = 0, up_frameGap = 0, cfg = zero_cfg\<rparr>"

definition responseFACTORY :: "at_sys \<Rightarrow> u8 list list \<Rightarrow> at_sys" where
  "responseFACTORY s argv =
     (if length argv \<noteq> 1 then error INVALID_COMMAND s
      else (say ''+OK:rebooting...'' [] (SaveUserParam (s\<lparr>user := zero_user\<rparr>)))\<lparr>chip_reset := True\<rparr>)"

definition responseRST :: "at_sys \<Rightarrow> u8 list list \<Rightarrow> at_sys" where
  "responseRST s argv =
     (if length argv \<noteq> 1 then error INVALID_COMMAND s
      else (say ''+OK:RST'' [] s)\<lparr>chip_reset := True\<rparr>)"

definition responseSYSTIME :: "at_env \<Rightarrow> at_sys \<Rightarrow> u8 list list \<Rightarrow> at_sys" where
  "responseSYSTIME e s argv =
     (if length argv \<noteq> 1 then error INVALID_COMMAND s
      else say ''+OK=SYSTIME:%d'' [I (sint (word_of_int (InfSysTimeGet (ticks e)) :: u32))] s)"

definition baud_rates :: "u32 list" where
  "baud_rates = [300, 1200, 2400, 4800, 9600, 19200, 38400, 57600, 115200, 156250, 250000, 312500,
     500000, 625000, 1250000]"

text \<open>The only handler that reads \<open>argv[1]\<close> before it looks at \<open>argc\<close>.\<close>

definition responseBAUDRATE :: "at_sys \<Rightarrow> u8 list list \<Rightarrow> at_sys option" where
  "responseBAUDRATE s argv =
     (if length argv < 2 then None
      else if argv ! 1 = [0x3f] \<and> length argv = 2
      then Some (say ''+OK=%d'' [I (sint (Baudrate (user s)))] s)
      else if length argv = 2 \<and> is_num (argv ! 1) then
        let rate = word_of_int (atoi (argv ! 1))
        in if rate \<in> set baud_rates
           then Some (upd_user (\<lambda>u. u\<lparr>Baudrate := rate\<rparr>) ((say ''+OK'' [] s)\<lparr>uart_rate := rate\<rparr>))
           else Some (error INVALID_PARAMETER s)
      else Some (error INVALID_PARAMETER s))"

definition clamp_length :: "u16 \<Rightarrow> u16" where
  "clamp_length n = (if n < 32 then 32 else if 1400 < n then 1400 else n)"

definition responseUARTFL :: "at_sys \<Rightarrow> u8 list list \<Rightarrow> at_sys" where
  "responseUARTFL s argv =
     (if query argv then say ''+OK=UARTFL:%d'' [I (uint (up_frameLength (user s)))] s
      else if length argv = 2 \<and> is_num (argv ! 1) then
        let recvBufSize = word_of_int (atoi (argv ! 1))
        in say ''+OK'' [] (upd_user (\<lambda>u. u\<lparr>up_frameLength := clamp_length recvBufSize\<rparr>) s)
      else error INVALID_PARAMETER s)"

definition clamp_gap :: "int \<Rightarrow> u16" where
  "clamp_gap n = (if n < 30 then 30 else if 10000 < n then 10000 else word_of_int n)"

definition responseUARTFT :: "at_sys \<Rightarrow> u8 list list \<Rightarrow> at_sys" where
  "responseUARTFT s argv =
     (if query argv then say ''+OK=UARTFT:%d'' [I (uint (up_frameGap (user s)))] s
      else if length argv = 2 \<and> is_num (argv ! 1) then
        say ''+OK'' [] (upd_user (\<lambda>u. u\<lparr>up_frameGap := clamp_gap (atoi (argv ! 1))\<rparr>) s)
      else error INVALID_PARAMETER s)"

definition responseMSLP :: "at_sys \<Rightarrow> u8 list list \<Rightarrow> at_sys" where
  "responseMSLP s argv =
     (if length argv \<noteq> 1 then error INVALID_COMMAND s
      else if SleepMode (user s) = 0 then say ''+OK=NORMAL'' [] s else say ''+OK=LIGHT'' [] s)"

definition responseLSLPT :: "at_sys \<Rightarrow> u8 list list \<Rightarrow> at_sys" where
  "responseLSLPT s argv =
     (if length argv \<noteq> 4 \<or> \<not> is_num (argv ! 1) \<or> \<not> is_num (argv ! 2) \<or> \<not> is_num (argv ! 3)
         \<or> 3 < length (argv ! 2)
      then error INVALID_PARAMETER s
      else
        let mode = word_of_int (atoi (argv ! 1)) :: u32; time = word_of_int (atoi (argv ! 2)) :: u32;
            DTIM = word_of_int (atoi (argv ! 3)) :: u32
        in if (mode \<noteq> 0 \<and> mode \<noteq> 1 \<and> mode \<noteq> 2 \<and> mode \<noteq> 3) \<or> 255 < time \<or> time \<le> 0 \<or> 1 < DTIM
           then error INVALID_PARAMETER s
           else if \<not> link_started s then say ''+ERROR=WiFi isn't started'' [] s
           else
             let s = upd_user (\<lambda>u. u\<lparr>SleepMode := 1\<rparr>) s
             in if mode = 0
                then say ''+OK'' [] (upd_user (\<lambda>u. u\<lparr>SleepMode := 0\<rparr>) (upd_inf (InfPowerSaveSet 0) s))
                else
                  let s = upd_inf (InfListenIntervalSet (if time = 0 then 0 else ucast time) (ucast DTIM)) s
                  in say ''+OK'' [] (upd_inf (InfPowerSaveSet (ucast mode)) s))"

section \<open>WiFi commands\<close>

definition responseMAC :: "at_sys \<Rightarrow> u8 list list \<Rightarrow> at_sys" where
  "responseMAC s argv =
     (if length argv \<noteq> 1 then error INVALID_COMMAND s
      else s\<lparr>out := out s @ (''+OK=MAC'', []) # map (\<lambda>b. ('':%02x'', [I (uint b)])) (PermanentAddress (inf s))\<rparr>)"

text \<open>\<open>SysParam.WiFiCfg\<close> and its updates.\<close>

abbreviation wifi_of :: "at_sys \<Rightarrow> wifi_cfg" where
  "wifi_of s \<equiv> WiFiCfg (SysParam (inf s))"

definition upd_wifi_of :: "(wifi_cfg \<Rightarrow> wifi_cfg) \<Rightarrow> at_sys \<Rightarrow> at_sys" where
  "upd_wifi_of f s = s\<lparr>inf := upd_wifi f (inf s)\<rparr>"

text \<open>The answer to \<open>AT+WQSOPT=?\<close>: five parts, an error text for a value outside of its list.  \<open>cur\<close> is the channel
  \<open>InfCurChGet\<close> reports.\<close>

definition wqsopt_query :: "u8 \<Rightarrow> at_sys \<Rightarrow> at_sys" where
  "wqsopt_query cur s =
     (let w = wifi_of s;
          s = (if Protocol w = 0 then say ''+OK=STA,'' [] s
               else if Protocol w = 1 then say ''+OK=ADHOC,'' [] s
               else if Protocol w = 2 then say ''+OK=SOFTAP,'' [] s
               else say ''+<mode>ERROR=%d,'' [I INVALID_PARAMETER] s);
          s = say ''%d,'' [I (uint (if Protocol w = 0 then cur else Channel w))] s;
          s = (if Encry w = 0 then say ''none,'' [] s
               else if Encry w = 1 then say ''wep,'' [] s
               else if Encry w = 2 then say ''tkip,'' [] s
               else if Encry w = 3 then say ''ccmp,'' [] s
               else if Encry w = 4 then (if Protocol w = 2 then say ''none,'' [] s else say ''auto,'' [] s)
               else error INVALID_COMMAND s);
          s = (if AuthMode w = 0 then say ''open,'' [] s
               else if AuthMode w = 1 then say ''share,'' [] s
               else if AuthMode w = 2 then say ''wpa,'' [] s
               else if AuthMode w = 3 then say ''wpa2,'' [] s
               else error INVALID_COMMAND s)
      in if WmmEn w = 0 then say ''Disable'' [] s
         else if WmmEn w = 1 then say ''Enable'' [] s else s)"

definition responseWQSOPT :: "u8 \<Rightarrow> at_sys \<Rightarrow> u8 list list \<Rightarrow> at_sys" where
  "responseWQSOPT cur s argv =
     (if query argv then wqsopt_query cur s
      else if length argv = 6 then
        let mode = word_of_int (atoi (argv ! 1)) :: u8;
            channel = (if mode = 0 then 1 else word_of_int (atoi (argv ! 2))) :: u8;
            encry = word_of_int (atoi (argv ! 3)) :: u8;
            auth = word_of_int (atoi (argv ! 4)) :: u8;
            wmm = word_of_int (atoi (argv ! 5)) :: u8
        in if is_num (argv ! 1) \<and> length (argv ! 1) = 1 \<and> is_num (argv ! 2) \<and> length (argv ! 2) \<le> 2
              \<and> is_num (argv ! 3) \<and> length (argv ! 3) = 1 \<and> is_num (argv ! 4) \<and> length (argv ! 4) = 1
              \<and> is_num (argv ! 5) \<and> length (argv ! 5) = 1
           then
             if (mode \<noteq> 0 \<and> mode \<noteq> 1 \<and> mode \<noteq> 2) \<or> (channel < 1 \<or> 13 < channel) \<or> 4 < encry \<or> 3 < auth
                \<or> (wmm \<noteq> 0 \<and> wmm \<noteq> 1)
             then error INVALID_PARAMETER s
             else
               let s = (if link_started s then upd_inf InfWiFiStop s else s)
               in if encry = 0 \<and> auth \<noteq> 0 then error INVALID_PARAMETER s
                  else if mode = 2 \<and> encry = 4 \<and> auth \<noteq> 0 then error INVALID_PARAMETER s
                  else
                    let s = upd_inf (InfNetModeSet mode) s;
                        s = upd_wifi_of (\<lambda>w. w\<lparr>Channel := channel, Encry := encry, AuthMode := auth, WmmEn := wmm\<rparr>) s
                    in say ''+OK'' [] (copy_cfg s)
           else error INVALID_PARAMETER s
      else error INVALID_PARAMETER s)"

definition tx_rates :: "(string \<times> u8 \<times> u8) list" where
  "tx_rates = [(''0'', 0, 0), (''1'', 0, 1), (''2'', 0, 2), (''5.5'', 0, 3), (''11'', 0, 4),
     (''6'', 1, 1), (''9'', 1, 2), (''12'', 1, 3), (''18'', 1, 4), (''24'', 1, 5), (''36'', 1, 6),
     (''48'', 1, 7), (''54'', 1, 8)]"

definition mode_cck_rate :: "string list" where
  "mode_cck_rate = [''auto'', ''1Mbps'', ''2Mbps'', ''5.5Mbps'', ''11Mbps'']"

definition mode_ofdm_rate :: "string list" where
  "mode_ofdm_rate = [''auto'', ''6Mbps'', ''9Mbps'', ''12Mbps'', ''18Mbps'', ''24Mbps'', ''36Mbps'', ''48Mbps'',
     ''54Mbps'']"

text \<open>The entries of the tables beyond the texts are null pointers.\<close>

definition rate_text :: "string list \<Rightarrow> u8 \<Rightarrow> at_sys \<Rightarrow> at_sys option" where
  "rate_text tbl i s =
     (if unat i < length tbl then Some (say ''+OK=%s'' [S (ascii (tbl ! unat i))] s) else None)"

definition responseWTXRATE :: "at_sys \<Rightarrow> u8 list list \<Rightarrow> at_sys option" where
  "responseWTXRATE s argv =
     (if query argv then
        (if fst (rate_opt s) = 0 then rate_text mode_cck_rate (snd (rate_opt s)) s
         else if fst (rate_opt s) = 1 then rate_text mode_ofdm_rate (snd (rate_opt s)) s
         else Some (error INVALID_PARAMETER s))
      else if length argv = 2 then
        (case List.find (\<lambda>(t, _). argv ! 1 = ascii t) tx_rates of
           None \<Rightarrow> Some (error INVALID_PARAMETER s)
         | Some (_, mode, rate) \<Rightarrow>
             if \<not> link_started s then Some (say ''+ERROR=WiFi isn't started'' [] s)
             else
               let (inf', r) = InfTxRateSet mode rate (inf s); s = s\<lparr>inf := inf'\<rparr>
               in if r \<noteq> 0 then Some (error INVALID_PARAMETER s)
                  else Some (say ''+OK'' [] (s\<lparr>rate_opt := (mode, rate)\<rparr>)))
      else Some (error INVALID_PARAMETER s))"

definition responseWSBCN :: "at_sys \<Rightarrow> u8 list list \<Rightarrow> at_sys" where
  "responseWSBCN s argv =
     (if query argv then
        (if snd (beacon_opt s) = 0
         then say ''NotifyPeerEn:DISANBLE'' [] (say ''+OK=Period:%d  '' [I (sint (fst (beacon_opt s)))] s)
         else if snd (beacon_opt s) = 1
         then say ''NotifyPeerEn:ENABLE'' [] (say ''+OK=Period:%d  '' [I (sint (fst (beacon_opt s)))] s)
         else error INVALID_PARAMETER s)
      else if length argv = 3 \<and> is_num (argv ! 1) \<and> is_num (argv ! 2) \<and> length (argv ! 2) = 1 then
        (if Protocol (wifi_of s) = 0 then error INVALID_PARAMETER s
         else
           let period = word_of_int (atoi (argv ! 1)) :: u32; mode = word_of_int (atoi (argv ! 2)) :: u8
           in if 65535 < period \<or> (mode \<noteq> 0 \<and> mode \<noteq> 1) then error INVALID_PARAMETER s
              else
                let (inf', r) = InfBeaconPeriodSet (ucast period) mode (inf s); s = s\<lparr>inf := inf'\<rparr>
                in if r \<noteq> 0 then error INVALID_PARAMETER s
                   else if \<not> link_started s then say ''+ERROR=WiFi isn't started'' [] s
                   else say ''+OK'' [] (s\<lparr>beacon_opt := (ucast (ucast period :: u16), mode)\<rparr>))
      else error INVALID_PARAMETER s)"

text \<open>\<open>InfSsidSet\<close> and \<open>InfKeySet\<close> on a string of the command line.\<close>

definition set_ssid_key :: "u8 list \<Rightarrow> u8 list \<Rightarrow> at_sys \<Rightarrow> at_sys option" where
  "set_ssid_key ssid key s = do {
     (i, _) \<leftarrow> InfSsidSet (Some (ssid @ [0])) (of_nat (length ssid)) (inf s);
     (i, _) \<leftarrow> InfKeySet 0 (Some (key @ [0])) (of_nat (length key)) i;
     Some (s\<lparr>inf := i\<rparr>) }"

definition cstring :: "u8 list \<Rightarrow> u8 list" where
  "cstring = takeWhile (\<lambda>c. c \<noteq> 0)"

definition responseWSCAP :: "at_sys \<Rightarrow> u8 list list \<Rightarrow> at_sys option" where
  "responseWSCAP s argv =
     (if query argv then
        if unat (KeyLength (wifi_of s)) < length (PSK (wifi_of s)) then
          let s = upd_wifi_of (\<lambda>w. w\<lparr>PSK := (PSK w)[unat (KeyLength w) := 0]\<rparr>) s
          in Some (say ''+OK=%s,%s'' [S (cstring (Ssid (wifi_of s))), S (cstring (PSK (wifi_of s)))] s)
        else None
      else if length argv = 4 \<and> length (argv ! 1) \<le> 32 \<and> 0 < length (argv ! 1) \<and> length (argv ! 2) \<le> 64 then
        (if Protocol (wifi_of s) = 0 then
           (if \<not> is_num (argv ! 3) \<or> length (argv ! 3) = 0 then Some (error INVALID_PARAMETER s)
            else
              let Trytime = word_of_int (atoi (argv ! 3)) :: u32
              in if 255 < Trytime then Some (error INVALID_PARAMETER s)
                 else do {
                   let s = upd_inf (InfNetModeSet 0) (upd_inf InfWiFiStop s);
                   s \<leftarrow> set_ssid_key (argv ! 1) (argv ! 2) s;
                   let s = upd_inf (InfConTryTimesSet (ucast Trytime)) s;
                   let s = say ''+OK:connecting...'' [] s;
                   Some (copy_cfg (upd_inf InfWiFiStart s)) })
         else if Protocol (wifi_of s) = 2 then do {
           let s = upd_inf InfWiFiStop s;
           let s = s\<lparr>inf := (inf s)\<lparr>SysParam := (cfg (user s))\<lparr>bDhcpServer := 1, bDnsServer := 1\<rparr>\<rparr>\<rparr>;
           let s = upd_inf (InfNetModeSet 2) s;
           s \<leftarrow> set_ssid_key (argv ! 1) (argv ! 2) s;
           let s = say ''+OK:setting...'' [] s;
           Some (copy_cfg (upd_inf InfWiFiStart s)) }
         else Some s)
      else Some (error INVALID_PARAMETER s))"

definition responseWSMTCONF :: "at_sys \<Rightarrow> u8 list list \<Rightarrow> at_sys" where
  "responseWSMTCONF s argv =
     (if length argv \<noteq> 1 then error INVALID_COMMAND s
      else if smtconfigBegin s = 0 then
        let s = upd_inf (InfDirectCfgStart 0 0 0) (upd_inf (InfNetModeSet 0) (upd_inf InfWiFiStop s))
        in say ''+OK:DirectConfig...'' [] (s\<lparr>smtconfigBegin := 1\<rparr>)
      else error (-17) s)"

definition responseWSTOP :: "at_sys \<Rightarrow> u8 list list \<Rightarrow> at_sys" where
  "responseWSTOP s argv =
     (if length argv \<noteq> 1 then error INVALID_COMMAND s
      else if \<not> link_started s then say ''+ERROR=WiFi isn't started'' [] s
      else say ''+OK:WiFi Stopped'' [] (upd_inf InfWiFiStop s))"

definition responseWPHYMODE :: "at_sys \<Rightarrow> u8 list list \<Rightarrow> at_sys" where
  "responseWPHYMODE s argv =
     (if query argv then
        (if PhyMode (wifi_of s) = 1 then say ''+OK=PhyMode:b/g'' [] s
         else if PhyMode (wifi_of s) = 2 then say ''+OK=PhyMode:b'' [] s
         else error INVALID_PARAMETER s)
      else if length argv = 2 \<and> is_num (argv ! 1) \<and> length (argv ! 1) = 1 then
        let mode = word_of_int (atoi (argv ! 1)) :: u32
        in if mode \<noteq> 1 \<and> mode \<noteq> 2 then error INVALID_PARAMETER s
           else if link_started s then say ''+ERROR=WiFi Started'' [] s
           else
             let s = upd_user (\<lambda>u. u\<lparr>cfg := (cfg u)\<lparr>WiFiCfg := (WiFiCfg (cfg u))\<lparr>PhyMode := ucast mode\<rparr>\<rparr>\<rparr>) s
             in say ''+OK'' [] (copy_cfg (upd_inf (InfPhyModeSet (ucast mode)) s))
      else error INVALID_PARAMETER s)"

section \<open>Network commands\<close>

text \<open>The four helpers of \<open>responseNQSCNN\<close>, on the argument they look at; with the result code.\<close>

definition responseNMODE :: "at_sys \<Rightarrow> u8 list \<Rightarrow> at_sys \<times> int" where
  "responseNMODE s a =
     (if is_num a \<and> length a = 1 then
        let protocol = word_of_int (atoi a) :: u8
        in if protocol \<noteq> 0 \<and> protocol \<noteq> 1 then (s, -1)
           else (copy_cfg (upd_user (\<lambda>u. u\<lparr>socketProtocol := protocol\<rparr>) s), 0)
      else (s, -1))"

definition responseNTYPE :: "at_sys \<Rightarrow> u8 list \<Rightarrow> at_sys \<times> int" where
  "responseNTYPE s a =
     (if is_num a \<and> length a = 1 then
        let nettype = word_of_int (atoi a) :: u8
        in if nettype \<noteq> 0 \<and> nettype \<noteq> 1 then (s, -1)
           else (copy_cfg (upd_user (\<lambda>u. u\<lparr>socketType := nettype\<rparr>) s), 0)
      else (s, -1))"

definition responseNPORT :: "at_sys \<Rightarrow> u8 list \<Rightarrow> at_sys \<times> int" where
  "responseNPORT s a =
     (if is_num a then
        (if 65535 < atoi a \<or> atoi a = 0 then (s, -1)
         else (copy_cfg (upd_user (\<lambda>u. u\<lparr>socketPort := word_of_int (atoi a)\<rparr>) s), 0))
      else (s, -1))"

text \<open>\<open>inet_aton\<close> leaves the variable as it is when it refuses the text.\<close>

definition inet_aton :: "u32 \<Rightarrow> u8 list \<Rightarrow> u32" where
  "inet_aton old a = (case ipaddr_aton a of Some v \<Rightarrow> v | None \<Rightarrow> old)"

definition responseNRMTIP :: "at_env \<Rightarrow> at_sys \<Rightarrow> u8 list \<Rightarrow> at_sys \<times> int" where
  "responseNRMTIP e s a =
     (if socketType (user s) = 1 then (s, 0)
      else if is_valid_ip a = 0
      then (copy_cfg (upd_user (\<lambda>u. u\<lparr>remoteCommIp := inet_aton (uninit e) a\<rparr>) s), 0)
      else (s, -1))"

definition text_of_ip :: "u32 \<Rightarrow> at_arg" where
  "text_of_ip a = S (case ipaddr_ntoa a of Some t \<Rightarrow> t | None \<Rightarrow> [])"

definition responseNQSCNN :: "at_env \<Rightarrow> at_sys \<Rightarrow> u8 list list \<Rightarrow> at_sys" where
  "responseNQSCNN e s argv =
     (if query argv then
        let s = (if socketProtocol (user s) = 0 then say ''+OK=UDP,'' [] s
                 else if socketProtocol (user s) = 1 then say ''+OK=TCP,'' [] s else s);
            s = (if socketType (user s) = 1 then say ''server,'' [] s
                 else if socketType (user s) = 0 then say ''client,'' [] s else s);
            s = say ''%d,'' [I (uint (socketPort (user s)))] s
        in say ''%s'' [text_of_ip (remoteCommIp (user s))] s
      else if length argv = 5 then
        let (s, r1) = responseNMODE s (argv ! 1);
            (s, r2) = responseNTYPE s (argv ! 2);
            (s, r3) = responseNPORT s (argv ! 3);
            (s, r4) = responseNRMTIP e s (argv ! 4);
            count = (if r1 = 0 then 1 else 0) + (if r2 = 0 then 1 else 0)
              + (if r3 = 0 then 1 else 0) + (if r4 = 0 then 1 else 0) :: int
        in if count = 4 then say ''+OK'' [] s else error INVALID_PARAMETER s
      else error INVALID_PARAMETER s)"

text \<open>\<open>netif_ip\<close>: the address of the interface.\<close>

definition responseNLOCIP :: "at_env \<Rightarrow> u32 \<Rightarrow> at_sys \<Rightarrow> u8 list list \<Rightarrow> at_sys" where
  "responseNLOCIP e netif_ip s argv =
     (let ip = IPCfg (SysParam (inf s)) in
      if query argv then
        let s = (if link_started s then say ''Inet addr:%s    '' [text_of_ip netif_ip] s
                 else say ''+OK=IP:%d.%d.%d.%d'' (map (\<lambda>b. I (uint b)) (take 4 (Ip ip))) s);
            s = (if bDhcp ip = 0 then say ''dhcp:disable'' [] s else s);
            s = (if bDhcp ip = 1 then say ''dhcp:enable'' [] s else s)
        in say '' trytimes:%d'' [I (uint (DhcpTryTimes ip))] s
      else if length argv = 4 then
        (if is_valid_ip (argv ! 1) \<noteq> 0 then error INVALID_PARAMETER s
         else
           let mode = word_of_int (atoi (argv ! 2)) :: u8; trytimes = word_of_int (atoi (argv ! 3)) :: u8
           in if \<not> is_num (argv ! 2) \<or> length (argv ! 2) = 0 \<or> \<not> is_num (argv ! 3) \<or> length (argv ! 3) = 0
                 \<or> (mode \<noteq> 0 \<and> mode \<noteq> 1)
              then error INVALID_PARAMETER s
              else if link_started s then say ''+ERROR=WiFi Started'' [] s
              else
                let addr = le32 (inet_aton (uninit e) (argv ! 1));
                    ip = ip\<lparr>Ip := addr, GateWay := addr\<rparr>;
                    ip = (if Protocol (wifi_of s) = 0 then ip\<lparr>bDhcp := mode, DhcpTryTimes := trytimes\<rparr> else ip)
                in say ''+OK'' [] (copy_cfg (s\<lparr>inf := (inf s)\<lparr>SysParam := (SysParam (inf s))\<lparr>IPCfg := ip\<rparr>\<rparr>\<rparr>)))
      else error INVALID_PARAMETER s)"

definition upd_bcast :: "(broadcast_sts \<Rightarrow> broadcast_sts) \<Rightarrow> at_sys \<Rightarrow> at_sys" where
  "upd_bcast f s = s\<lparr>broadcast_status := f (broadcast_status s)\<rparr>"

definition lwip_close :: "int \<Rightarrow> at_sys \<Rightarrow> at_sys" where
  "lwip_close fd s = s\<lparr>closed := closed s @ [fd]\<rparr>"

definition responseBCTTXSTART :: "at_env \<Rightarrow> at_sys \<Rightarrow> u8 list list \<Rightarrow> at_sys" where
  "responseBCTTXSTART e s argv =
     (if length argv = 2 \<and> is_num (argv ! 1) then
        (if 65535 < atoi (argv ! 1) \<or> atoi (argv ! 1) = 0 then error INVALID_PARAMETER s
         else if \<not> link_started s then say ''+ERROR=link_status isn't SYS_EVT_LINK_UP'' [] s
         else if rx_status (broadcast_status s) \<noteq> 0 then error (-45) s
         else if tx_status (broadcast_status s) \<noteq> 0 then error (-40) s
         else
           let s = upd_bcast (\<lambda>b. b\<lparr>tx_port := word_of_int (atoi (argv ! 1)), tx_sockfd := r_socket e\<rparr>) s
           in if r_socket e = -1 then say ''+ERROR= %d'' [I (-41)] s
              else if r_setsockopt e = -1 then lwip_close (r_socket e) (say ''+ERROR= %d'' [I (-42)] s)
              else say ''+OK:BCTTXSTART'' [] (upd_bcast (\<lambda>b. b\<lparr>tx_status := 1\<rparr>) s))
      else error INVALID_PARAMETER s)"

definition responseBCTTXSTOP :: "at_sys \<Rightarrow> u8 list list \<Rightarrow> at_sys" where
  "responseBCTTXSTOP s argv =
     (if length argv \<noteq> 1 then error INVALID_COMMAND s
      else
        let s = upd_bcast (\<lambda>b. b\<lparr>tx_status := 0\<rparr>) s; fd = tx_sockfd (broadcast_status s);
            s = (if 0 \<le> fd then lwip_close fd s else s)
        in say ''+OK:BCTTXSTOP'' [] s)"

definition responseBCTTXDATA :: "at_env \<Rightarrow> at_sys \<Rightarrow> u8 list list \<Rightarrow> at_sys" where
  "responseBCTTXDATA e s argv =
     (if length argv = 3 \<and> is_num (argv ! 1) then
        let s = upd_bcast (\<lambda>b. b\<lparr>tx_len := word_of_int (atoi (argv ! 1))\<rparr>) s
        in if 256 < tx_len (broadcast_status s) \<or> tx_len (broadcast_status s) = 0
           then error INVALID_PARAMETER (upd_bcast (\<lambda>b. b\<lparr>tx_len := 0\<rparr>) s)
           else if \<not> link_started s then say ''+ERROR=link_status isn't SYS_EVT_LINK_UP'' [] s
           else if tx_sockfd (broadcast_status s) < 0 then say ''+ERROR= %d'' [I (-41)] s
           else if r_sendto e < 0 then error (-43) s
           else say ''+OK'' [] s
      else error INVALID_PARAMETER s)"

definition responseBCTRXSTART :: "at_env \<Rightarrow> at_sys \<Rightarrow> u8 list list \<Rightarrow> at_sys" where
  "responseBCTRXSTART e s argv =
     (if length argv = 2 \<and> is_num (argv ! 1) then
        (if 65535 < atoi (argv ! 1) \<or> atoi (argv ! 1) = 0 then error INVALID_PARAMETER s
         else if \<not> link_started s then say ''+ERROR=link_status isn't SYS_EVT_LINK_UP'' [] s
         else if tx_status (broadcast_status s) \<noteq> 0 then error (-40) s
         else if rx_status (broadcast_status s) \<noteq> 0 then error (-45) s
         else
           let s = upd_bcast (\<lambda>b. b\<lparr>rx_port := word_of_int (atoi (argv ! 1)), rx_sockfd := r_socket e\<rparr>) s
           in if r_socket e = -1 then error (-46) s
              else if r_bind e = -1 then error (-47) s
              else say ''+OK:BCTRXSTART'' [] (upd_bcast (\<lambda>b. b\<lparr>rx_status := 1\<rparr>) s))
      else error INVALID_PARAMETER s)"

definition responseBCTRXSTOP :: "at_sys \<Rightarrow> u8 list list \<Rightarrow> at_sys" where
  "responseBCTRXSTOP s argv =
     (if length argv \<noteq> 1 then error INVALID_COMMAND s
      else
        let s = upd_bcast (\<lambda>b. b\<lparr>rx_status := 0\<rparr>) s; fd = rx_sockfd (broadcast_status s);
            s = (if 0 \<le> fd then lwip_close fd s else s)
        in say ''+OK:BCTRXSTOP'' [] s)"

definition responseQUIT :: "at_sys \<Rightarrow> u8 list list \<Rightarrow> at_sys" where
  "responseQUIT s argv =
     (if length argv \<noteq> 1 then error INVALID_COMMAND s
      else if \<not> link_started s then error (-18) s
      else
        let s = upd_user (\<lambda>u. u\<lparr>up_atMode := 1\<rparr>) s
        in say ''+OK:DATAMODE'' [] (s\<lparr>WifiConnStatus :=
             \<lparr>connStatus = 0, cs_socketProtocol = socketProtocol (user s), cs_socketType = socketType (user s),
              cs_socketPort = socketPort (user s), remoteIp = remoteCommIp (user s), localIp = 0,
              sockfd = -1, connectFd = 0\<rparr>\<rparr>))"

section \<open>Dispatch\<close>

text \<open>\<open>other\<close> are the handlers that are not modelled: they print the state of the interface, start a thread, a
  scan or the echo requests.\<close>

definition run_command :: "(request \<Rightarrow> at_sys \<Rightarrow> u8 list list \<Rightarrow> at_sys option) \<Rightarrow> at_env \<Rightarrow> u8 \<Rightarrow> u32
    \<Rightarrow> request \<Rightarrow> at_sys \<Rightarrow> u8 list list \<Rightarrow> at_sys option" where
  "run_command other e cur netif_ip r s argv =
     (case r of
        REQ_HELP \<Rightarrow> Some (responseHELP s argv)
      | REQ_VER \<Rightarrow> Some (responseVER s argv)
      | REQ_SVER \<Rightarrow> Some (responseSVER s argv)
      | REQ_SAVE \<Rightarrow> Some (responseSAVE s argv)
      | REQ_FACTORY \<Rightarrow> Some (responseFACTORY s argv)
      | REQ_RST \<Rightarrow> Some (responseRST s argv)
      | REQ_SYSTIME \<Rightarrow> Some (responseSYSTIME e s argv)
      | REQ_BAUDRATE \<Rightarrow> responseBAUDRATE s argv
      | REQ_UARTFT \<Rightarrow> Some (responseUARTFT s argv)
      | REQ_UARTFL \<Rightarrow> Some (responseUARTFL s argv)
      | REQ_MSLP \<Rightarrow> Some (responseMSLP s argv)
      | REQ_LSLPT \<Rightarrow> Some (responseLSLPT s argv)
      | REQ_MAC \<Rightarrow> Some (responseMAC s argv)
      | REQ_WQSOPT \<Rightarrow> Some (responseWQSOPT cur s argv)
      | REQ_WPHYMODE \<Rightarrow> Some (responseWPHYMODE s argv)
      | REQ_WTXRATE \<Rightarrow> responseWTXRATE s argv
      | REQ_WSBCN \<Rightarrow> Some (responseWSBCN s argv)
      | REQ_WSCAP \<Rightarrow> responseWSCAP s argv
      | REQ_WSMTCONF \<Rightarrow> Some (responseWSMTCONF s argv)
      | REQ_WSTOP \<Rightarrow> Some (responseWSTOP s argv)
      | REQ_NQSCNN \<Rightarrow> Some (responseNQSCNN e s argv)
      | REQ_NLOCIP \<Rightarrow> Some (responseNLOCIP e netif_ip s argv)
      | REQ_BCTTXSTART \<Rightarrow> Some (responseBCTTXSTART e s argv)
      | REQ_BCTTXSTOP \<Rightarrow> Some (responseBCTTXSTOP s argv)
      | REQ_BCTTXDATA \<Rightarrow> Some (responseBCTTXDATA e s argv)
      | REQ_BCTRXSTART \<Rightarrow> Some (responseBCTRXSTART e s argv)
      | REQ_BCTRXSTOP \<Rightarrow> Some (responseBCTRXSTOP s argv)
      | REQ_QUIT \<Rightarrow> Some (responseQUIT s argv)
      | _ \<Rightarrow> other r s argv)"

definition processCommand :: "(request \<Rightarrow> at_sys \<Rightarrow> u8 list list \<Rightarrow> at_sys option) \<Rightarrow> at_env \<Rightarrow> u8 \<Rightarrow> u32
    \<Rightarrow> at_sys \<Rightarrow> u8 list list \<Rightarrow> at_sys option" where
  "processCommand other e cur netif_ip s argv =
     (if 1 \<le> length argv then
        (case find_command argv of
           Some r \<Rightarrow> run_command other e cur netif_ip r s argv
         | None \<Rightarrow> Some (say ''+ERROR= %d'' [I INVALID_COMMAND] s))
      else Some (error INVALID_COMMAND s))"

text \<open>One round of \<open>AtThread\<close> on a received line.\<close>

definition at_round :: "(request \<Rightarrow> at_sys \<Rightarrow> u8 list list \<Rightarrow> at_sys option) \<Rightarrow> at_env \<Rightarrow> u8 \<Rightarrow> u32
    \<Rightarrow> at_sys \<Rightarrow> u8 list \<Rightarrow> at_sys option" where
  "at_round other e cur netif_ip s line = do {
     (_, argv) \<leftarrow> parseParameter line;
     processCommand other e cur netif_ip s argv }"

section \<open>Invariant\<close>

text \<open>Parameters in range, at most one direction of the UDP broadcast active; nothing is claimed once the
  chip resets.\<close>

definition user_ok :: "user_param \<Rightarrow> bool" where
  "user_ok u \<longleftrightarrow> cfg_ok (cfg u) \<and> up_atMode u \<le> 1 \<and> SleepMode u \<le> 1 \<and> socketProtocol u \<le> 1 \<and> socketType u \<le> 1
     \<and> 32 \<le> up_frameLength u \<and> up_frameLength u \<le> 1400 \<and> 30 \<le> up_frameGap u \<and> up_frameGap u \<le> 10000"

definition at_ok :: "at_sys \<Rightarrow> bool" where
  "at_ok s \<longleftrightarrow> chip_reset s \<or> sys_ok (inf s) \<and> user_ok (user s)
     \<and> fst (rate_opt s) \<le> 1 \<and> snd (rate_opt s) \<le> (if fst (rate_opt s) = 0 then 4 else 8)
     \<and> (tx_status (broadcast_status s) = 0 \<or> rx_status (broadcast_status s) = 0)"

lemma say_ok [simp]: "at_ok (say f a s) = at_ok s"
  by (simp add: say_def at_ok_def)

lemma error_ok [simp]: "at_ok (error c s) = at_ok s"
  by (simp add: error_def)

lemma upd_inf_ok: "at_ok s \<Longrightarrow> (sys_ok (inf s) \<Longrightarrow> sys_ok (fst (f (inf s)))) \<Longrightarrow> at_ok (upd_inf f s)"
  by (auto simp: upd_inf_def at_ok_def)

lemma upd_user_ok: "at_ok s \<Longrightarrow> (user_ok (user s) \<Longrightarrow> user_ok (f (user s))) \<Longrightarrow> at_ok (upd_user f s)"
  by (auto simp: upd_user_def at_ok_def)

lemma copy_cfg_ok: "at_ok s \<Longrightarrow> at_ok (copy_cfg s)"
  by (auto simp: copy_cfg_def upd_user_def at_ok_def user_ok_def sys_ok_def)

lemma upd_wifi_of_ok:
  "at_ok s \<Longrightarrow> (wifi_ok (wifi_of s) \<Longrightarrow> wifi_ok (f (wifi_of s))) \<Longrightarrow> at_ok (upd_wifi_of f s)"
  by (auto simp: upd_wifi_of_def at_ok_def sys_ok_def cfg_ok_def)

lemma lwip_close_ok [simp]: "at_ok (lwip_close fd s) = at_ok s"
  by (simp add: lwip_close_def at_ok_def)

lemma append_out_ok [simp]: "at_ok (s\<lparr>out := xs\<rparr>) = at_ok s"
  by (simp add: at_ok_def)

lemma save_ok [simp]: "at_ok (SaveUserParam s) = at_ok s"
  by (simp add: SaveUserParam_def at_ok_def)

lemma fields_ok [simp]:
  "at_ok (s\<lparr>chip_reset := True\<rparr>)" "at_ok (s\<lparr>uart_rate := r\<rparr>) = at_ok s"
  "at_ok (s\<lparr>smtconfigBegin := b\<rparr>) = at_ok s" "at_ok (s\<lparr>beacon_opt := p\<rparr>) = at_ok s"
  "at_ok (s\<lparr>WifiConnStatus := c\<rparr>) = at_ok s"
  by (simp_all add: at_ok_def)

lemma if_ok [simp]: "at_ok (if b then s else t) = (if b then at_ok s else at_ok t)"
  by simp

lemma inf_ok: "at_ok s \<Longrightarrow> (sys_ok (inf s) \<Longrightarrow> sys_ok i) \<Longrightarrow> at_ok (s\<lparr>inf := i\<rparr>)"
  by (auto simp: at_ok_def)

lemma rate_ok: "at_ok s \<Longrightarrow> m \<le> 1 \<Longrightarrow> r \<le> (if m = 0 then 4 else 8) \<Longrightarrow> at_ok (s\<lparr>rate_opt := (m, r)\<rparr>)"
  by (auto simp: at_ok_def)

lemma base_ok:
  "at_ok s \<Longrightarrow> at_ok (responseHELP s argv)"
  "at_ok s \<Longrightarrow> at_ok (responseVER s argv)"
  "at_ok s \<Longrightarrow> at_ok (responseSVER s argv)"
  "at_ok s \<Longrightarrow> at_ok (responseSYSTIME e s argv)"
  "at_ok s \<Longrightarrow> at_ok (responseMSLP s argv)"
  "at_ok s \<Longrightarrow> at_ok (responseMAC s argv)"
  "at_ok s \<Longrightarrow> at_ok (responseFACTORY s argv)"
  "at_ok s \<Longrightarrow> at_ok (responseRST s argv)"
  by (simp_all add: responseHELP_def responseVER_def responseSVER_def responseSYSTIME_def responseMSLP_def
      responseMAC_def responseFACTORY_def responseRST_def)

lemma save_cmd_ok: "at_ok s \<Longrightarrow> at_ok (responseSAVE s argv)"
  by (auto simp: responseSAVE_def user_ok_def intro!: upd_user_ok)

lemma baudrate_ok: "at_ok s \<Longrightarrow> responseBAUDRATE s argv = Some s' \<Longrightarrow> at_ok s'"
  by (auto simp: responseBAUDRATE_def Let_def user_ok_def intro!: upd_user_ok split: if_splits)

lemma clamp_length_bounds: "32 \<le> clamp_length r" "clamp_length r \<le> 1400"
  by (simp_all add: clamp_length_def not_less)

lemma clamp_gap_bounds: "30 \<le> clamp_gap n" "clamp_gap n \<le> 10000"
proof -
  have "unat (word_of_int n :: u16) = nat n" if "30 \<le> n" "n \<le> 10000" for n
    using that by (simp add: unat_of_int_small)
  then show "30 \<le> clamp_gap n" "clamp_gap n \<le> 10000"
    by (simp_all add: clamp_gap_def word_le_nat_alt not_less le_nat_iff nat_le_iff)
qed

lemma uartfl_ok: "at_ok s \<Longrightarrow> at_ok (responseUARTFL s argv)"
  by (auto simp: responseUARTFL_def user_ok_def clamp_length_bounds intro!: upd_user_ok)

lemma uartft_ok: "at_ok s \<Longrightarrow> at_ok (responseUARTFT s argv)"
  by (auto simp: responseUARTFT_def user_ok_def clamp_gap_bounds intro!: upd_user_ok)

lemma sleep_ok: "at_ok s \<Longrightarrow> b \<le> 1 \<Longrightarrow> at_ok (upd_user (\<lambda>u. u\<lparr>SleepMode := b\<rparr>) s)"
  by (auto simp: user_ok_def intro!: upd_user_ok)

lemma lslpt_ok: "at_ok s \<Longrightarrow> at_ok (responseLSLPT s argv)"
  by (auto simp: responseLSLPT_def Let_def intro!: sleep_ok upd_inf_ok request_ok)

lemma phy_ok: "at_ok s \<Longrightarrow> p = 1 \<or> p = 2
    \<Longrightarrow> at_ok (upd_user (\<lambda>u. u\<lparr>cfg := (cfg u)\<lparr>WiFiCfg := (WiFiCfg (cfg u))\<lparr>PhyMode := p\<rparr>\<rparr>\<rparr>) s)"
  by (erule upd_user_ok) (auto simp: user_ok_def cfg_ok_def wifi_ok_def)

lemma wphymode_ok: "at_ok s \<Longrightarrow> at_ok (responseWPHYMODE s argv)"
  by (auto simp: responseWPHYMODE_def Let_def intro!: copy_cfg_ok upd_inf_ok set_value_ok phy_ok)

lemma wstop_ok: "at_ok s \<Longrightarrow> at_ok (responseWSTOP s argv)"
  by (auto simp: responseWSTOP_def intro!: upd_inf_ok request_ok)

lemma wsmtconf_ok: "at_ok s \<Longrightarrow> at_ok (responseWSMTCONF s argv)"
  by (auto simp: responseWSMTCONF_def Let_def intro!: upd_inf_ok request_ok set_value_ok)

lemma wsbcn_ok: "at_ok s \<Longrightarrow> at_ok (responseWSBCN s argv)"
  unfolding responseWSBCN_def Let_def InfBeaconPeriodSet_def prod.case
  by (auto intro!: inf_ok)

lemma wqsopt_query_ok: "at_ok s \<Longrightarrow> at_ok (wqsopt_query cur s)"
  unfolding wqsopt_query_def Let_def by simp

lemma wqsopt_set_ok:
  assumes "at_ok t" "ch \<noteq> 0" "ch \<le> 13" "en \<le> 4" "au \<le> 3"
  shows "at_ok (copy_cfg (upd_wifi_of (\<lambda>w. w\<lparr>Channel := ch, Encry := en, AuthMode := au, WmmEn := wm\<rparr>)
      (upd_inf (InfNetModeSet m) t)))"
  by (intro copy_cfg_ok upd_wifi_of_ok upd_inf_ok set_value_ok)
    (use assms in \<open>auto simp: wifi_ok_def word_le_nat_alt Suc_le_eq unat_gt_0\<close>)

lemma stop_ok: "at_ok s \<Longrightarrow> at_ok (upd_inf InfWiFiStop s)"
  by (intro upd_inf_ok request_ok)

lemma wqsopt_ok: "at_ok s \<Longrightarrow> at_ok (responseWQSOPT cur s argv)"
  unfolding responseWQSOPT_def Let_def
  by (auto simp: not_less word_le_nat_alt unat_gt_0 intro!: wqsopt_query_ok wqsopt_set_ok stop_ok)

lemma tx_rates_ok: "(t, m, r) \<in> set tx_rates \<Longrightarrow> m \<le> 1 \<and> r \<le> (if m = 0 then 4 else 8)"
  by (auto simp: tx_rates_def)

lemma wtxrate_ok: "at_ok s \<Longrightarrow> responseWTXRATE s argv = Some s' \<Longrightarrow> at_ok s'"
proof -
  assume s: "at_ok s" and r: "responseWTXRATE s argv = Some s'"
  have txt1: "rate_text tbl i s = Some s' \<Longrightarrow> at_ok s'" for tbl i
    using s by (auto simp: rate_text_def split: if_splits)
  show "at_ok s'"
  proof (cases "List.find (\<lambda>(t, _). argv ! 1 = ascii t) tx_rates")
    case None
    then show ?thesis using r s txt1 by (auto simp: responseWTXRATE_def split: if_splits)
  next
    case (Some e)
    obtain t m i where e: "e = (t, m, i)" by (cases e)
    have "e \<in> set tx_rates" using Some by (metis find_Some_iff nth_mem)
    then have mi: "m \<le> 1" "i \<le> (if m = 0 then 4 else 8)" using tx_rates_ok e by auto
    let ?i = "fst (InfTxRateSet m i (inf s))"
    have "at_ok (s\<lparr>inf := ?i\<rparr>)" using s request_ok(4) [of "inf s" m i] by (auto intro: inf_ok)
    then show ?thesis
      using r s txt1 rate_ok [of "s\<lparr>inf := ?i\<rparr>" m i] mi
      by (auto simp: responseWTXRATE_def Some e case_prod_beta Let_def simp del: One_nat_def split: if_splits)
  qed
qed

lemma net_ok:
  "responseNMODE s a = (s', r) \<Longrightarrow> at_ok s \<Longrightarrow> at_ok s'"
  "responseNTYPE s a = (s', r) \<Longrightarrow> at_ok s \<Longrightarrow> at_ok s'"
  "responseNPORT s a = (s', r) \<Longrightarrow> at_ok s \<Longrightarrow> at_ok s'"
  "responseNRMTIP e s a = (s', r) \<Longrightarrow> at_ok s \<Longrightarrow> at_ok s'"
  by (auto simp: responseNMODE_def responseNTYPE_def responseNPORT_def responseNRMTIP_def Let_def user_ok_def
      intro!: copy_cfg_ok upd_user_ok split: if_splits)

lemma nqscnn_ok: "at_ok s \<Longrightarrow> at_ok (responseNQSCNN e s argv)"
  unfolding responseNQSCNN_def Let_def by (auto split: prod.split dest!: net_ok)

lemma nlocip_ok: "at_ok s \<Longrightarrow> at_ok (responseNLOCIP e n s argv)"
proof -
  have "sys_ok i \<Longrightarrow> sys_ok (i\<lparr>SysParam := (SysParam i)\<lparr>IPCfg := (IPCfg (SysParam i))\<lparr>Ip := le32 a, GateWay := le32 a\<rparr>\<rparr>\<rparr>)"
    "sys_ok i \<Longrightarrow> sys_ok (i\<lparr>SysParam := (SysParam i)\<lparr>IPCfg := (IPCfg (SysParam i))\<lparr>Ip := le32 a, GateWay := le32 a,
       bDhcp := m, DhcpTryTimes := t\<rparr>\<rparr>\<rparr>)" for i a m t
    by (simp_all add: sys_ok_defs)
  then show "at_ok s \<Longrightarrow> ?thesis"
    unfolding responseNLOCIP_def Let_def by (simp add: copy_cfg_ok inf_ok)
qed

lemma tx_ok:
  "at_ok (upd_bcast (\<lambda>b. b\<lparr>tx_port := p, tx_sockfd := f\<rparr>) s) = at_ok s"
  "at_ok (upd_bcast (\<lambda>b. b\<lparr>rx_port := p, rx_sockfd := f\<rparr>) s) = at_ok s"
  "at_ok (upd_bcast (\<lambda>b. b\<lparr>tx_len := l\<rparr>) s) = at_ok s"
  "at_ok s \<Longrightarrow> at_ok (upd_bcast (\<lambda>b. b\<lparr>tx_status := 0\<rparr>) s)"
  "at_ok s \<Longrightarrow> at_ok (upd_bcast (\<lambda>b. b\<lparr>rx_status := 0\<rparr>) s)"
  "at_ok s \<Longrightarrow> rx_status (broadcast_status s) = 0 \<Longrightarrow> at_ok (upd_bcast (\<lambda>b. b\<lparr>tx_status := 1\<rparr>) s)"
  "at_ok s \<Longrightarrow> tx_status (broadcast_status s) = 0 \<Longrightarrow> at_ok (upd_bcast (\<lambda>b. b\<lparr>rx_status := 1\<rparr>) s)"
  by (auto simp: upd_bcast_def at_ok_def)

lemma upd_bcast_status [simp]: "broadcast_status (upd_bcast f s) = f (broadcast_status s)"
  by (simp add: upd_bcast_def)

lemma broadcast_ok:
  "at_ok s \<Longrightarrow> at_ok (responseBCTTXSTART e s argv)"
  "at_ok s \<Longrightarrow> at_ok (responseBCTTXSTOP s argv)"
  "at_ok s \<Longrightarrow> at_ok (responseBCTTXDATA e s argv)"
  "at_ok s \<Longrightarrow> at_ok (responseBCTRXSTART e s argv)"
  "at_ok s \<Longrightarrow> at_ok (responseBCTRXSTOP s argv)"
  by (simp_all add: responseBCTTXSTART_def responseBCTTXSTOP_def responseBCTTXDATA_def responseBCTRXSTART_def
      responseBCTRXSTOP_def Let_def tx_ok)

lemma quit_ok: "at_ok s \<Longrightarrow> at_ok (responseQUIT s argv)"
  by (auto simp: responseQUIT_def Let_def user_ok_def intro!: upd_user_ok)

lemma copy_in_some: "n \<le> length buf \<Longrightarrow> n \<le> length arr \<Longrightarrow> \<exists>arr'. copy_in arr buf n = Some arr'"
  by (simp add: copy_in_def mem_get_def mem_put_def)

lemma set_ssid_key_ok:
  assumes "at_ok s" "sys_ok (inf s)" "length ssid \<le> 32" "length key \<le> 64"
  shows "\<exists>s'. set_ssid_key ssid key s = Some s' \<and> at_ok s'"
proof -
  have n: "unat (of_nat (length ssid) :: u8) = length ssid" "unat (of_nat (length key) :: u8) = length key"
    using assms(3,4) by (simp_all add: unat_of_nat)
  have len: "length (Ssid (wifi i)) = 33" "length (PSK (wifi i)) = 64" if "sys_ok i" for i
    using that by (simp_all add: sys_ok_defs)
  have "\<exists>arr. copy_in (Ssid (wifi (inf s))) (ssid @ [0]) (length ssid) = Some arr"
    by (rule copy_in_some) (use assms len in simp_all)
  then obtain i r where i: "InfSsidSet (Some (ssid @ [0])) (of_nat (length ssid)) (inf s) = Some (i, r)"
    by (fastforce simp: InfSsidSet_def n)
  then have oki: "sys_ok i" using InfSsidSet_ok assms(2) by blast
  have "\<exists>arr. copy_in (PSK (wifi i)) (key @ [0]) (length key) = Some arr"
    by (rule copy_in_some) (use assms len oki in simp_all)
  then obtain i' r' where i': "InfKeySet 0 (Some (key @ [0])) (of_nat (length key)) i = Some (i', r')"
    by (fastforce simp: InfKeySet_def n Let_def)
  then have "sys_ok i'" using InfKeySet_ok oki by blast
  then show ?thesis using i i' assms(1) by (auto simp: set_ssid_key_def intro: inf_ok)
qed

lemma sys_of_ok: "at_ok s \<Longrightarrow> \<not> chip_reset s \<Longrightarrow> sys_ok (inf s) \<and> user_ok (user s)"
  by (simp add: at_ok_def)

lemma upd_inf_reset [simp]: "chip_reset (upd_inf f s) = chip_reset s"
  by (simp add: upd_inf_def)

lemma connect_ok:
  assumes "at_ok s" "\<not> chip_reset s" "length ssid \<le> 32" "length key \<le> 64"
  shows "\<exists>s'. set_ssid_key ssid key (upd_inf (InfNetModeSet m) s) = Some s' \<and> at_ok s'"
proof -
  have "at_ok (upd_inf (InfNetModeSet m) s)" using assms(1) by (intro upd_inf_ok set_value_ok)
  then show ?thesis by (rule set_ssid_key_ok) (use assms sys_of_ok in \<open>auto simp: upd_inf_def set_value_ok\<close>)
qed

lemma wscap_ok:
  assumes s: "at_ok s" "\<not> chip_reset s" and q: "\<not> (query argv \<and> KeyLength (wifi_of s) = 64)"
  shows "\<exists>s'. responseWSCAP s argv = Some s' \<and> at_ok s'"
proof -
  consider "query argv" | "length argv = 4" "length (argv ! 1) \<le> 32" "length (argv ! 2) \<le> 64" "\<not> query argv"
    | "responseWSCAP s argv = Some (error INVALID_PARAMETER s)"
  proof (cases "length argv = 4 \<and> length (argv ! 1) \<le> 32 \<and> 0 < length (argv ! 1) \<and> length (argv ! 2) \<le> 64")
    case False
    have "responseWSCAP s argv = Some (error INVALID_PARAMETER s)" if "\<not> query argv"
      unfolding responseWSCAP_def by (simp only: that False if_False)
    then show ?thesis using that by blast
  qed blast
  then show ?thesis
  proof cases
    case 1
    have "wifi_ok (wifi_of s)" using sys_of_ok [OF s] by (simp add: sys_ok_def cfg_ok_def)
    then have len: "unat (KeyLength (wifi_of s)) < length (PSK (wifi_of s))"
      using q 1 by (simp add: wifi_ok_def word_le_nat_alt word_unat_eq_iff)
    have "at_ok (upd_wifi_of (\<lambda>w. w\<lparr>PSK := (PSK w)[unat (KeyLength w) := 0]\<rparr>) s)"
      by (rule upd_wifi_of_ok [OF s(1)]) (simp add: wifi_ok_def)
    then show ?thesis using 1 len by (simp add: responseWSCAP_def Let_def)
  next
    case 2
    have stop: "at_ok (upd_inf InfWiFiStop s)" "\<not> chip_reset (upd_inf InfWiFiStop s)"
      using s by (simp_all add: stop_ok)
    obtain s1 where s1: "set_ssid_key (argv ! 1) (argv ! 2) (upd_inf (InfNetModeSet 0) (upd_inf InfWiFiStop s))
        = Some s1" "at_ok s1"
      using connect_ok [OF stop 2(2,3)] by blast
    let ?t = "upd_inf InfWiFiStop s"
    let ?ap = "?t\<lparr>inf := (inf ?t)\<lparr>SysParam := (cfg (user ?t))\<lparr>bDhcpServer := 1, bDnsServer := 1\<rparr>\<rparr>\<rparr>"
    have "at_ok ?ap" "\<not> chip_reset ?ap"
      using stop sys_of_ok [OF stop] by (auto simp: at_ok_def sys_ok_def user_ok_def cfg_ok_def)
    then obtain s2 where s2: "set_ssid_key (argv ! 1) (argv ! 2) (upd_inf (InfNetModeSet 2) ?ap) = Some s2" "at_ok s2"
      using connect_ok [OF _ _ 2(2,3)] by blast
    show ?thesis
      using 2 s s1 s2 by (auto simp: responseWSCAP_def Let_def intro!: copy_cfg_ok upd_inf_ok request_ok set_value_ok)
  next
    case 3
    then show ?thesis using s by simp
  qed
qed

lemma wscap_fault: "at_ok s \<Longrightarrow> \<not> chip_reset s \<Longrightarrow>
    responseWSCAP s argv = None \<longleftrightarrow> query argv \<and> KeyLength (wifi_of s) = 64"
proof -
  assume s: "at_ok s" "\<not> chip_reset s"
  have "length (PSK (wifi_of s)) = 64" using sys_of_ok [OF s] by (simp add: sys_ok_defs)
  then have "responseWSCAP s argv = None" if "query argv" "KeyLength (wifi_of s) = 64"
    using that by (simp add: responseWSCAP_def)
  then show ?thesis using wscap_ok [OF s, of argv] by force
qed

lemma wtxrate_total: "at_ok s \<Longrightarrow> \<not> chip_reset s \<Longrightarrow> responseWTXRATE s argv \<noteq> None"
  by (auto simp: responseWTXRATE_def at_ok_def rate_text_def mode_cck_rate_def mode_ofdm_rate_def word_le_nat_alt Let_def
      split: if_splits option.splits prod.splits)

text \<open>The handlers that are not modelled, and the places where one reads or writes outside of an array.\<close>

definition other_request :: "request \<Rightarrow> bool" where
  "other_request r \<longleftrightarrow> r \<in> {REQ_IPCONFIG, REQ_PING, REQ_WSCANAP, REQ_WSACONF, REQ_AIRKISS}"

definition at_fault :: "at_sys \<Rightarrow> u8 list list \<Rightarrow> bool" where
  "at_fault s argv \<longleftrightarrow>
     find_command argv = Some REQ_BAUDRATE \<and> length argv = 1
     \<or> find_command argv = Some REQ_WSCAP \<and> query argv \<and> KeyLength (wifi_of s) = 64"

lemma run_command_ok:
  assumes s: "at_ok s" and r: "run_command other e cur netif_ip r s argv = Some s'" "\<not> other_request r" "\<not> chip_reset s"
  shows "at_ok s'"
proof (cases "r = REQ_WSCAP")
  case True
  then have "responseWSCAP s argv = Some s'" using r by (simp add: run_command_def)
  then show ?thesis using wscap_ok [OF s r(3), of argv] wscap_fault [OF s r(3), of argv] by auto
next
  case False
  then show ?thesis using s r
    by (cases r) (auto simp: run_command_def other_request_def base_ok save_cmd_ok uartfl_ok uartft_ok lslpt_ok
        wphymode_ok wstop_ok wsmtconf_ok wsbcn_ok wqsopt_ok nqscnn_ok nlocip_ok broadcast_ok quit_ok
        dest: baudrate_ok wtxrate_ok)
qed

lemma run_command_fault:
  assumes s: "at_ok s" "\<not> chip_reset s" "\<not> other_request r"
  shows "run_command other e cur netif_ip r s argv = None \<longleftrightarrow>
    r = REQ_BAUDRATE \<and> length argv < 2 \<or> r = REQ_WSCAP \<and> query argv \<and> KeyLength (wifi_of s) = 64"
proof (cases "r = REQ_WSCAP \<or> r = REQ_WTXRATE \<or> r = REQ_BAUDRATE")
  case True
  then show ?thesis using wscap_fault [OF s(1,2), of argv] wtxrate_total [OF s(1,2), of argv]
    by (elim disjE) (simp_all add: run_command_def responseBAUDRATE_def Let_def)
next
  case False
  then show ?thesis using s(3) by (cases r) (simp_all add: run_command_def other_request_def)
qed

lemma processCommand_run:
  "find_command argv = Some r \<Longrightarrow> processCommand other e cur netif_ip s argv = run_command other e cur netif_ip r s argv"
  by (cases argv) (simp_all add: processCommand_def find_command_def)

section \<open>Lines with a number\<close>

lemma foldl_dec: "foldl (\<lambda>n c. 10 * n + unat (c - 0x30 :: u8)) 0 (dec n) = n"
proof (induction n rule: dec.induct)
  case (1 n)
  have "unat (0x30 + of_nat (n mod 10) - 0x30 :: u8) = n mod 10" by (simp add: unat_of_nat)
  then show ?case using 1 by (subst dec.simps) simp
qed

lemma atoi_dec: "n < 2 ^ 32 \<Longrightarrow> atoi (dec n) = int n"
proof -
  have "takeWhile isdigit (dec n) = dec n" using dec_digits [of n] by simp
  then have "digits_value (dec n) = n" by (simp only: digits_value_def foldl_dec)
  then show "n < 2 ^ 32 \<Longrightarrow> ?thesis" by (simp add: atoi_digits)
qed

lemma is_num_dec: "is_num (dec n)"
  using dec_digits [of n] by (simp add: is_num_def str_is_digit_iff)

lemma dec_arg_ok: "arg_ok (dec n)"
  using dec_digits [of n] by (auto simp: arg_ok_def isdigit_def)

lemma dec_not_query: "dec n \<noteq> [0x3f]"
  using dec_digits [of n] by (auto simp: isdigit_def)

lemma at_round_line:
  assumes "0 \<notin> set name" "0x3d \<notin> set name" "\<forall>a\<in>set args. arg_ok a" "length args < 49"
  shows "at_round other e cur netif_ip s (at_line name args @ 0 # rest) =
    processCommand other e cur netif_ip s (name # args)"
  using parseParameter_ok [OF assms(1-3), of rest] assms(4) by (simp add: at_round_def)

lemma clamp_gap_nat: "clamp_gap (int n) = of_nat (max 30 (min 10000 n))"
  by (auto simp: clamp_gap_def max_def min_def)

lemma clamp_length_nat: "clamp_length (of_nat n) = of_nat (max 32 (min 1400 (n mod 65536)))"
proof -
  have "unat (of_nat n :: u16) = n mod 65536" by (simp add: unat_of_nat)
  moreover have "(of_nat n :: u16) = of_nat (n mod 65536)" by (simp add: word_unat_eq_iff unat_of_nat)
  ultimately show ?thesis
    by (auto simp: clamp_length_def word_less_nat_alt max_def min_def)
qed

section \<open>Properties\<close>


definition at_start :: at_sys where
  "at_start = \<lparr>inf = InfLoadDefaultParam sys_zero,
     user = \<lparr>isValid = 0, up_atMode = 0, SleepMode = 0, Baudrate = 115200, socketProtocol = 0, socketType = 0,
       socketPort = 0, remoteCommIp = 0, up_frameLength = 512, up_frameGap = 100,
       cfg = SysParam (InfLoadDefaultParam sys_zero)\<rparr>,
     link_status = SYS_EVT_LINK_DOWN, rate_opt = (0, 0), beacon_opt = (100, 0), smtconfigBegin = 0,
     broadcast_status = \<lparr>tx_status = 0, tx_port = 0, tx_len = 0, tx_sockfd = -1, rx_status = 0, rx_port = 0,
       rx_sockfd = -1\<rparr>,
     WifiConnStatus = \<lparr>connStatus = 0, cs_socketProtocol = 0, cs_socketType = 0, cs_socketPort = 0,
       remoteIp = 0, localIp = 0, sockfd = -1, connectFd = 0\<rparr>,
     uart_rate = 115200, saved = [], closed = [], chip_reset = False, out = []\<rparr>"

definition at_env0 :: at_env where
  "at_env0 = \<lparr>r_socket = 0, r_setsockopt = 0, r_bind = 0, r_sendto = 0, ticks = 0, uninit = 0\<rparr>"

lemma at_start_ok: "at_ok at_start"
  using load_default_ok [of sys_zero]
  by (simp add: at_ok_def at_start_def user_ok_def sys_ok_def sys_zero_def)


text \<open>C25: the number of \<open>AT+UARTFT\<close> is clamped to 30..10000; the number of \<open>AT+UARTFL\<close> is cut to 16 bits before
  it is clamped to 32..1400, so 65636 becomes 100.\<close>

theorem at_frame_settings:
  assumes "n < 2 ^ 32"
  shows "\<exists>s1 s2. at_round other e cur netif_ip s (at_line (ascii ''+UARTFT'') [dec n] @ 0 # rest) = Some s1
       \<and> user s1 = (user s)\<lparr>up_frameGap := of_nat (max 30 (min 10000 n))\<rparr>
     \<and> at_round other e cur netif_ip s (at_line (ascii ''+UARTFL'') [dec n] @ 0 # rest) = Some s2
       \<and> user s2 = (user s)\<lparr>up_frameLength := of_nat (max 32 (min 1400 (n mod 65536)))\<rparr>"
proof -
  have cmd: "find_command [ascii ''+UARTFT'', dec n] = Some REQ_UARTFT"
      "find_command [ascii ''+UARTFL'', dec n] = Some REQ_UARTFL"
    by (simp_all add: find_command_eq stringTorequest_iff s_at_commands_def ascii_inj ascii_def toupper_def)
  have line: "at_round other e cur netif_ip s (at_line (ascii nm) [dec n] @ 0 # rest) =
      processCommand other e cur netif_ip s [ascii nm, dec n]" if "nm = ''+UARTFT'' \<or> nm = ''+UARTFL''" for nm
    by (rule at_round_line) (use that dec_arg_ok in \<open>auto simp: ascii_def\<close>)
  show ?thesis
    by (simp add: line processCommand_run [OF cmd(1)] processCommand_run [OF cmd(2)] run_command_def
        responseUARTFT_def responseUARTFL_def dec_not_query is_num_dec atoi_dec [OF assms] clamp_gap_nat
        clamp_length_nat say_def upd_user_def)
qed

lemma at_frame_settings_witness:
  "\<exists>s1. at_round (\<lambda>_ s _. Some s) at_env0 1 0 at_start (at_line (ascii ''+UARTFL'') [dec 65636] @ [0]) = Some s1
     \<and> up_frameLength (user s1) = 100"
  using at_frame_settings [of 65636 "\<lambda>_ s _. Some s" at_env0 1 0 at_start "[]"] by (auto simp: max_def min_def)

end
