(* ===== verification/Flash.thy ===== *)
theory Flash
  imports Prelude
begin

text \<open>
  The driver of the serial NOR flash, \<^verbatim>\<open>BSP/flash.c\<close>, in the build with the QSPI controller and a
  chip with pages of 256 and sectors of 4096 bytes.  The chip is a parameter: \<open>spi c tx n\<close> is one
  transfer with the chip selected, which shifts out the bytes \<open>tx\<close> and then clocks \<open>n\<close> more bytes; it gives
  the chip afterwards and the bytes received during the whole transfer.  The registers of the controller and
  \<open>NSTusecDelay\<close> have no other effect.  The locale \<open>nor_chip\<close> states what the data sheet of the chip
  promises about the commands the driver uses.
\<close>

type_synonym 'c spi = "'c \<Rightarrow> u8 list \<Rightarrow> nat \<Rightarrow> 'c \<times> u8 list"

section \<open>Commands\<close>

text \<open>The three bytes of an address, the highest first.\<close>

definition addr_bytes :: "u32 \<Rightarrow> u8 list" where
  "addr_bytes a = [ucast (drop_bit 16 a AND 0xff), ucast (drop_bit 8 a AND 0xff), ucast (a AND 0xff)]"

definition QSpiFlashReadSR :: "'c spi \<Rightarrow> 'c \<Rightarrow> 'c \<times> u8" where
  "QSpiFlashReadSR spi c = (let (c, rx) = spi c [0x05, 0x55] 0 in (c, rx ! 1))"

partial_function (option) QSpiFlashWaitBusy :: "'c spi \<Rightarrow> 'c \<Rightarrow> 'c option" where
  "QSpiFlashWaitBusy spi c =
     (let (c, SR) = QSpiFlashReadSR spi c in
      if SR AND 1 = 0 then Some c else QSpiFlashWaitBusy spi c)"

definition QSPI_FlashWriteEnable :: "'c spi \<Rightarrow> 'c \<Rightarrow> 'c" where
  "QSPI_FlashWriteEnable spi c = fst (spi c [0x06] 0)"

definition QSpiFlashEraseChip :: "'c spi \<Rightarrow> 'c \<Rightarrow> 'c option" where
  "QSpiFlashEraseChip spi c =
     QSpiFlashWaitBusy spi (fst (spi (QSPI_FlashWriteEnable spi c) [0xc7] 0))"

definition QSpiFlashEraseSector :: "'c spi \<Rightarrow> 'c \<Rightarrow> u32 \<Rightarrow> 'c option" where
  "QSpiFlashEraseSector spi c SectorAddr =
     QSpiFlashWaitBusy spi (fst (spi (QSPI_FlashWriteEnable spi c) (0x20 # addr_bytes SectorAddr) 0))"

definition QSpiFlashWriteOnePage :: "'c spi \<Rightarrow> 'c \<Rightarrow> u32 \<Rightarrow> u8 list \<Rightarrow> u16 \<Rightarrow> 'c option" where
  "QSpiFlashWriteOnePage spi c Adr pBuf DataLen = do {
     xs \<leftarrow> mem_get pBuf 0 (unat DataLen);
     QSpiFlashWaitBusy spi (fst (spi (QSPI_FlashWriteEnable spi c) (0x02 # addr_bytes Adr @ xs) 0)) }"

text \<open>Reading in parts of at most 65536 bytes; the bytes received during the command are thrown away.\<close>

function read_loop :: "'c spi \<Rightarrow> 'c \<Rightarrow> u32 \<Rightarrow> u32 \<Rightarrow> u32 \<Rightarrow> u8 list \<Rightarrow> 'c \<times> u8 list" where
  "read_loop spi c ReadAddr Len DnldByteCnt out =
     (if DnldByteCnt < Len then
        let RdCnt = (if 65536 < Len - DnldByteCnt then 65536 else Len - DnldByteCnt);
            (c, rx) = spi c (0x03 # addr_bytes ReadAddr) (unat RdCnt)
        in read_loop spi c (ReadAddr + RdCnt) Len (DnldByteCnt + RdCnt) (out @ drop 4 rx)
      else (c, out))"
  by pat_completeness auto
termination
proof (relation "measure (\<lambda>(spi, c, a, n, k, out). unat (n - k))", goal_cases)
  case (2 spi c a n k out r p c' rx)
  have r: "unat r \<le> unat (n - k)" "0 < unat r" using 2(1,2)
    by (auto simp: word_le_nat_alt word_less_nat_alt unat_gt_0)
  have "unat (n - (k + r)) = unat (n - k) - unat r"
    using r(1) by (simp add: diff_diff_add [symmetric] unat_sub_le)
  with r show ?case by simp
qed simp

declare read_loop.simps [simp del]

definition QSpiFlashRead :: "'c spi \<Rightarrow> 'c \<Rightarrow> u32 \<Rightarrow> u32 \<Rightarrow> 'c \<times> u8 list" where
  "QSpiFlashRead spi c ReadStartPos Len = read_loop spi c ReadStartPos Len 0 []"

section \<open>Writing with verification\<close>

text \<open>The retries of one page: \<open>j\<close> is counted down before each of at most ten rounds.  The counter after
  the loop is -1 when all of them failed, and 0 when the last one succeeded.\<close>

fun write_tries :: "'c spi \<Rightarrow> nat \<Rightarrow> 'c \<Rightarrow> u32 \<Rightarrow> u8 list \<Rightarrow> u16 \<Rightarrow> ('c \<times> int) option" where
  "write_tries spi 0 c a pData n = Some (c, -1)"
| "write_tries spi (Suc j) c a pData n = do {
     c \<leftarrow> QSpiFlashWriteOnePage spi c a pData n;
     let (c, PageBuf) = QSpiFlashRead spi c a (ucast n);
     if PageBuf = take (unat n) pData then Some (c, int j) else write_tries spi j c a pData n }"

partial_function (option) write_any_loop ::
    "'c spi \<Rightarrow> 'c \<Rightarrow> u32 \<Rightarrow> u8 list \<Rightarrow> u16 \<Rightarrow> u16 \<Rightarrow> ('c \<times> int) option" where
  "write_any_loop spi c WriteAddr pData DataLen pageremain =
     Option.bind (write_tries spi 10 c WriteAddr pData pageremain) (\<lambda>(c, j).
       if j = 0 then Some (c, -1)
       else if DataLen = pageremain then Some (c, 0)
       else let DataLen = DataLen - pageremain
            in write_any_loop spi c (WriteAddr + ucast pageremain) (drop (unat pageremain) pData) DataLen
                 (if 256 < DataLen then 256 else DataLen))"

definition QSpiWriteAny :: "'c spi \<Rightarrow> 'c \<Rightarrow> u32 \<Rightarrow> u8 list \<Rightarrow> u16 \<Rightarrow> ('c \<times> int) option" where
  "QSpiWriteAny spi c WriteAddr pData DataLen =
     (let pageremain = 256 - ucast (WriteAddr mod 256)
      in write_any_loop spi c WriteAddr pData DataLen (if DataLen \<le> pageremain then DataLen else pageremain))"

fun sector_pages :: "'c spi \<Rightarrow> nat \<Rightarrow> 'c \<Rightarrow> u32 \<Rightarrow> u8 list \<Rightarrow> ('c \<times> int) option" where
  "sector_pages spi 0 c WriteAddr pBuf = Some (c, 0)"
| "sector_pages spi (Suc k) c WriteAddr pBuf = do {
     (c, j) \<leftarrow> write_tries spi 10 c WriteAddr pBuf 256;
     if j = 0 then Some (c, -1) else sector_pages spi k c (WriteAddr + 256) (drop 256 pBuf) }"

definition QSpiWriteOneSector :: "'c spi \<Rightarrow> 'c \<Rightarrow> u32 \<Rightarrow> u8 list \<Rightarrow> ('c \<times> int) option" where
  "QSpiWriteOneSector spi c SectorAddr pBuf = do {
     c \<leftarrow> QSpiFlashEraseSector spi c SectorAddr;
     sector_pages spi 16 c SectorAddr pBuf }"

section \<open>The chip\<close>

abbreviation NVM_MAX_SIZE :: nat where "NVM_MAX_SIZE \<equiv> 0x80000"

text \<open>Memory with a block written over it.\<close>

definition overlay :: "(u32 \<Rightarrow> u8) \<Rightarrow> u32 \<Rightarrow> u8 list \<Rightarrow> u32 \<Rightarrow> u8" where
  "overlay m a xs x = (if unat a \<le> unat x \<and> unat x < unat a + length xs then xs ! (unat x - unat a) else m x)"

definition block :: "(u32 \<Rightarrow> u8) \<Rightarrow> u32 \<Rightarrow> nat \<Rightarrow> u8 list" where
  "block m a n = map (\<lambda>i. m (a + of_nat i)) [0..<n]"

text \<open>Programming clears bits.\<close>

definition programmed :: "(u32 \<Rightarrow> u8) \<Rightarrow> u32 \<Rightarrow> u8 list \<Rightarrow> u32 \<Rightarrow> u8" where
  "programmed m a xs x = (if unat a \<le> unat x \<and> unat x < unat a + length xs
     then m x AND xs ! (unat x - unat a) else m x)"

definition erased_sector :: "(u32 \<Rightarrow> u8) \<Rightarrow> u32 \<Rightarrow> u32 \<Rightarrow> u8" where
  "erased_sector m a x = (if unat x div 4096 = unat a div 4096 then 0xff else m x)"

text \<open>\<open>cell\<close> is the content once the operation in progress is done, \<open>wel\<close> the write enable latch, \<open>pending\<close>
  how many reads of the status register still report busy.  Every command but the status needs an idle
  chip; programming and erasing need the latch; a program command stays in its page.\<close>

locale nor_chip =
  fixes spi :: "'c \<Rightarrow> u8 list \<Rightarrow> nat \<Rightarrow> 'c \<times> u8 list"
    and cell :: "'c \<Rightarrow> u32 \<Rightarrow> u8"
    and wel :: "'c \<Rightarrow> bool"
    and pending :: "'c \<Rightarrow> nat"
  assumes status: "spi c [0x05, 0x55] 0 = (c', rx) \<Longrightarrow>
      (rx ! 1 AND 1 = 0 \<longleftrightarrow> pending c = 0) \<and> pending c' = pending c - 1 \<and> cell c' = cell c"
    and write_enable: "pending c = 0 \<Longrightarrow> spi c [0x06] 0 = (c', rx) \<Longrightarrow>
      wel c' \<and> pending c' = 0 \<and> cell c' = cell c"
    and read: "pending c = 0 \<Longrightarrow> unat a + n \<le> NVM_MAX_SIZE \<Longrightarrow>
      spi c (0x03 # addr_bytes a) n = (c', rx) \<Longrightarrow>
      drop 4 rx = block (cell c) a n \<and> pending c' = 0 \<and> cell c' = cell c"
    and page_program: "pending c = 0 \<Longrightarrow> wel c \<Longrightarrow> xs \<noteq> [] \<Longrightarrow> unat a mod 256 + length xs \<le> 256 \<Longrightarrow>
      unat a + length xs \<le> NVM_MAX_SIZE \<Longrightarrow>
      spi c (0x02 # addr_bytes a @ xs) 0 = (c', rx) \<Longrightarrow> cell c' = programmed (cell c) a xs"
    and sector_erase: "pending c = 0 \<Longrightarrow> wel c \<Longrightarrow> unat a < NVM_MAX_SIZE \<Longrightarrow>
      spi c (0x20 # addr_bytes a) 0 = (c', rx) \<Longrightarrow> cell c' = erased_sector (cell c) a"
    and chip_erase: "pending c = 0 \<Longrightarrow> wel c \<Longrightarrow> spi c [0xc7] 0 = (c', rx) \<Longrightarrow> cell c' = (\<lambda>x. 0xff)"

lemma unat_ucast32: "unat (ucast (n :: u16) :: u32) = unat n"
  using unsigned_less [of n, where ?'a = nat] by (simp add: unsigned_ucast_eq take_bit_nat_eq_self_iff)

lemma length_block [simp]: "length (block m a n) = n"
  by (simp add: block_def)

lemma nth_block [simp]: "i < n \<Longrightarrow> block m a n ! i = m (a + of_nat i)"
  by (simp add: block_def)

lemma block_append: "block m a (n + k) = block m a n @ block m (a + of_nat n) k"
  by (rule nth_equalityI) (auto simp: nth_append add.assoc)

lemma unat_add_of_nat:
  "unat (a :: u32) + i < 2 ^ 32 \<Longrightarrow> unat (a + of_nat i) = unat a + i"
  by (subst unat_add_small) (simp_all add: unat_of_nat)

lemma block_overlay:
  "unat a + length xs \<le> NVM_MAX_SIZE \<Longrightarrow> block (overlay m a xs) a (length xs) = xs"
  by (rule nth_equalityI) (simp_all add: overlay_def unat_add_of_nat)

lemma overlay_append:
  assumes "unat a + length xs + length ys \<le> NVM_MAX_SIZE"
  shows "overlay (overlay m a xs) (a + of_nat (length xs)) ys = overlay m a (xs @ ys)"
proof
  have "unat (a + of_nat (length xs)) = unat a + length xs" using assms by (simp add: unat_add_of_nat)
  then show "overlay (overlay m a xs) (a + of_nat (length xs)) ys x = overlay m a (xs @ ys) x" for x
    by (auto simp: overlay_def nth_append)
qed

lemma overlay_Nil [simp]: "overlay m a [] = m"
  by (rule ext) (auto simp: overlay_def)

text \<open>The bits of \<open>xs\<close> that are set are set in the memory already.\<close>

definition programmable :: "(u32 \<Rightarrow> u8) \<Rightarrow> u32 \<Rightarrow> u8 list \<Rightarrow> bool" where
  "programmable m a xs \<longleftrightarrow> (\<forall>i<length xs. m (a + of_nat i) AND xs ! i = xs ! i)"

lemma programmed_overlay:
  assumes "programmable m a xs" "unat a + length xs \<le> NVM_MAX_SIZE"
  shows "programmed m a xs = overlay m a xs"
proof
  fix x
  show "programmed m a xs x = overlay m a xs x"
  proof (cases "unat a \<le> unat x \<and> unat x < unat a + length xs")
    case True
    then have "a + of_nat (unat x - unat a) = x"
      by (simp add: of_nat_diff of_nat_unat)
    moreover have "m (a + of_nat (unat x - unat a)) AND xs ! (unat x - unat a) = xs ! (unat x - unat a)"
      by (rule assms(1) [unfolded programmable_def, rule_format]) (use True in linarith)
    ultimately show ?thesis using True by (simp add: programmed_def overlay_def)
  qed (auto simp: programmed_def overlay_def)
qed

lemma programmable_append:
  "programmable m a (xs @ ys) \<longleftrightarrow> programmable m a xs \<and> programmable m (a + of_nat (length xs)) ys"
  (is "?l \<longleftrightarrow> ?r")
proof
  assume l: ?l
  have "m (a + of_nat (length xs) + of_nat i) AND ys ! i = ys ! i" if "i < length ys" for i
    using l [unfolded programmable_def, rule_format, of "length xs + i"] that by (simp add: add.assoc)
  moreover have "m (a + of_nat i) AND xs ! i = xs ! i" if "i < length xs" for i
    using l [unfolded programmable_def, rule_format, of i] that by (simp add: nth_append)
  ultimately show ?r by (simp add: programmable_def)
next
  assume r: ?r
  show ?l unfolding programmable_def
  proof (intro allI impI)
    fix i assume "i < length (xs @ ys)"
    then show "m (a + of_nat i) AND (xs @ ys) ! i = (xs @ ys) ! i"
      using r by (cases "i < length xs")
        (auto simp: programmable_def nth_append add.assoc dest!: spec [of _ "i - length xs"])
  qed
qed

lemma programmable_frame:
  assumes "programmable m (a + of_nat (length xs)) ys" "unat a + length xs + length ys \<le> NVM_MAX_SIZE"
  shows "programmable (overlay m a xs) (a + of_nat (length xs)) ys"
proof -
  have "overlay m a xs (a + of_nat (length xs) + of_nat i) = m (a + of_nat (length xs) + of_nat i)"
    if "i < length ys" for i
  proof -
    have "unat (a + of_nat (length xs) + of_nat i) = unat a + length xs + i"
      using assms(2) that by (simp add: unat_add_of_nat add.assoc flip: of_nat_add)
    then show ?thesis by (simp add: overlay_def)
  qed
  then show ?thesis using assms(1) by (simp add: programmable_def)
qed

section \<open>What the driver does to the chip\<close>

context nor_chip begin

lemma wait: "\<exists>c'. QSpiFlashWaitBusy spi c = Some c' \<and> pending c' = 0 \<and> cell c' = cell c"
proof (induction "pending c" arbitrary: c)
  case 0
  obtain c' rx where s: "spi c [0x05, 0x55] 0 = (c', rx)" by fastforce
  then have "QSpiFlashWaitBusy spi c = Some c'"
    using status [OF s] 0 by (subst QSpiFlashWaitBusy.simps) (simp add: QSpiFlashReadSR_def)
  then show ?case using status [OF s] 0 by simp
next
  case (Suc n)
  obtain c' rx where s: "spi c [0x05, 0x55] 0 = (c', rx)" by fastforce
  then have "QSpiFlashWaitBusy spi c = QSpiFlashWaitBusy spi c'"
    using status [OF s] Suc(2) by (subst QSpiFlashWaitBusy.simps) (simp add: QSpiFlashReadSR_def)
  moreover have "n = pending c'" "cell c' = cell c" using status [OF s] Suc(2) by simp_all
  ultimately show ?case using Suc(1) [of c'] by simp
qed

text \<open>A command that changes cells: enable, command, wait.\<close>

lemma command:
  assumes "pending c = 0"
    and "\<And>c1 c2 rx. pending c1 = 0 \<Longrightarrow> wel c1 \<Longrightarrow> cell c1 = cell c \<Longrightarrow> spi c1 tx 0 = (c2, rx) \<Longrightarrow> cell c2 = m"
  shows "\<exists>c'. QSpiFlashWaitBusy spi (fst (spi (QSPI_FlashWriteEnable spi c) tx 0)) = Some c'
    \<and> pending c' = 0 \<and> cell c' = m"
proof -
  obtain c1 rx where e: "spi c [0x06] 0 = (c1, rx)" by fastforce
  obtain c2 rx2 where t: "spi c1 tx 0 = (c2, rx2)" by fastforce
  have "cell c2 = m" using write_enable [OF assms(1) e] assms(2) [OF _ _ _ t] by simp
  then show ?thesis using wait [of c2] by (simp add: QSPI_FlashWriteEnable_def e t)
qed

lemma erase_chip: "pending c = 0 \<Longrightarrow>
    \<exists>c'. QSpiFlashEraseChip spi c = Some c' \<and> pending c' = 0 \<and> cell c' = (\<lambda>x. 0xff)"
  unfolding QSpiFlashEraseChip_def by (rule command) (auto dest: chip_erase)

lemma erase: "pending c = 0 \<Longrightarrow> unat a < NVM_MAX_SIZE \<Longrightarrow>
    \<exists>c'. QSpiFlashEraseSector spi c a = Some c' \<and> pending c' = 0 \<and> cell c' = erased_sector (cell c) a"
  unfolding QSpiFlashEraseSector_def by (rule command) (auto dest: sector_erase)

lemma write_page:
  assumes "pending c = 0" "0 < n" "unat n \<le> length p" "unat a mod 256 + unat n \<le> 256"
    "unat a + unat n \<le> NVM_MAX_SIZE"
  shows "\<exists>c'. QSpiFlashWriteOnePage spi c a p n = Some c' \<and> pending c' = 0
    \<and> cell c' = programmed (cell c) a (take (unat n) p)"
proof -
  have "0 < unat n" using assms(2) by (simp add: unat_gt_0)
  then have xs: "take (unat n) p \<noteq> []" "length (take (unat n) p) = unat n" using assms(3) by auto
  have "\<exists>c'. QSpiFlashWaitBusy spi (fst (spi (QSPI_FlashWriteEnable spi c) (0x02 # addr_bytes a @ take (unat n) p) 0))
      = Some c' \<and> pending c' = 0 \<and> cell c' = programmed (cell c) a (take (unat n) p)"
  proof (rule command [OF assms(1)])
    fix c1 c2 rx assume "pending c1 = 0" "wel c1" "cell c1 = cell c"
      "spi c1 (0x02 # addr_bytes a @ take (unat n) p) 0 = (c2, rx)"
    then show "cell c2 = programmed (cell c) a (take (unat n) p)"
      using page_program [of c1 "take (unat n) p" a c2 rx] xs assms(4,5) by simp
  qed
  then show ?thesis using assms(3) by (simp add: QSpiFlashWriteOnePage_def mem_get_def)
qed

lemma read_ok:
  assumes "pending c = 0" "unat a + unat n \<le> NVM_MAX_SIZE"
  shows "\<exists>c'. QSpiFlashRead spi c a n = (c', block (cell c) a (unat n)) \<and> pending c' = 0 \<and> cell c' = cell c"
proof -
  have "\<exists>c'. read_loop spi c a n k out = (c', out @ block (cell c) a (unat n - unat k)) \<and> pending c' = 0
      \<and> cell c' = cell c"
    if "pending c = 0" "unat k \<le> unat n" "unat a + (unat n - unat k) \<le> NVM_MAX_SIZE" for k out
    using that assms(1)
  proof (induction "unat n - unat k" arbitrary: c a k out rule: less_induct)
    case less
    show ?case
    proof (cases "k < n")
      case True
      let ?r = "if 65536 < n - k then 65536 else n - k"
      obtain c1 rx where s: "spi c (0x03 # addr_bytes a) (unat ?r) = (c1, rx)" by fastforce
      have nk: "unat (n - k) = unat n - unat k" using less.prems(2) by (rule unat_sub_le)
      have r: "unat ?r \<le> unat n - unat k" "0 < unat ?r"
        using True nk by (auto simp: word_less_nat_alt)
      have k: "unat (k + ?r) = unat k + unat ?r"
        using r less.prems(2) unat_lt_2p32 [of n] by (intro unat_add_small) simp
      have a: "unat (a + ?r) = unat a + unat ?r"
        using r less.prems(3) by (intro unat_add_small) simp
      have c1: "drop 4 rx = block (cell c) a (unat ?r)" "pending c1 = 0" "cell c1 = cell c"
        using read [OF less.prems(1) _ s] r less.prems(3) by auto
      have "\<exists>c'. read_loop spi c1 (a + ?r) n (k + ?r) (out @ drop 4 rx) =
          (c', (out @ drop 4 rx) @ block (cell c1) (a + ?r) (unat n - unat (k + ?r))) \<and> pending c' = 0
          \<and> cell c' = cell c1"
        by (rule less.hyps) (use r k a c1 less.prems in auto)
      moreover have "block (cell c) a (unat n - unat k) =
          block (cell c) a (unat ?r) @ block (cell c) (a + ?r) (unat n - unat (k + ?r))"
        using block_append [of "cell c" a "unat ?r" "unat n - unat (k + ?r)"] r k by (simp add: of_nat_unat)
      ultimately show ?thesis using True s c1
        by (subst read_loop.simps) (simp add: Let_def del: if_split)
    next
      case False
      then have "unat n - unat k = 0" by (simp add: word_less_nat_alt)
      then show ?thesis using False less.prems by (subst read_loop.simps) (simp add: block_def)
    qed
  qed
  from this [of 0 "[]"] assms show ?thesis by (simp add: QSpiFlashRead_def)
qed

text \<open>A page whose cells allow the data is written in the first round.\<close>

lemma tries_ok:
  assumes "pending c = 0" "0 < n" "unat n \<le> length p" "unat a mod 256 + unat n \<le> 256"
    "unat a + unat n \<le> NVM_MAX_SIZE" "programmable (cell c) a (take (unat n) p)"
  shows "\<exists>c'. write_tries spi (Suc j) c a p n = Some (c', int j) \<and> pending c' = 0
    \<and> cell c' = overlay (cell c) a (take (unat n) p)"
proof -
  let ?xs = "take (unat n) p"
  have len: "length ?xs = unat n" using assms(3) by simp
  obtain c1 where c1: "QSpiFlashWriteOnePage spi c a p n = Some c1" "pending c1 = 0"
      "cell c1 = overlay (cell c) a ?xs"
    using write_page [OF assms(1-5)] programmed_overlay [OF assms(6)] len assms(5) by auto
  have n: "unat (ucast n :: u32) = unat n" by (rule unat_ucast32)
  obtain c2 where c2: "QSpiFlashRead spi c1 a (ucast n) = (c2, block (cell c1) a (unat n))" "pending c2 = 0"
      "cell c2 = cell c1"
    using read_ok [OF c1(2), of a "ucast n"] assms(5) n by auto
  have "block (cell c1) a (unat n) = ?xs"
    using block_overlay [of a ?xs "cell c"] len assms(5) c1(3) by simp
  then show ?thesis using c1 c2 by simp
qed

text \<open>A page that lacks a bit is programmed ten times and never verifies.\<close>

lemma tries_fail:
  assumes "pending c = 0" "0 < n" "unat n \<le> length p" "unat a mod 256 + unat n \<le> 256"
    "unat a + unat n \<le> NVM_MAX_SIZE" "\<not> programmable (cell c) a (take (unat n) p)"
  shows "\<exists>c'. write_tries spi j c a p n = Some (c', -1) \<and> pending c' = 0
    \<and> cell c' = (if j = 0 then cell c else programmed (cell c) a (take (unat n) p))"
  using assms(1,6)
proof (induction j arbitrary: c)
  case (Suc j)
  let ?xs = "take (unat n) p"
  have len: "length ?xs = unat n" using assms(3) by simp
  obtain c1 where c1: "QSpiFlashWriteOnePage spi c a p n = Some c1" "pending c1 = 0"
      "cell c1 = programmed (cell c) a ?xs"
    using write_page [OF Suc.prems(1) assms(2-5)] by auto
  have n: "unat (ucast n :: u32) = unat n" by (rule unat_ucast32)
  obtain c2 where c2: "QSpiFlashRead spi c1 a (ucast n) = (c2, block (cell c1) a (unat n))" "pending c2 = 0"
      "cell c2 = cell c1"
    using read_ok [OF c1(2), of a "ucast n"] assms(5) n by auto
  have at: "programmed (cell c) a ?xs (a + of_nat i) = cell c (a + of_nat i) AND ?xs ! i" if "i < unat n" for i
    using that assms(5) len by (simp add: programmed_def unat_add_of_nat)
  obtain i where i: "i < unat n" "cell c (a + of_nat i) AND ?xs ! i \<noteq> ?xs ! i"
    using Suc.prems(2) len by (auto simp: programmable_def)
  then have "block (cell c1) a (unat n) ! i \<noteq> ?xs ! i" using c1(3) at by simp
  then have ne: "block (cell c1) a (unat n) \<noteq> ?xs" by metis
  have "\<not> programmable (cell c2) a ?xs"
    unfolding programmable_def using i c1(3) c2(3) at len by (auto intro!: exI [of _ i] simp: ac_simps)
  then obtain c3 where c3: "write_tries spi j c2 a p n = Some (c3, -1)" "pending c3 = 0"
      "cell c3 = (if j = 0 then cell c2 else programmed (cell c2) a ?xs)"
    using Suc.IH [OF c2(2)] by blast
  have "programmed (programmed (cell c) a ?xs) a ?xs = programmed (cell c) a ?xs"
    by (rule ext) (simp add: programmed_def ac_simps)
  then show ?case using c1 c2 c3 ne by auto
qed simp

text \<open>A block is written page by page.\<close>

lemma any_loop_ok:
  assumes "pending c = 0" "0 < r" "r \<le> n" "unat n \<le> length p"
    "n = r \<or> unat a mod 256 + unat r = 256" "unat a mod 256 + unat r \<le> 256"
    "unat a + unat n \<le> NVM_MAX_SIZE" "programmable (cell c) a (take (unat n) p)"
  shows "\<exists>c'. write_any_loop spi c a p n r = Some (c', 0) \<and> pending c' = 0
    \<and> cell c' = overlay (cell c) a (take (unat n) p)"
  using assms
proof (induction "unat n" arbitrary: c a p n r rule: less_induct)
  case less
  have rn: "unat r \<le> unat n" using less.prems(3) by (simp add: word_le_nat_alt)
  have split: "take (unat n) p = take (unat r) p @ take (unat n - unat r) (drop (unat r) p)"
    using rn by (metis le_add_diff_inverse take_add)
  have len: "length (take (unat r) p) = unat r" using rn less.prems(4) by simp
  have pr: "programmable (cell c) a (take (unat r) p)"
      "programmable (cell c) (a + of_nat (unat r)) (take (unat n - unat r) (drop (unat r) p))"
    using less.prems(8) len unfolding split programmable_append by simp_all
  obtain c1 where c1: "write_tries spi (Suc 9) c a p r = Some (c1, int 9)" "pending c1 = 0"
      "cell c1 = overlay (cell c) a (take (unat r) p)"
    using tries_ok [OF less.prems(1,2) _ less.prems(6) _ pr(1)] rn less.prems(4,7) by fastforce
  show ?case
  proof (cases "n = r")
    case True
    then show ?thesis using c1 by (subst write_any_loop.simps) (simp add: numeral_eq_Suc)
  next
    case False
    let ?n = "n - r" let ?r = "if 256 < ?n then 256 else ?n" and ?a = "a + ucast r" and ?p = "drop (unat r) p"
    have n: "unat ?n = unat n - unat r" using rn by (rule unat_sub_le)
    have r: "0 < unat r" using less.prems(2) by (simp add: unat_gt_0)
    have lt: "unat r < unat n" using False rn by (simp add: word_unat_eq_iff)
    have a': "?a = a + of_nat (unat r)" by (simp add: unsigned_ucast_eq of_nat_unat)
    have a: "unat ?a = unat a + unat r" using rn less.prems(7) unfolding a' by (simp add: unat_add_of_nat)
    have amod: "unat ?a mod 256 = 0" using False less.prems(5) next_block by (simp add: a)
    have r': "unat ?r \<le> 256" "0 < ?r" "?r \<le> ?n"
      using lt n by (auto simp: word_less_nat_alt word_le_nat_alt)
    have "\<exists>c'. write_any_loop spi c1 ?a ?p ?n ?r = Some (c', 0) \<and> pending c' = 0
        \<and> cell c' = overlay (cell c1) ?a (take (unat ?n) ?p)"
    proof (rule less.hyps)
      show "unat ?n < unat n" using n r lt by simp
      show "pending c1 = 0" by (rule c1)
      show "unat ?n \<le> length ?p" using n less.prems(4) by simp
      show "?n = ?r \<or> unat ?a mod 256 + unat ?r = 256" using amod by simp
      show "unat ?a mod 256 + unat ?r \<le> 256" using amod r'(1) by simp
      show "unat ?a + unat ?n \<le> NVM_MAX_SIZE" using a n rn less.prems(7) by simp
      show "programmable (cell c1) ?a (take (unat ?n) ?p)"
        using programmable_frame [of "cell c" a "take (unat r) p"] pr(2) len less.prems(4,7) rn
        unfolding c1(3) n a' by simp
    qed (use r' in simp_all)
    then obtain c2 where c2: "write_any_loop spi c1 ?a ?p ?n ?r = Some (c2, 0)" "pending c2 = 0"
        "cell c2 = overlay (cell c1) ?a (take (unat ?n) ?p)" by blast
    have "overlay (cell c1) ?a (take (unat ?n) ?p) = overlay (cell c) a (take (unat n) p)"
      using overlay_append [of a "take (unat r) p" "take (unat n - unat r) ?p" "cell c"] len less.prems(4,7) rn
      unfolding c1(3) n a' split by simp
    then show ?thesis using c1 c2 False
      by (subst write_any_loop.simps) (simp add: numeral_eq_Suc Let_def del: if_split)
  qed
qed

lemma any_ok:
  assumes "pending c = 0" "0 < n" "unat n \<le> length p"
    "unat a + unat n \<le> NVM_MAX_SIZE" "programmable (cell c) a (take (unat n) p)"
  shows "\<exists>c'. QSpiWriteAny spi c a p n = Some (c', 0) \<and> pending c' = 0
    \<and> cell c' = overlay (cell c) a (take (unat n) p)"
proof -
  let ?pr = "256 - ucast (a mod 256) :: u16" let ?r = "if n \<le> ?pr then n else ?pr"
  have m: "unat (ucast (a mod 256) :: u16) = unat a mod 256"
    by (simp add: unsigned_ucast_eq unat_mod_distrib take_bit_eq_mod)
  then have pr: "unat ?pr = 256 - unat a mod 256"
    by (subst unat_sub_le) (simp_all add: less_imp_le)
  have "\<exists>c'. write_any_loop spi c a p n ?r = Some (c', 0) \<and> pending c' = 0
      \<and> cell c' = overlay (cell c) a (take (unat n) p)"
  proof (rule any_loop_ok)
    have "0 < ?pr" unfolding word_less_nat_alt pr by simp
    then show "0 < ?r" using assms(2) by presburger
    show "n = ?r \<or> unat a mod 256 + unat ?r = 256" "unat a mod 256 + unat ?r \<le> 256" "?r \<le> n"
      using pr by (auto simp: word_le_nat_alt)
  qed (use assms in simp_all)
  then show ?thesis by (simp add: QSpiWriteAny_def Let_def)
qed

end

lemma same_sector: "x div 4096 = a div 4096 \<longleftrightarrow> a div 4096 * 4096 \<le> x \<and> x < a div 4096 * 4096 + (4096 :: nat)"
proof
  assume "x div 4096 = a div 4096"
  then show "a div 4096 * 4096 \<le> x \<and> x < a div 4096 * 4096 + 4096"
    using div_mult_mod_eq [of x 4096] mod_less_divisor [of 4096 x] by linarith
qed (auto intro: div_nat_eqI)

lemma overlay_erased:
  assumes "unat a mod 4096 = 0" "length xs = 4096"
  shows "overlay (erased_sector m a) a xs = overlay m a xs"
proof
  fix x :: u32
  have "unat x div 4096 = unat a div 4096 \<Longrightarrow> unat a \<le> unat x \<and> unat x < unat a + 4096"
    using assms(1) div_mult_mod_eq [of "unat a" 4096] by (simp add: same_sector)
  then show "overlay (erased_sector m a) a xs x = overlay m a xs x"
    using assms(2) by (auto simp: overlay_def erased_sector_def)
qed

text \<open>An erased range takes any data.\<close>

definition blank :: "(u32 \<Rightarrow> u8) \<Rightarrow> u32 \<Rightarrow> nat \<Rightarrow> bool" where
  "blank m a n \<longleftrightarrow> (\<forall>i<n. m (a + of_nat i) = 0xff)"

lemma blank_programmable: "blank m a n \<Longrightarrow> length xs \<le> n \<Longrightarrow> programmable m a xs"
proof -
  have ff: "(0xff :: u8) = -1" by simp
  show "blank m a n \<Longrightarrow> length xs \<le> n \<Longrightarrow> programmable m a xs"
    unfolding blank_def programmable_def ff by simp
qed

lemma blank_erased:
  assumes "unat a mod 4096 + n \<le> 4096" "unat a + n \<le> NVM_MAX_SIZE"
  shows "blank (erased_sector m b) a n \<longleftrightarrow> unat a div 4096 = unat b div 4096 \<or> blank m a n"
proof -
  have "unat (a + of_nat i) div 4096 = unat a div 4096" if "i < n" for i
  proof -
    have "unat (a + of_nat i) = unat a + i" using assms that by (simp add: unat_add_of_nat)
    then show ?thesis
      using assms(1) that div_mult_mod_eq [of "unat a" 4096] unfolding same_sector by linarith
  qed
  then show ?thesis by (auto simp: blank_def erased_sector_def)
qed

context nor_chip begin

lemma sector_pages_ok:
  assumes "pending c = 0" "256 * k \<le> length p" "unat a mod 256 = 0" "unat a + 256 * k \<le> NVM_MAX_SIZE"
    "programmable (cell c) a (take (256 * k) p)"
  shows "\<exists>c'. sector_pages spi k c a p = Some (c', 0) \<and> pending c' = 0
    \<and> cell c' = overlay (cell c) a (take (256 * k) p)"
  using assms
proof (induction k arbitrary: c a p)
  case (Suc k)
  have split: "take (256 * Suc k) p = take 256 p @ take (256 * k) (drop 256 p)"
    by (metis mult_Suc_right take_add)
  have len: "length (take 256 p) = 256" using Suc.prems(2) by simp
  have pr: "programmable (cell c) a (take 256 p)"
      "programmable (cell c) (a + of_nat 256) (take (256 * k) (drop 256 p))"
    using Suc.prems(5) unfolding split programmable_append len by simp_all
  obtain c1 where c1: "write_tries spi (Suc 9) c a p 256 = Some (c1, int 9)" "pending c1 = 0"
      "cell c1 = overlay (cell c) a (take 256 p)"
    using tries_ok [OF Suc.prems(1), of 256 p a 9] pr(1) Suc.prems(2-4) by auto
  have a: "unat (a + 256) = unat a + 256" using Suc.prems(4) by (subst unat_add_small) simp_all
  have al: "unat (a + 256) mod 256 = 0" using a Suc.prems(3) by simp
  have dr: "256 * k \<le> length (drop 256 p)" using Suc.prems(2) by simp
  have "programmable (cell c1) (a + 256) (take (256 * k) (drop 256 p))"
    using programmable_frame [of "cell c" a "take 256 p" "take (256 * k) (drop 256 p)"] pr(2) len Suc.prems(2,4)
    unfolding c1(3) by simp
  then obtain c2 where c2: "sector_pages spi k c1 (a + 256) (drop 256 p) = Some (c2, 0)" "pending c2 = 0"
      "cell c2 = overlay (cell c1) (a + 256) (take (256 * k) (drop 256 p))"
    using Suc.IH [OF c1(2), of "drop 256 p" "a + 256", OF dr al] a Suc.prems(4) by auto
  have "overlay (cell c1) (a + 256) (take (256 * k) (drop 256 p)) = overlay (cell c) a (take (256 * Suc k) p)"
    using overlay_append [of a "take 256 p" "take (256 * k) (drop 256 p)" "cell c"] len Suc.prems(2,4)
    unfolding c1(3) split by simp
  then show ?case using c1 c2 by (simp add: numeral_eq_Suc)
qed simp

lemma any_fail:
  assumes "pending c = 0" "0 < n" "unat n \<le> length p" "unat a + unat n \<le> NVM_MAX_SIZE"
    "unat a mod 256 + unat n \<le> 256" "\<not> programmable (cell c) a (take (unat n) p)"
  shows "\<exists>c'. QSpiWriteAny spi c a p n = Some (c', 0) \<and> pending c' = 0
    \<and> cell c' = programmed (cell c) a (take (unat n) p)"
proof -
  have "unat (ucast (a mod 256) :: u16) = unat a mod 256"
    by (simp add: unsigned_ucast_eq unat_mod_distrib take_bit_eq_mod)
  then have "unat (256 - ucast (a mod 256) :: u16) = 256 - unat a mod 256"
    by (subst unat_sub_le) (simp_all add: less_imp_le)
  then have r: "n \<le> 256 - ucast (a mod 256)" using assms(5) by (simp add: word_le_nat_alt)
  obtain c1 where c1: "write_tries spi 10 c a p n = Some (c1, -1)" "pending c1 = 0"
      "cell c1 = programmed (cell c) a (take (unat n) p)"
    using tries_fail [OF assms(1,2,3,5,4,6), of 10] by auto
  have "write_any_loop spi c a p n n = Some (c1, 0)"
    by (subst write_any_loop.simps) (simp add: c1(1))
  then show ?thesis using c1 r by (simp add: QSpiWriteAny_def Let_def)
qed

lemma sector_ok:
  assumes "pending c = 0" "length p = 4096" "unat a mod 4096 = 0" "unat a < NVM_MAX_SIZE"
  shows "\<exists>c'. QSpiWriteOneSector spi c a p = Some (c', 0) \<and> pending c' = 0 \<and> cell c' = overlay (cell c) a p"
proof -
  obtain c1 where c1: "QSpiFlashEraseSector spi c a = Some c1" "pending c1 = 0"
      "cell c1 = erased_sector (cell c) a"
    using erase [OF assms(1,4)] by blast
  have "unat a = unat a div 4096 * 4096" using assms(3) div_mult_mod_eq [of "unat a" 4096] by linarith
  moreover have "q * 4096 < 0x80000 \<Longrightarrow> q * 4096 + 4096 \<le> 0x80000" for q :: nat
    using block_fits [of q 4096 128] by simp
  ultimately have fit: "unat a + 4096 \<le> NVM_MAX_SIZE" using assms(4) by metis
  have al: "unat a mod 256 = 0" using assms(3) mod_mod_cancel [of 256 4096 "unat a"] by simp
  have "programmable (cell c1) a (take (256 * 16) p)"
    unfolding c1(3) by (rule blank_programmable [of _ _ 4096]) (use assms fit in \<open>simp_all add: blank_erased\<close>)
  then obtain c2 where "sector_pages spi 16 c1 a p = Some (c2, 0)" "pending c2 = 0"
      "cell c2 = overlay (cell c1) a (take (256 * 16) p)"
    using sector_pages_ok [OF c1(2), of 16 p a, OF _ al] assms(2) fit by auto
  then show ?thesis using c1 overlay_erased [OF assms(3,2)] assms(2) by (simp add: QSpiWriteOneSector_def)
qed

end

section \<open>A chip\<close>

text \<open>A chip that behaves as the locale asks; every change takes three reads of the status register.\<close>

record chip =
  ch_cell :: "u32 \<Rightarrow> u8"
  ch_wel :: bool
  ch_pending :: nat

definition addr_of :: "u8 list \<Rightarrow> u32" where
  "addr_of bs = push_bit 16 (ucast (bs ! 0)) OR push_bit 8 (ucast (bs ! 1)) OR ucast (bs ! 2)"

definition nor_sim :: "chip \<Rightarrow> u8 list \<Rightarrow> nat \<Rightarrow> chip \<times> u8 list" where
  "nor_sim c tx n =
     (let cmd = hd tx; a = addr_of (tl tx) in
      if cmd = 0x05 then (c\<lparr>ch_pending := ch_pending c - 1\<rparr>, [0xff, if ch_pending c = 0 then 0 else 1])
      else if cmd = 0x06 then (c\<lparr>ch_wel := True\<rparr>, [0xff])
      else if cmd = 0x03 then (c, replicate 4 0xff @ block (ch_cell c) a n)
      else if ch_wel c \<and> cmd = 0x02
      then (\<lparr>ch_cell = programmed (ch_cell c) a (drop 4 tx), ch_wel = False, ch_pending = 3\<rparr>, replicate (length tx) 0xff)
      else if ch_wel c \<and> cmd = 0x20
      then (\<lparr>ch_cell = erased_sector (ch_cell c) a, ch_wel = False, ch_pending = 3\<rparr>, replicate 4 0xff)
      else if ch_wel c \<and> cmd = 0xc7
      then (\<lparr>ch_cell = (\<lambda>x. 0xff), ch_wel = False, ch_pending = 3\<rparr>, [0xff])
      else (c, replicate (length tx + n) 0xff))"

lemma addr_of_bytes: "unat a < 2 ^ 24 \<Longrightarrow> addr_of (addr_bytes a @ xs) = a"
proof -
  assume a: "unat a < 2 ^ 24"
  have ff: "(0xff :: u32) = mask 8" by (simp add: mask_eq_exp_minus_1)
  have "take_bit 24 a = a" using a by (simp add: word_unat_eq_iff unsigned_take_bit_eq take_bit_nat_eq_self)
  then have hi: "\<not> bit a n" if "24 \<le> n" for n using that by (metis bit_take_bit_iff not_le)
  show ?thesis
  proof (rule bit_word_eqI)
    fix n assume "n < LENGTH(32)"
    then show "bit (addr_of (addr_bytes a @ xs)) n = bit a n"
      by (cases "n < 8"; cases "n < 16"; cases "n < 24")
        (auto simp: addr_of_def addr_bytes_def ff bit_simps not_less hi)
  qed
qed

lemma addr_of_bytes0: "unat a < 2 ^ 24 \<Longrightarrow> addr_of (addr_bytes a) = a"
  using addr_of_bytes [of a "[]"] by simp

lemma length_addr_bytes [simp]: "length (addr_bytes a) = 3"
  by (simp add: addr_bytes_def)

interpretation nor: nor_chip nor_sim ch_cell ch_wel ch_pending
proof
  fix c c' rx assume "nor_sim c [0x05, 0x55] 0 = (c', rx)"
  then show "(rx ! 1 AND 1 = 0 \<longleftrightarrow> ch_pending c = 0) \<and> ch_pending c' = ch_pending c - 1 \<and> ch_cell c' = ch_cell c"
    by (auto simp: nor_sim_def split: if_splits)
next
  fix c c' rx assume "ch_pending c = 0" "nor_sim c [0x06] 0 = (c', rx)"
  then show "ch_wel c' \<and> ch_pending c' = 0 \<and> ch_cell c' = ch_cell c" by (auto simp: nor_sim_def)
next
  fix c a n c' rx assume "ch_pending c = 0" "unat a + n \<le> NVM_MAX_SIZE" "nor_sim c (0x03 # addr_bytes a) n = (c', rx)"
  then show "drop 4 rx = block (ch_cell c) a n \<and> ch_pending c' = 0 \<and> ch_cell c' = ch_cell c"
    by (auto simp: nor_sim_def addr_of_bytes0)
next
  fix c xs a c' rx assume "ch_wel c" "unat a + length xs \<le> NVM_MAX_SIZE"
    "nor_sim c (0x02 # addr_bytes a @ xs) 0 = (c', rx)"
  then show "ch_cell c' = programmed (ch_cell c) a xs" by (auto simp: nor_sim_def addr_of_bytes)
next
  fix c a c' rx assume "ch_wel c" "unat a < NVM_MAX_SIZE" "nor_sim c (0x20 # addr_bytes a) 0 = (c', rx)"
  then show "ch_cell c' = erased_sector (ch_cell c) a" by (auto simp: nor_sim_def addr_of_bytes0)
next
  fix c c' rx assume "ch_wel c" "nor_sim c [0xc7] 0 = (c', rx)"
  then show "ch_cell c' = (\<lambda>x. 0xff)" by (auto simp: nor_sim_def)
qed

section \<open>Properties\<close>



text \<open>The chip after \<open>n\<close> reads of its status register, and whether the next read sees it busy.\<close>

primrec polled :: "'c spi \<Rightarrow> nat \<Rightarrow> 'c \<Rightarrow> 'c" where
  "polled spi 0 c = c"
| "polled spi (Suc n) c = polled spi n (fst (QSpiFlashReadSR spi c))"

definition busy_read :: "'c spi \<Rightarrow> 'c \<Rightarrow> bool" where
  "busy_read spi c \<longleftrightarrow> snd (QSpiFlashReadSR spi c) AND 1 \<noteq> 0"

lemma wait_unfold: "QSpiFlashWaitBusy spi c =
    (if busy_read spi c then QSpiFlashWaitBusy spi (fst (QSpiFlashReadSR spi c)) else Some (fst (QSpiFlashReadSR spi c)))"
  by (subst QSpiFlashWaitBusy.simps) (simp add: case_prod_beta busy_read_def)

lemma wait_some: "QSpiFlashWaitBusy spi c = Some c' \<Longrightarrow>
    \<exists>n. c' = polled spi (Suc n) c \<and> \<not> busy_read spi (polled spi n c) \<and> (\<forall>k<n. busy_read spi (polled spi k c))"
proof (erule QSpiFlashWaitBusy.raw_induct [rotated])
  fix W :: "'c spi \<Rightarrow> 'c \<Rightarrow> 'c option" and spi c c'
  assume IH: "\<And>spi c c'. W spi c = Some c' \<Longrightarrow>
      \<exists>n. c' = polled spi (Suc n) c \<and> \<not> busy_read spi (polled spi n c) \<and> (\<forall>k<n. busy_read spi (polled spi k c))"
    and W: "(let (c, SR) = QSpiFlashReadSR spi c in if SR AND 1 = 0 then Some c else W spi c) = Some c'"
  show "\<exists>n. c' = polled spi (Suc n) c \<and> \<not> busy_read spi (polled spi n c) \<and> (\<forall>k<n. busy_read spi (polled spi k c))"
  proof (cases "busy_read spi c")
    case True
    then have "W spi (fst (QSpiFlashReadSR spi c)) = Some c'" using W by (simp add: case_prod_beta busy_read_def)
    from IH [OF this] obtain n where n: "c' = polled spi (Suc (Suc n)) c" "\<not> busy_read spi (polled spi (Suc n) c)"
      "\<forall>k<n. busy_read spi (polled spi (Suc k) c)" by auto
    then have "busy_read spi (polled spi k c)" if "k < Suc n" for k using that True by (cases k) simp_all
    then show ?thesis using n(1,2) by blast
  next
    case False
    then show ?thesis using W by (intro exI [of _ 0]) (simp add: case_prod_beta busy_read_def)
  qed
qed



end
