(* ===== verification/FlashParam.thy ===== *)
theory FlashParam
  imports Flash AtCmd
begin

text \<open>
  The stored parameters, \<^verbatim>\<open>App/SerialNet/serialNet.c\<close>: \<open>WriteFlash\<close>, which rewrites part of a sector, the layout
  of \<open>USER_CFG_PARAM\<close> in memory, and the start of the module, \<open>init_default_data\<close>.  \<open>flash_buf\<close> is what
  \<open>OSMMalloc\<close> returns for the sector buffer, \<^term>\<open>None\<close> the null pointer.
\<close>

section \<open>Flash access\<close>

definition ReadFlash :: "'c spi \<Rightarrow> 'c \<Rightarrow> u32 \<Rightarrow> u32 \<Rightarrow> 'c \<times> u8 list" where
  "ReadFlash spi c DataLen ReadStartPos = QSpiFlashRead spi c ReadStartPos DataLen"

definition rewrite_sector :: "'c spi \<Rightarrow> 'c \<Rightarrow> u32 \<Rightarrow> u8 list \<Rightarrow> nat \<Rightarrow> nat \<Rightarrow> u8 list \<Rightarrow> ('c \<times> int) option" where
  "rewrite_sector spi c t flash_buf sector_off n pData = do {
     c \<leftarrow> QSpiFlashEraseSector spi c t;
     xs \<leftarrow> mem_get pData 0 n;
     flash_buf \<leftarrow> mem_put flash_buf sector_off xs;
     QSpiWriteAny spi c t flash_buf 4096 }"

partial_function (option) write_flash_loop ::
    "'c spi \<Rightarrow> 'c \<Rightarrow> u8 list \<Rightarrow> u32 \<Rightarrow> u32 \<Rightarrow> u8 \<Rightarrow> u16 \<Rightarrow> u16 \<Rightarrow> 'c option" where
  "write_flash_loop spi c pData DataLen WriteAddr sector_num sector_off secre_main =
     (let t = ucast sector_num * 4096;
          (c, flash_buf) = QSpiFlashRead spi c t 4096
      in Option.bind
        (if list_all (\<lambda>b. b = 0xff) (take (unat secre_main) (drop (unat sector_off) flash_buf))
         then QSpiWriteAny spi c WriteAddr pData secre_main
         else rewrite_sector spi c t flash_buf (unat sector_off) (unat secre_main) pData)
        (\<lambda>(c, r).
          if r \<noteq> 0 then Some c
          else if DataLen = ucast secre_main then Some c
          else
            let n = DataLen - ucast secre_main
            in write_flash_loop spi c (drop (unat secre_main) pData) n (WriteAddr + ucast secre_main)
                 (sector_num + 1) 0 (if 4096 < n then 4096 else ucast n)))"

definition WriteFlash :: "'c spi \<Rightarrow> 'c \<Rightarrow> u8 list option \<Rightarrow> u8 list \<Rightarrow> u32 \<Rightarrow> u32 \<Rightarrow> 'c option" where
  "WriteFlash spi c flash_buf pData DataLen BurnStartPos =
     (let sector_num = ucast (BurnStartPos div 4096);
          sector_off = ucast (BurnStartPos mod 4096);
          secre_main = 4096 - sector_off
      in case flash_buf of
           None \<Rightarrow> None
         | Some _ \<Rightarrow> write_flash_loop spi c pData DataLen BurnStartPos sector_num sector_off
             (if DataLen \<le> ucast secre_main then ucast DataLen else secre_main))"

section \<open>What the writes do\<close>

lemma block_slice: "off + n \<le> N \<Longrightarrow> take n (drop off (block m a N)) = block m (a + of_nat off) n"
  by (rule nth_equalityI) (auto simp: add.assoc)

lemma list_all_block: "list_all (\<lambda>b. b = 0xff) (block m a n) \<longleftrightarrow> blank m a n"
  by (auto simp: block_def blank_def list_all_iff)

lemma nth_splice:
  assumes "off + length xs \<le> length b" "i < length b"
  shows "(take off b @ xs @ drop (off + length xs) b) ! i =
    (if i < off then b ! i else if i < off + length xs then xs ! (i - off) else b ! i)"
  using assms by (auto simp: nth_append)

lemma overlay_block:
  assumes "off + length xs \<le> N" "unat t + N \<le> NVM_MAX_SIZE"
  shows "overlay m t (take off (block m t N) @ xs @ drop (off + length xs) (block m t N))
    = overlay m (t + of_nat off) xs" (is "overlay m t ?b = _")
proof
  fix x
  have t: "unat (t + of_nat off) = unat t + off" using assms by (simp add: unat_add_of_nat)
  have len: "length ?b = N" using assms(1) by simp
  show "overlay m t ?b x = overlay m (t + of_nat off) xs x"
  proof (cases "unat t \<le> unat x \<and> unat x < unat t + N")
    case True
    let ?i = "unat x - unat t"
    have i: "?i < N" "unat x = unat t + ?i" using True by auto
    then have "t + of_nat ?i = x" using True by (simp add: of_nat_diff of_nat_unat)
    then have "?b ! ?i = (if ?i < off then m x else if ?i < off + length xs then xs ! (?i - off) else m x)"
      using i(1) assms(1) nth_splice [of off xs "block m t N" ?i] by simp
    then show ?thesis using True t assms(1) len by (auto simp: overlay_def)
  next
    case False
    then show ?thesis using t assms(1) len by (auto simp: overlay_def)
  qed
qed

context nor_chip begin

lemma part_ok:
  fixes off n :: u16
  assumes "pending c = 0" "unat t mod 4096 = 0" "unat t + 4096 \<le> NVM_MAX_SIZE"
    "0 < n" "unat off + unat n \<le> 4096" "unat n \<le> length p"
  shows "\<exists>c' c1. QSpiFlashRead spi c t 4096 = (c1, block (cell c) t 4096) \<and>
    (if list_all (\<lambda>b. b = 0xff) (take (unat n) (drop (unat off) (block (cell c) t 4096)))
     then QSpiWriteAny spi c1 (t + of_nat (unat off)) p n
     else rewrite_sector spi c1 t (block (cell c) t 4096) (unat off) (unat n) p) = Some (c', 0)
    \<and> pending c' = 0 \<and> cell c' = overlay (cell c) (t + of_nat (unat off)) (take (unat n) p)"
proof -
  let ?a = "t + of_nat (unat (off :: u16)) :: u32" and ?buf = "block (cell c) t 4096"
  obtain c1 where c1: "QSpiFlashRead spi c t 4096 = (c1, ?buf)" "pending c1 = 0" "cell c1 = cell c"
    using read_ok [of c t 4096] assms(1,3) by auto
  have a: "unat ?a = unat t + unat off" using assms(3,5) by (simp add: unat_add_of_nat)
  show ?thesis
  proof (cases "blank (cell c) ?a (unat n)")
    case True
    have "programmable (cell c1) ?a (take (unat n) p)"
      using blank_programmable [OF True, of "take (unat n) p"] assms(6) c1(3) by simp
    then obtain c' where "QSpiWriteAny spi c1 ?a p n = Some (c', 0)" "pending c' = 0"
        "cell c' = overlay (cell c1) ?a (take (unat n) p)"
      using any_ok [OF c1(2) assms(4,6), of ?a] a assms(3,5) by auto
    then show ?thesis using c1 True assms(5) by (simp add: block_slice list_all_block)
  next
    case False
    obtain c2 where c2: "QSpiFlashEraseSector spi c1 t = Some c2" "pending c2 = 0"
        "cell c2 = erased_sector (cell c) t"
      using erase [OF c1(2), of t] assms(3) c1(3) by auto
    let ?b = "take (unat off) ?buf @ take (unat n) p @ drop (unat off + length (take (unat n) p)) ?buf"
    have len: "length ?b = 4096" "length (take (unat n) p) = unat n" using assms(5,6) by simp_all
    have n4: "unat (4096 :: u16) = 4096" by simp
    have "programmable (cell c2) t (take (unat (4096 :: u16)) ?b)"
      unfolding c2(3) n4 by (rule blank_programmable [of _ _ 4096])
        (use assms(2,3) in \<open>simp_all add: blank_erased\<close>)
    then obtain c' where c': "QSpiWriteAny spi c2 t ?b 4096 = Some (c', 0)" "pending c' = 0"
        "cell c' = overlay (cell c2) t (take (unat (4096 :: u16)) ?b)"
      using any_ok [OF c2(2), of 4096 ?b t] len(1) assms(3) n4 by auto
    have "take (unat (4096 :: u16)) ?b = ?b" by (rule take_all) (simp only: len(1) n4 order_refl)
    then have "cell c' = overlay (cell c) ?a (take (unat n) p)"
      using c'(3) c2(3) overlay_erased [OF assms(2) len(1)] overlay_block [of "unat off" "take (unat n) p" 4096 t]
        len(2) assms(3,5) by simp
    moreover have "mem_get p 0 (unat n) = Some (take (unat n) p)" using assms(6) by (simp add: mem_get_def)
    moreover have "mem_put ?buf (unat off) (take (unat n) p) = Some ?b"
      unfolding mem_put_def using assms(5) len(2) by simp
    ultimately have "rewrite_sector spi c1 t ?buf (unat off) (unat n) p = Some (c', 0)"
        "cell c' = overlay (cell c) ?a (take (unat n) p)"
      using c2(1) c'(1) by (simp_all only: rewrite_sector_def Option.bind.simps)
    then show ?thesis using c1(1) c'(2) False assms(5) by (simp add: block_slice list_all_block)
  qed
qed

end

context nor_chip begin

lemma flash_loop_ok:
  fixes off n :: u16 and D a :: u32 and sn :: u8
  assumes "pending c = 0" "0 < n" "unat off + unat n \<le> 4096" "unat D = unat n \<or> unat off + unat n = 4096"
    "unat n \<le> unat D" "unat D \<le> length p" "unat a + unat D \<le> NVM_MAX_SIZE"
    "unat a = unat sn * 4096 + unat off"
  shows "\<exists>c'. write_flash_loop spi c p D a sn off n = Some c' \<and> pending c' = 0
    \<and> cell c' = overlay (cell c) a (take (unat D) p)"
  using assms
proof (induction "unat D" arbitrary: c p D a sn off n rule: less_induct)
  case less
  let ?t = "ucast sn * 4096 :: u32"
  have n: "0 < unat n" using less.prems(2) by (simp add: unat_gt_0)
  have sn: "unat sn * 4096 < 0x80000" using less.prems(5,7,8) n by linarith
  have fit: "unat sn * 4096 + 4096 \<le> 0x80000" using sn block_fits [of "unat sn" 4096 128] by simp
  have t: "unat ?t = unat sn * 4096"
    using sn by (simp add: unat_word_ariths unsigned_ucast_eq take_bit_eq_mod)
  have a: "a = ?t + of_nat (unat off)"
    using less.prems(3,8) fit t by (simp add: word_unat_eq_iff unat_add_of_nat)
  obtain c2 c1 where c: "QSpiFlashRead spi c ?t 4096 = (c1, block (cell c) ?t 4096)"
    "(if list_all (\<lambda>b. b = 0xff) (take (unat n) (drop (unat off) (block (cell c) ?t 4096)))
      then QSpiWriteAny spi c1 a p n
      else rewrite_sector spi c1 ?t (block (cell c) ?t 4096) (unat off) (unat n) p) = Some (c2, 0)"
    "pending c2 = 0" "cell c2 = overlay (cell c) a (take (unat n) p)"
    using part_ok [OF less.prems(1), of ?t n off p, folded a] t fit less.prems(2-6) by auto
  have nD: "unat (ucast n :: u32) = unat n" by (rule unat_ucast32)
  show ?case
  proof (cases "D = ucast n")
    case True
    have "write_flash_loop spi c p D a sn off n = Some c2"
      by (subst write_flash_loop.simps) (simp add: Let_def c(1) c(2) True del: if_split)
    then show ?thesis using c(3,4) nD True by simp
  next
    case False
    let ?D = "D - ucast n" let ?n = "if 4096 < ?D then 4096 else ucast ?D :: u16"
      and ?a = "a + ucast n" and ?p = "drop (unat n) p"
    have D: "unat ?D = unat D - unat n" using less.prems(5) nD by (simp add: unat_sub_le)
    have lt: "unat n < unat D" using False less.prems(5) nD by (simp add: word_unat_eq_iff)
    have n': "unat ?n = min 4096 (unat ?D)"
      by (auto simp: word_less_nat_alt unsigned_ucast_eq take_bit_eq_mod)
    have full: "unat off + unat n = 4096" using less.prems(4) lt by simp
    have a': "?a = a + of_nat (unat n)" by (simp add: unsigned_ucast_eq of_nat_unat)
    have ua: "unat ?a = unat a + unat n" using less.prems(5,7) unfolding a' by (simp add: unat_add_of_nat)
    have sn1: "unat (sn + 1) = unat sn + 1" using sn by (subst unat_add_small) simp_all
    have len: "length (take (unat n) p) = unat n" using less.prems(5,6) by simp
    have split: "take (unat D) p = take (unat n) p @ take (unat ?D) ?p"
      using less.prems(5) unfolding D by (metis le_add_diff_inverse take_add)
    have "\<exists>c'. write_flash_loop spi c2 ?p ?D ?a (sn + 1) 0 ?n = Some c' \<and> pending c' = 0
        \<and> cell c' = overlay (cell c2) ?a (take (unat ?D) ?p)"
    proof (rule less.hyps)
      show "unat ?D < unat D" using D n lt by simp
      show "pending c2 = 0" by (rule c)
      show "0 < ?n" using n' lt D by (simp add: word_less_nat_alt)
      show "unat (0 :: u16) + unat ?n \<le> 4096" "unat ?n \<le> unat ?D"
        "unat ?D = unat ?n \<or> unat (0 :: u16) + unat ?n = 4096" unfolding n' by (simp_all add: min_def)
      show "unat ?D \<le> length ?p" using D less.prems(6) by simp
      show "unat ?a + unat ?D \<le> NVM_MAX_SIZE" using ua D less.prems(5,7) by simp
      show "unat ?a = unat (sn + 1) * 4096 + unat (0 :: u16)" using ua sn1 full less.prems(8) by simp
    qed
    then obtain c3 where c3: "write_flash_loop spi c2 ?p ?D ?a (sn + 1) 0 ?n = Some c3" "pending c3 = 0"
        "cell c3 = overlay (cell c2) ?a (take (unat ?D) ?p)" by blast
    have "overlay (cell c2) ?a (take (unat ?D) ?p) = overlay (cell c) a (take (unat D) p)"
      using overlay_append [of a "take (unat n) p" "take (unat ?D) ?p" "cell c"] len D less.prems(5-7)
      unfolding c(4) a' split by simp
    moreover have "write_flash_loop spi c p D a sn off n = write_flash_loop spi c2 ?p ?D ?a (sn + 1) 0 ?n"
      by (subst write_flash_loop.simps) (simp add: Let_def c(1) c(2) False del: if_split)
    ultimately show ?thesis using c3 by simp
  qed
qed

lemma write_flash_ok:
  assumes "pending c = 0" "0 < D" "unat D \<le> length p" "unat a + unat D \<le> NVM_MAX_SIZE"
  shows "\<exists>c'. WriteFlash spi c (Some buf) p D a = Some c' \<and> pending c' = 0
    \<and> cell c' = overlay (cell c) a (take (unat D) p)"
proof -
  let ?sn = "ucast (a div 4096) :: u8" and ?off = "ucast (a mod 4096) :: u16"
  let ?s = "4096 - ?off" let ?n = "if D \<le> ucast ?s then ucast D else ?s"
  have D: "0 < unat D" using assms(2) by (simp add: unat_gt_0)
  have "unat a < 0x80000" using assms(4) D by simp
  then have "unat a div 4096 < 128" by (simp add: div_less_iff_less_mult)
  then have sn: "unat ?sn = unat a div 4096"
    by (simp add: unsigned_ucast_eq unat_div_distrib take_bit_eq_mod)
  have off: "unat ?off = unat a mod 4096"
    by (simp add: unsigned_ucast_eq unat_mod_distrib take_bit_eq_mod)
  have s: "unat ?s = 4096 - unat a mod 4096"
    using off by (subst unat_sub_le) (simp_all add: less_imp_le)
  have n: "unat ?n = min (unat D) (4096 - unat a mod 4096)"
    using s by (auto simp: word_le_nat_alt unat_ucast32 unsigned_ucast_eq [of D] take_bit_eq_mod)
  have lt: "unat a mod 4096 < 4096" by simp
  have "\<exists>c'. write_flash_loop spi c p D a ?sn ?off ?n = Some c' \<and> pending c' = 0
      \<and> cell c' = overlay (cell c) a (take (unat D) p)"
  proof (rule flash_loop_ok [OF assms(1)])
    show "0 < ?n" unfolding word_less_nat_alt n using D lt by simp
    show "unat ?off + unat ?n \<le> 4096" "unat ?n \<le> unat D" "unat D = unat ?n \<or> unat ?off + unat ?n = 4096"
      unfolding n off using lt by auto
    show "unat a = unat ?sn * 4096 + unat ?off" unfolding sn off by simp
  qed (use assms in simp_all)
  then show ?thesis by (simp add: WriteFlash_def Let_def)
qed

end

section \<open>The parameters in memory\<close>

text \<open>The compiler aligns: two bytes behind \<open>SleepMode\<close> carry no field.\<close>

definition cfg_bytes :: "cfg_param \<Rightarrow> u8 list" where
  "cfg_bytes p = (let w = WiFiCfg p; i = IPCfg p in
     Ssid w @ [SSIDBrdEnable w, PhyMode w, Channel w, Encry w, AuthMode w, Protocol w, KeyLength w, KeyIndex w]
     @ PSK w @ [WscEn w, ConTryTimes w, WmmEn w]
     @ Ip i @ Netmask i @ GateWay i @ Dns i @ [bDhcp i, DhcpTryTimes i] @ Res_2 i
     @ [bDhcpServer p, bDnsServer p] @ cfg_DnsName p @ [Res_3 p])"

definition user_bytes :: "u8 list \<Rightarrow> user_param \<Rightarrow> u8 list" where
  "user_bytes gap u =
     le32 (isValid u) @ [up_atMode u, SleepMode u] @ gap @ le32 (Baudrate u)
     @ [socketProtocol u, socketType u] @ le16 (socketPort u) @ le32 (remoteCommIp u)
     @ le16 (up_frameLength u) @ le16 (up_frameGap u) @ cfg_bytes (cfg u)"

definition cfg_of_bytes :: "u8 list \<Rightarrow> cfg_param" where
  "cfg_of_bytes b = \<lparr>
     WiFiCfg = \<lparr>Ssid = take 33 b, SSIDBrdEnable = b ! 33, PhyMode = b ! 34, Channel = b ! 35, Encry = b ! 36,
       AuthMode = b ! 37, Protocol = b ! 38, KeyLength = b ! 39, KeyIndex = b ! 40, PSK = take 64 (drop 41 b),
       WscEn = b ! 105, ConTryTimes = b ! 106, WmmEn = b ! 107\<rparr>,
     IPCfg = \<lparr>Ip = take 4 (drop 108 b), Netmask = take 4 (drop 112 b), GateWay = take 4 (drop 116 b),
       Dns = take 4 (drop 120 b), bDhcp = b ! 124, DhcpTryTimes = b ! 125, Res_2 = take 2 (drop 126 b)\<rparr>,
     bDhcpServer = b ! 128, bDnsServer = b ! 129, cfg_DnsName = take 33 (drop 130 b), Res_3 = b ! 163\<rparr>"

definition user_of_bytes :: "u8 list \<Rightarrow> user_param" where
  "user_of_bytes b = \<lparr>isValid = of_le32 (take 4 b), up_atMode = b ! 4, SleepMode = b ! 5,
     Baudrate = of_le32 (take 4 (drop 8 b)), socketProtocol = b ! 12, socketType = b ! 13,
     socketPort = of_le16 (take 2 (drop 14 b)), remoteCommIp = of_le32 (take 4 (drop 16 b)),
     up_frameLength = of_le16 (take 2 (drop 20 b)), up_frameGap = of_le16 (take 2 (drop 22 b)),
     cfg = cfg_of_bytes (drop 24 b)\<rparr>"

definition cfg_sized :: "cfg_param \<Rightarrow> bool" where
  "cfg_sized p \<longleftrightarrow> length (Ssid (WiFiCfg p)) = 33 \<and> length (PSK (WiFiCfg p)) = 64
     \<and> length (Ip (IPCfg p)) = 4 \<and> length (Netmask (IPCfg p)) = 4 \<and> length (GateWay (IPCfg p)) = 4
     \<and> length (Dns (IPCfg p)) = 4 \<and> length (Res_2 (IPCfg p)) = 2 \<and> length (cfg_DnsName p) = 33"

lemma length_cfg_bytes: "cfg_sized p \<Longrightarrow> length (cfg_bytes p) = 164"
  by (simp add: cfg_bytes_def cfg_sized_def Let_def)

lemma length_user_bytes: "cfg_sized (cfg u) \<Longrightarrow> length gap = 2 \<Longrightarrow> length (user_bytes gap u) = 188"
  by (simp add: user_bytes_def length_cfg_bytes)

lemma cfg_of_bytes_inverse: "cfg_sized p \<Longrightarrow> cfg_of_bytes (cfg_bytes p) = p"
  by (simp add: cfg_bytes_def cfg_of_bytes_def cfg_sized_def Let_def nth_append)

lemma user_of_bytes_inverse:
  "cfg_sized (cfg u) \<Longrightarrow> length gap = 2 \<Longrightarrow> user_of_bytes (user_bytes gap u) = u"
  by (simp add: user_bytes_def user_of_bytes_def cfg_of_bytes_inverse nth_append)

section \<open>The operations of the module\<close>

abbreviation FACTORY_PARAM_ADDR :: u32 where "FACTORY_PARAM_ADDR \<equiv> 0x64000"
abbreviation USER_PARAM_ADDR :: u32 where "USER_PARAM_ADDR \<equiv> 0x65000"

text \<open>The chip, what the commands work on, and \<open>FactoryParam\<close> with its gap bytes.\<close>

record 'c board =
  bd_chip :: 'c
  bd_at :: at_sys
  bd_gap :: "u8 list"
  FactoryParam :: user_param
  factory_gap :: "u8 list"

definition upd_at :: "(at_sys \<Rightarrow> at_sys) \<Rightarrow> 'c board \<Rightarrow> 'c board" where
  "upd_at f b = b\<lparr>bd_at := f (bd_at b)\<rparr>"

definition GetFactoryParam :: "'c spi \<Rightarrow> 'c board \<Rightarrow> 'c board" where
  "GetFactoryParam spi b =
     (let (c, bs) = ReadFlash spi (bd_chip b) 188 FACTORY_PARAM_ADDR
      in b\<lparr>bd_chip := c, FactoryParam := user_of_bytes bs, factory_gap := take 2 (drop 6 bs)\<rparr>)"

definition SaveFactoryParam :: "'c spi \<Rightarrow> u8 list option \<Rightarrow> 'c board \<Rightarrow> 'c board option" where
  "SaveFactoryParam spi buf b =
     map_option (\<lambda>c. b\<lparr>bd_chip := c\<rparr>)
       (WriteFlash spi (bd_chip b) buf (user_bytes (factory_gap b) (FactoryParam b)) 188 FACTORY_PARAM_ADDR)"

definition load_cfg :: "at_sys \<Rightarrow> at_sys" where
  "load_cfg s = s\<lparr>inf := (inf s)\<lparr>SysParam := cfg (user s)\<rparr>\<rparr>"

definition GetUserParam :: "'c spi \<Rightarrow> 'c board \<Rightarrow> 'c board" where
  "GetUserParam spi b =
     (let (c, bs) = ReadFlash spi (bd_chip b) 188 USER_PARAM_ADDR
      in upd_at load_cfg (upd_at (upd_user (\<lambda>_. user_of_bytes bs)) (b\<lparr>bd_chip := c, bd_gap := take 2 (drop 6 bs)\<rparr>)))"

definition StoreUserParam :: "'c spi \<Rightarrow> u8 list option \<Rightarrow> 'c board \<Rightarrow> 'c board option" where
  "StoreUserParam spi buf b =
     map_option (\<lambda>c. b\<lparr>bd_chip := c\<rparr>)
       (WriteFlash spi (bd_chip b) buf (user_bytes (bd_gap b) (user (bd_at b))) 188 USER_PARAM_ADDR)"

text \<open>\<open>ip0\<close>: the uninitialised variable \<open>inet_aton\<close> writes to.\<close>

definition InitFactoryParam :: "u32 \<Rightarrow> 'c board \<Rightarrow> 'c board" where
  "InitFactoryParam ip0 b =
     (let b = upd_at (\<lambda>s. s\<lparr>inf := InfLoadDefaultParam (inf s)\<rparr>) b
      in b\<lparr>FactoryParam := \<lparr>isValid = 0, up_atMode = 0, SleepMode = 0, Baudrate = 115200, socketProtocol = 1,
             socketType = 1, socketPort = 8101, remoteCommIp = inet_aton ip0 (ascii ''192.168.0.100''),
             up_frameLength = 1024 * 10, up_frameGap = 100, cfg = SysParam (inf (bd_at b))\<rparr>,
           factory_gap := [0, 0]\<rparr>)"

definition Init_SeriaNet :: "at_sys \<Rightarrow> at_sys" where
  "Init_SeriaNet s = upd_inf InfWiFiStart (s\<lparr>WifiConnStatus :=
     \<lparr>connStatus = 0, cs_socketProtocol = socketProtocol (user s), cs_socketType = socketType (user s),
      cs_socketPort = socketPort (user s), remoteIp = remoteCommIp (user s), localIp = 0,
      sockfd = -1, connectFd = 0\<rparr>\<rparr>)"

definition LoadUserParam :: "'c board \<Rightarrow> 'c board" where
  "LoadUserParam b =
     (let b = upd_at (\<lambda>s. load_cfg (upd_user (\<lambda>u. u\<lparr>SleepMode := 0, up_atMode := 0\<rparr>) s)) b;
          b = upd_at (upd_user (\<lambda>u. u\<lparr>up_frameLength := clamp_length (up_frameLength u)\<rparr>)) b
      in b\<lparr>FactoryParam := (FactoryParam b)\<lparr>up_frameLength := up_frameLength (user (bd_at b)) AND 0xffff\<rparr>\<rparr>)"

definition GlobalInit :: "'c board \<Rightarrow> 'c board" where
  "GlobalInit = upd_at (\<lambda>s. s\<lparr>link_status := SYS_EVT_LINK_DOWN\<rparr>)"

definition uart_open :: "u32 \<Rightarrow> at_sys \<Rightarrow> at_sys" where
  "uart_open rate s = s\<lparr>uart_rate := rate\<rparr>"

text \<open>The branch shared by the button and by an invalid record; \<open>msg\<close> is what it prints.\<close>

definition factory_start :: "'c spi \<Rightarrow> u32 \<Rightarrow> u8 list option \<Rightarrow> u8 list option \<Rightarrow> string \<Rightarrow> 'c board \<Rightarrow> 'c board option" where
  "factory_start spi ip0 buf1 buf2 msg b = do {
     b \<leftarrow> SaveFactoryParam spi buf1 (InitFactoryParam ip0 b);
     let b = GetFactoryParam spi b;
     let b = (upd_at (upd_user (\<lambda>_. FactoryParam b)) b)\<lparr>bd_gap := factory_gap b\<rparr>;
     b \<leftarrow> StoreUserParam spi buf2 b;
     Some (upd_at (\<lambda>s. say msg [] (uart_open (Baudrate (FactoryParam b)) s)) b) }"

text \<open>\<open>gpio1\<close> and \<open>gpio2\<close> are the two samples of the factory button.\<close>

definition init_default_data :: "'c spi \<Rightarrow> u32 \<Rightarrow> u8 \<Rightarrow> u8 \<Rightarrow> u8 list option \<Rightarrow> u8 list option
    \<Rightarrow> 'c board \<Rightarrow> 'c board option" where
  "init_default_data spi ip0 gpio1 gpio2 buf1 buf2 b =
     (let b = GlobalInit b in
      if gpio1 = 0 \<and> gpio2 = 0 then factory_start spi ip0 buf1 buf2 ''Load factory parameters(Hardware).'' b
      else
        let b = GetUserParam spi b in
        if isValid (user (bd_at b)) = 0x01020304
        then Some (upd_at (\<lambda>s. Init_SeriaNet (say ''Load user's parameters.'' [] (uart_open (Baudrate (user s)) s)))
               (LoadUserParam b))
        else factory_start spi ip0 buf1 buf2 ''Load factory parameters(Software).'' b)"

definition ResponseSmartconfig :: "u32 \<Rightarrow> at_sys \<Rightarrow> at_sys" where
  "ResponseSmartconfig netif_ip s =
     (if smtconfigBegin s = 1
      then say ''+OK:IP=%s'' [text_of_ip netif_ip] (copy_cfg (s\<lparr>smtconfigBegin := 0\<rparr>))
      else s)"

section \<open>Saving and starting\<close>

lemma upd_at_simps [simp]:
  "bd_chip (upd_at f b) = bd_chip b" "bd_at (upd_at f b) = f (bd_at b)" "bd_gap (upd_at f b) = bd_gap b"
  "FactoryParam (upd_at f b) = FactoryParam b" "factory_gap (upd_at f b) = factory_gap b"
  by (simp_all add: upd_at_def)

lemma at_field_simps [simp]:
  "user (upd_user f s) = f (user s)" "user (load_cfg s) = user s" "user (upd_inf g s) = user s"
  "user (say fmt a s) = user s" "user (uart_open r s) = user s"
  "SysParam (inf (load_cfg s)) = cfg (user s)" "inf (upd_user f s) = inf s" "inf (say fmt a s) = inf s"
  "inf (uart_open r s) = inf s"
  by (simp_all add: upd_user_def load_cfg_def upd_inf_def say_def uart_open_def)

lemma GlobalInit_simps [simp]:
  "bd_chip (GlobalInit b) = bd_chip b" "user (bd_at (GlobalInit b)) = user (bd_at b)"
  "inf (bd_at (GlobalInit b)) = inf (bd_at b)"
  by (simp_all add: GlobalInit_def)

lemma ok_sized: "cfg_ok p \<Longrightarrow> cfg_sized p"
  by (simp add: cfg_ok_def cfg_sized_def wifi_ok_def ip_ok_def)

lemma init_factory_sized: "cfg_sized (cfg (FactoryParam (InitFactoryParam ip0 b)))"
  by (simp add: InitFactoryParam_def Let_def cfg_sized_def InfLoadDefaultParam_def pad_def fmt_02x_def)

lemma gap_of_bytes: "length gap = 2 \<Longrightarrow> take 2 (drop 6 (user_bytes gap u)) = gap"
  by (simp add: user_bytes_def)

context nor_chip begin

lemma save_record:
  assumes "pending c = 0" "cfg_sized (cfg u)" "length gap = 2" "unat a + 188 \<le> NVM_MAX_SIZE"
  shows "\<exists>c'. WriteFlash spi c (Some buf) (user_bytes gap u) 188 a = Some c' \<and> pending c' = 0
    \<and> cell c' = overlay (cell c) a (user_bytes gap u)"
  using write_flash_ok [OF assms(1), of 188 "user_bytes gap u" a] length_user_bytes [OF assms(2,3)] assms(4) by simp

lemma read_record:
  assumes "pending c = 0" "block (cell c) a 188 = user_bytes gap u" "cfg_sized (cfg u)" "length gap = 2"
    "unat a + 188 \<le> NVM_MAX_SIZE"
  shows "\<exists>c'. ReadFlash spi c 188 a = (c', user_bytes gap u) \<and> pending c' = 0 \<and> cell c' = cell c"
  using read_ok [OF assms(1), of a 188] assms(2,5) by (simp add: ReadFlash_def)

lemma read_user:
  assumes "pending (bd_chip b) = 0"
  shows "\<exists>c'. GetUserParam spi b = upd_at load_cfg (upd_at (upd_user (\<lambda>_. user_of_bytes (block (cell (bd_chip b)) USER_PARAM_ADDR 188)))
      (b\<lparr>bd_chip := c', bd_gap := take 2 (drop 6 (block (cell (bd_chip b)) USER_PARAM_ADDR 188))\<rparr>))
    \<and> pending c' = 0 \<and> cell c' = cell (bd_chip b)"
  using read_ok [OF assms, of USER_PARAM_ADDR 188] by (auto simp: GetUserParam_def ReadFlash_def)

lemma load_user:
  assumes "pending (bd_chip b) = 0" "block (cell (bd_chip b)) USER_PARAM_ADDR 188 = user_bytes gap u"
    "cfg_sized (cfg u)" "length gap = 2" "isValid u = 0x01020304" "\<not> (gpio1 = 0 \<and> gpio2 = 0)"
  shows "\<exists>b'. init_default_data spi ip0 gpio1 gpio2 buf1 buf2 b = Some b' \<and> pending (bd_chip b') = 0
    \<and> cell (bd_chip b') = cell (bd_chip b)
    \<and> user (bd_at b') = u\<lparr>up_atMode := 0, SleepMode := 0, up_frameLength := clamp_length (up_frameLength u)\<rparr>
    \<and> inf (bd_at b') = fst (InfWiFiStart ((inf (bd_at b))\<lparr>SysParam := cfg u\<rparr>))
    \<and> uart_rate (bd_at b') = Baudrate u"
proof -
  have "pending (bd_chip (GlobalInit b)) = 0" "cell (bd_chip (GlobalInit b)) = cell (bd_chip b)"
    using assms(1) by simp_all
  with read_user [of "GlobalInit b"] obtain c' where c':
    "GetUserParam spi (GlobalInit b) = upd_at load_cfg (upd_at (upd_user (\<lambda>_. u)) ((GlobalInit b)\<lparr>bd_chip := c', bd_gap := gap\<rparr>))"
    "pending c' = 0" "cell c' = cell (bd_chip b)"
    using assms(2) user_of_bytes_inverse [OF assms(3,4)] gap_of_bytes [OF assms(4)] by auto
  show ?thesis
    using assms(5,6) c'(2,3)
    by (auto simp: init_default_data_def c'(1) LoadUserParam_def Let_def Init_SeriaNet_def upd_inf_def upd_user_def
        load_cfg_def say_def uart_open_def)
qed

lemma factory_ok:
  assumes "pending (bd_chip b) = 0"
  shows "\<exists>b'. factory_start spi ip0 (Some buf1) (Some buf2) msg b = Some b' \<and> pending (bd_chip b') = 0
    \<and> user (bd_at b') = FactoryParam (InitFactoryParam ip0 b)
    \<and> cell (bd_chip b') = overlay (overlay (cell (bd_chip b)) FACTORY_PARAM_ADDR
          (user_bytes [0, 0] (FactoryParam (InitFactoryParam ip0 b))))
        USER_PARAM_ADDR (user_bytes [0, 0] (FactoryParam (InitFactoryParam ip0 b)))"
proof -
  let ?b = "InitFactoryParam ip0 b" and ?F = "FACTORY_PARAM_ADDR" and ?U = "USER_PARAM_ADDR"
  let ?f = "FactoryParam ?b" let ?bs = "user_bytes [0, 0] ?f"
  have gap: "factory_gap ?b = [0, 0]" "bd_chip ?b = bd_chip b" by (simp_all add: InitFactoryParam_def Let_def)
  have len: "length ?bs = 188" by (rule length_user_bytes [OF init_factory_sized]) simp
  obtain c1 where c1: "WriteFlash spi (bd_chip b) (Some buf1) ?bs 188 ?F = Some c1" "pending c1 = 0"
      "cell c1 = overlay (cell (bd_chip b)) ?F ?bs"
    using save_record [OF assms init_factory_sized [of ip0 b], of "[0, 0]" ?F buf1] by auto
  have "block (cell c1) ?F 188 = ?bs"
    using block_overlay [of ?F ?bs "cell (bd_chip b)"] unfolding c1(3) len by simp
  then obtain c2 where c2: "ReadFlash spi c1 188 ?F = (c2, ?bs)" "pending c2 = 0" "cell c2 = cell c1"
    using read_record [OF c1(2) _ init_factory_sized [of ip0 b], of ?F "[0, 0]"] by auto
  obtain c3 where c3: "WriteFlash spi c2 (Some buf2) ?bs 188 ?U = Some c3" "pending c3 = 0"
      "cell c3 = overlay (cell c2) ?U ?bs"
    using save_record [OF c2(2) init_factory_sized [of ip0 b], of "[0, 0]" ?U buf2] by auto
  have "user_of_bytes ?bs = ?f" "take 2 (drop 6 ?bs) = [0, 0]"
    by (rule user_of_bytes_inverse [OF init_factory_sized]) (simp_all add: gap_of_bytes)
  then have "GetFactoryParam spi (?b\<lparr>bd_chip := c1\<rparr>) = ?b\<lparr>bd_chip := c2, FactoryParam := ?f, factory_gap := [0, 0]\<rparr>"
    by (simp add: GetFactoryParam_def c2(1))
  then show ?thesis
    using c1 c2 c3 gap by (simp add: factory_start_def SaveFactoryParam_def StoreUserParam_def Let_def)
qed

end

lemma saved_user: "user (responseSAVE s [nm]) = (user s)\<lparr>isValid := 0x01020304\<rparr>"
  by (simp add: responseSAVE_def SaveUserParam_def say_def upd_user_def)

lemma clamped: "user_ok u \<Longrightarrow> clamp_length (up_frameLength u) = up_frameLength u"
  by (auto simp: user_ok_def clamp_length_def word_less_nat_alt word_le_nat_alt)

section \<open>Properties\<close>

text \<open>C30: \<open>WriteFlash\<close> implements writing to a byte array: whatever the flash held, exactly the given range
  changes, also across sectors, everything else in the sectors it erases is kept, and reading gives the data back.\<close>

theorem write_flash_refines:
  assumes "nor_chip spi cell wel pending"
    and "pending c = 0" "0 < n" "unat n \<le> length p" "unat a + unat n \<le> NVM_MAX_SIZE"
  shows "\<exists>c'. WriteFlash spi c (Some buf) p n a = Some c' \<and> pending c' = 0
    \<and> cell c' = overlay (cell c) a (take (unat n) p) \<and> snd (ReadFlash spi c' n a) = take (unat n) p"
proof -
  obtain c' where c': "WriteFlash spi c (Some buf) p n a = Some c'" "pending c' = 0"
      "cell c' = overlay (cell c) a (take (unat n) p)"
    using nor_chip.write_flash_ok [OF assms] by blast
  have "block (cell c') a (unat n) = take (unat n) p"
    using block_overlay [of a "take (unat n) p" "cell c"] assms(4,5) unfolding c'(3) by simp
  then show ?thesis
    using nor_chip.read_ok [OF assms(1) c'(2) assms(5)] c' by (auto simp: ReadFlash_def)
qed

lemma write_flash_refines_witness:
  "let c = \<lparr>ch_cell = (\<lambda>x. 0x55), ch_wel = False, ch_pending = 0\<rparr> in
   \<exists>c'. WriteFlash nor_sim c (Some []) [1, 2, 3] 3 0x64fff = Some c'
     \<and> snd (ReadFlash nor_sim c' 3 0x64fff) = [1, 2, 3] \<and> ch_cell c' 0x64ffe = 0x55"
  using write_flash_refines [OF nor.nor_chip_axioms, of "\<lparr>ch_cell = (\<lambda>x. 0x55), ch_wel = False, ch_pending = 0\<rparr>"
      3 "[1, 2, 3]" "0x64fff" "[]"]
  by (auto simp: overlay_def)


definition start_board :: "chip board" where
  "start_board = \<lparr>bd_chip = \<lparr>ch_cell = (\<lambda>x. 0xff), ch_wel = False, ch_pending = 0\<rparr>, bd_at = at_start, bd_gap = [0, 0],
     FactoryParam = zero_user, factory_gap = [0, 0]\<rparr>"


text \<open>Without a valid record, or with the button, the start stores the factory parameters in both places and
  uses them.  Their frame length of 10240 is not one the module accepts elsewhere, and the stored record is not
  valid either, so the next start does the same.\<close>

theorem factory_start_out_of_range:
  assumes "nor_chip spi cell wel pending"
    and "pending (bd_chip b) = 0"
    and "gpio1 = 0 \<and> gpio2 = 0 \<or> isValid (user_of_bytes (block (cell (bd_chip b)) USER_PARAM_ADDR 188)) \<noteq> 0x01020304"
  shows "\<exists>b'. init_default_data spi ip0 gpio1 gpio2 (Some buf1) (Some buf2) b = Some b'
    \<and> up_frameLength (user (bd_at b')) = 10240 \<and> \<not> user_ok (user (bd_at b'))
    \<and> (\<forall>a\<in>{FACTORY_PARAM_ADDR, USER_PARAM_ADDR}. user_of_bytes (block (cell (bd_chip b')) a 188) = user (bd_at b'))
    \<and> isValid (user (bd_at b')) \<noteq> 0x01020304"
proof -
  obtain b0 msg where b0: "init_default_data spi ip0 gpio1 gpio2 (Some buf1) (Some buf2) b
      = factory_start spi ip0 (Some buf1) (Some buf2) msg b0" "pending (bd_chip b0) = 0"
  proof (cases "gpio1 = 0 \<and> gpio2 = 0")
    case True
    then show ?thesis using that [of "''Load factory parameters(Hardware).''" "GlobalInit b"] assms(2)
      by (simp add: init_default_data_def Let_def)
  next
    case False
    have "pending (bd_chip (GlobalInit b)) = 0" using assms(2) by simp
    with nor_chip.read_user [OF assms(1) this] obtain c' where "isValid (user (bd_at (GetUserParam spi (GlobalInit b)))) \<noteq> 0x01020304"
        "pending (bd_chip (GetUserParam spi (GlobalInit b))) = 0"
      using assms(3) False by auto
    then show ?thesis
      using that [of "''Load factory parameters(Software).''" "GetUserParam spi (GlobalInit b)"] False
      by (simp add: init_default_data_def Let_def)
  qed
  let ?f = "FactoryParam (InitFactoryParam ip0 b0)"
  let ?bs = "user_bytes [0, 0] ?f"
  obtain b' where b': "factory_start spi ip0 (Some buf1) (Some buf2) msg b0 = Some b'" "user (bd_at b') = ?f"
      "cell (bd_chip b') = overlay (overlay (cell (bd_chip b0)) FACTORY_PARAM_ADDR ?bs) USER_PARAM_ADDR ?bs"
    using nor_chip.factory_ok [OF assms(1) b0(2)] by blast
  have len: "length ?bs = 188" by (rule length_user_bytes [OF init_factory_sized]) simp
  have "user_of_bytes (block (cell (bd_chip b')) a 188) = ?f" if "a = FACTORY_PARAM_ADDR \<or> a = USER_PARAM_ADDR" for a
  proof -
    have "block (cell (bd_chip b')) a 188 = ?bs"
      using that by (intro nth_equalityI) (auto simp: len b'(3) overlay_def unat_add_of_nat)
    then show ?thesis using user_of_bytes_inverse [OF init_factory_sized [of ip0 b0], of "[0, 0]"] by simp
  qed
  moreover have "up_frameLength ?f = 10240" "isValid ?f = 0" by (simp_all add: InitFactoryParam_def Let_def)
  ultimately show ?thesis using b0(1) b'(1,2) by (auto simp: user_ok_def)
qed

lemma factory_start_out_of_range_witness:
  "\<exists>b'. init_default_data nor_sim 0 1 1 (Some []) (Some []) start_board = Some b'
    \<and> up_frameLength (user (bd_at b')) = 10240"
proof -
  have "isValid (user_of_bytes (block (ch_cell (bd_chip start_board)) USER_PARAM_ADDR 188)) \<noteq> 0x01020304"
    by (simp add: user_of_bytes_def start_board_def block_def take_map upt_conv_Cons)
  then show ?thesis
    using factory_start_out_of_range [OF nor.nor_chip_axioms, of start_board 1 1 0 "[]" "[]"]
    by (auto simp: start_board_def)
qed

end
