(* ===== verification/TcpServer.thy ===== *)
theory TcpServer
  imports Prelude
begin

text \<open>
  The TCP server of the data mode, \<^verbatim>\<open>App/SerialNet/socketCom.c\<close>: the table of clients and the branch
  \<open>SOCK_SERVER\<close> of \<open>TCPRecvTask\<close>.  The socket layer is a parameter: what \<open>socket\<close>, \<open>bind\<close>, \<open>listen\<close>,
  \<open>accept\<close> and \<open>recv\<close> return and which descriptors \<open>select\<close> leaves in the set.  \<open>open_fds\<close> are the descriptors
  that are open; to close any other one is the fault \<^term>\<open>None\<close>, since the descriptor may belong to
  somebody else.  What the task prints is left out.
\<close>

record tcp_client =
  fd :: int
  timeout :: int
  isLogin :: int

record lanserver =
  readfd :: "int set"
  tcpServerFd :: int
  tcpClient :: "tcp_client list"

record srv =
  ls :: lanserver
  open_fds :: "int set"
  sv_sockfd :: int
  sv_connectFd :: int
  sv_connStatus :: u8
  uart_out :: "u8 list"

definition sock_close :: "int \<Rightarrow> srv \<Rightarrow> srv option" where
  "sock_close d s = (if d \<in> open_fds s then Some (s\<lparr>open_fds := open_fds s - {d}\<rparr>) else None)"

definition sock_open :: "int \<Rightarrow> srv \<Rightarrow> srv" where
  "sock_open d s = s\<lparr>open_fds := insert d (open_fds s)\<rparr>"

section \<open>The table of clients\<close>

definition no_client :: tcp_client where
  "no_client = \<lparr>fd = -1, timeout = 0, isLogin = 1\<rparr>"

definition LAN_tcpClientInit :: "lanserver \<Rightarrow> lanserver" where
  "LAN_tcpClientInit l = l\<lparr>tcpClient := replicate 5 no_client\<rparr>"

definition AddSelectFD :: "lanserver \<Rightarrow> lanserver" where
  "AddSelectFD l = l\<lparr>readfd := fold (\<lambda>c S. if 0 \<le> fd c then insert (fd c) S else S) (tcpClient l)
     (if 0 \<le> tcpServerFd l then {tcpServerFd l} else {})\<rparr>"

definition Get_MaxFd :: "lanserver \<Rightarrow> int" where
  "Get_MaxFd l = fold (\<lambda>c m. if 0 \<le> fd c then fd c else m) (tcpClient l)
     (if 0 \<le> tcpServerFd l then tcpServerFd l else 0)"

text \<open>\<open>sel n S\<close>: the descriptors \<open>select\<close> leaves in the set \<open>S\<close>, and its result.\<close>

definition tcpClient_SelectFd :: "(int \<Rightarrow> int set \<Rightarrow> int set \<times> int) \<Rightarrow> lanserver \<Rightarrow> lanserver \<times> int" where
  "tcpClient_SelectFd sel l =
     (let l = AddSelectFD l; select_fd = Get_MaxFd l
      in if 0 \<le> select_fd then
           let (S, ret) = sel (select_fd + 1) (readfd l) in (l\<lparr>readfd := S\<rparr>, ret)
         else (l, 0))"

definition CreateTcpServer :: "int \<Rightarrow> int \<Rightarrow> int \<Rightarrow> srv \<Rightarrow> (srv \<times> int) option" where
  "CreateTcpServer r_socket r_bind r_listen s =
     (if r_socket < 0 then Some (s, 1)
      else
        let s = sock_open r_socket s in
        if r_bind \<noteq> 0 then map_option (\<lambda>s. (s, 1)) (sock_close r_socket s)
        else if r_listen \<noteq> 0 then map_option (\<lambda>s. (s, 1)) (sock_close r_socket s)
        else Some (s, r_socket))"

fun put_client :: "int \<Rightarrow> tcp_client list \<Rightarrow> tcp_client list option" where
  "put_client d [] = None"
| "put_client d (c # cs) = (if fd c = -1 then Some (c\<lparr>fd := d\<rparr> # cs) else map_option ((#) c) (put_client d cs))"

definition AddTcpNewClient :: "int \<Rightarrow> srv \<Rightarrow> (srv \<times> int) option" where
  "AddTcpNewClient d s =
     (if d < 0 then Some (s, 1)
      else case put_client d (tcpClient (ls s)) of
        Some cs \<Rightarrow> Some (s\<lparr>ls := (ls s)\<lparr>tcpClient := cs\<rparr>\<rparr>, 0)
      | None \<Rightarrow> map_option (\<lambda>s. (s, 1)) (sock_close d s))"

section \<open>The task\<close>

text \<open>What the socket layer does in one round: the selection, the descriptor \<open>accept\<close> returns when the given ones are
  open, and what \<open>recv\<close> returns for a descriptor (\<^term>\<open>None\<close>: zero or an error).\<close>

record net_round =
  n_select :: "int \<Rightarrow> int set \<Rightarrow> int set \<times> int"
  n_accept :: "int set \<Rightarrow> int"
  n_recv :: "int \<Rightarrow> u8 list option"

text \<open>\<open>got\<close> is that \<open>OSMMalloc\<close> gave the receive buffer; without it the task prints what it reads through the null pointer,
  the fault \<^term>\<open>None\<close>.\<close>

definition set_fd :: "nat \<Rightarrow> int \<Rightarrow> srv \<Rightarrow> srv" where
  "set_fd i d s = s\<lparr>ls := (ls s)\<lparr>tcpClient := (tcpClient (ls s))[i := (tcpClient (ls s) ! i)\<lparr>fd := d\<rparr>]\<rparr>\<rparr>"

definition serve_client :: "bool \<Rightarrow> net_round \<Rightarrow> nat \<Rightarrow> srv \<Rightarrow> srv option" where
  "serve_client got e i s =
     (let d = fd (tcpClient (ls s) ! i) in
      if d < 0 then Some s
      else if d \<in> readfd (ls s) then
        (case n_recv e d of
           Some data \<Rightarrow> if got then Some (s\<lparr>uart_out := uart_out s @ data\<rparr>) else None
         | None \<Rightarrow> map_option (set_fd i (-1)) (sock_close d s))
      else Some s)"

fun serve_clients :: "bool \<Rightarrow> net_round \<Rightarrow> nat list \<Rightarrow> srv \<Rightarrow> srv option" where
  "serve_clients got e [] s = Some s"
| "serve_clients got e (i # is) s = Option.bind (serve_client got e i s) (serve_clients got e is)"

text \<open>The new client; the flag is \<open>goto END\<close>.\<close>

definition accept_client :: "net_round \<Rightarrow> srv \<Rightarrow> (srv \<times> bool) option" where
  "accept_client e s =
     (if tcpServerFd (ls s) \<in> readfd (ls s) then
        let newfd = n_accept e (open_fds s); s = s\<lparr>sv_connectFd := newfd\<rparr> in
        if newfd < 0 then Some (s, True)
        else map_option (\<lambda>(s, _). (s, False)) (AddTcpNewClient newfd ((sock_open newfd s)\<lparr>sv_connStatus := 1\<rparr>))
      else Some (s, False))"

definition server_round :: "bool \<Rightarrow> net_round \<Rightarrow> srv \<Rightarrow> (srv \<times> bool) option" where
  "server_round got e s =
     (let s = s\<lparr>ls := fst (tcpClient_SelectFd (n_select e) (ls s))\<rparr> in
      if tcpServerFd (ls s) < 0 then Some (s, True)
      else do {
        (s, quit) \<leftarrow> accept_client e s;
        if quit then Some (s, True)
        else map_option (\<lambda>s. (s, False)) (serve_clients got e [0..<5] s) })"

fun close_clients :: "nat list \<Rightarrow> srv \<Rightarrow> srv option" where
  "close_clients [] s = Some s"
| "close_clients (i # is) s =
     (let d = fd (tcpClient (ls s) ! i) in
      if 0 \<le> d then Option.bind (sock_close d s) (\<lambda>s. close_clients is (set_fd i (-1) s))
      else close_clients is s)"

text \<open>The label \<open>END\<close>.\<close>

definition server_end :: "srv \<Rightarrow> srv option" where
  "server_end s = do {
     s \<leftarrow> close_clients [0..<5] (s\<lparr>sv_connStatus := 0\<rparr>);
     s \<leftarrow> (let d = tcpServerFd (ls s) in
       if 0 \<le> d then map_option (\<lambda>s. s\<lparr>ls := (ls s)\<lparr>tcpServerFd := -1\<rparr>\<rparr>) (sock_close d s) else Some s);
     (let d = sv_sockfd s in
       if 0 \<le> d then map_option (\<lambda>s. s\<lparr>sv_sockfd := -1\<rparr>) (sock_close d s) else Some s) }"

text \<open>The rounds until the AT mode is switched on, after the last one of the list, or the task gives up.\<close>

fun server_rounds :: "bool \<Rightarrow> net_round list \<Rightarrow> srv \<Rightarrow> srv option" where
  "server_rounds got [] s = Some s"
| "server_rounds got (e # es) s = do { (s, quit) \<leftarrow> server_round got e s; if quit then Some s else server_rounds got es s }"

definition TCPRecvTask_server :: "bool \<Rightarrow> int \<Rightarrow> int \<Rightarrow> int \<Rightarrow> net_round list \<Rightarrow> srv \<Rightarrow> srv option" where
  "TCPRecvTask_server got r_socket r_bind r_listen es s = do {
     let s = s\<lparr>ls := LAN_tcpClientInit (ls s)\<rparr>;
     (s, d) \<leftarrow> CreateTcpServer r_socket r_bind r_listen s;
     s \<leftarrow> server_rounds got es (s\<lparr>ls := (ls s)\<lparr>tcpServerFd := d\<rparr>\<rparr>);
     server_end s }"

section \<open>Who owns which descriptor\<close>

text \<open>Descriptors kept in a list of slots, negative when free.\<close>

definition live :: "int list \<Rightarrow> int set" where
  "live xs = {x \<in> set xs. 0 \<le> x}"

definition apart :: "int list \<Rightarrow> bool" where
  "apart xs \<longleftrightarrow> distinct (filter (\<lambda>x. 0 \<le> x) xs)"

lemma slot_split: "i < length xs \<Longrightarrow> \<exists>l r. xs = l @ xs ! i # r \<and> (\<forall>d. xs[i := d] = l @ d # r)"
  by (metis id_take_nth_drop upd_conv_take_nth_drop)

lemma free_slot:
  assumes "i < length xs" "apart xs" "0 \<le> xs ! i"
  shows "live (xs[i := -1]) = live xs - {xs ! i} \<and> apart (xs[i := -1])"
proof -
  obtain l r where s: "xs = l @ xs ! i # r" "\<forall>d. xs[i := d] = l @ d # r" using slot_split [OF assms(1)] by blast
  have "apart (l @ xs ! i # r)" using assms(2) s(1) by simp
  then have "live (l @ -1 # r) = live (l @ xs ! i # r) - {xs ! i} \<and> apart (l @ -1 # r)"
    using assms(3) by (auto simp: live_def apart_def)
  then show ?thesis using s by simp
qed

lemma fill_slot:
  assumes "i < length xs" "apart xs" "xs ! i < 0" "0 \<le> d" "d \<notin> live xs"
  shows "live (xs[i := d]) = insert d (live xs) \<and> apart (xs[i := d])"
proof -
  obtain l r where s: "xs = l @ xs ! i # r" "\<forall>d. xs[i := d] = l @ d # r" using slot_split [OF assms(1)] by blast
  have "apart (l @ xs ! i # r)" "d \<notin> live (l @ xs ! i # r)" using assms(2,5) s(1) by simp_all
  then have "live (l @ d # r) = insert d (live (l @ xs ! i # r)) \<and> apart (l @ d # r)"
    using assms(3,4) by (auto simp: live_def apart_def)
  then show ?thesis using s by simp
qed

definition slots :: "srv \<Rightarrow> int list" where
  "slots s = tcpServerFd (ls s) # sv_sockfd s # map fd (tcpClient (ls s))"

text \<open>The open descriptors are those of the others, \<open>F\<close>, and those in the slots, each in one slot only.\<close>

definition srv_inv :: "int set \<Rightarrow> srv \<Rightarrow> bool" where
  "srv_inv F s \<longleftrightarrow> length (tcpClient (ls s)) = 5 \<and> (\<forall>i<5. -1 \<le> fd (tcpClient (ls s) ! i))
     \<and> apart (slots s) \<and> open_fds s = F \<union> live (slots s) \<and> F \<inter> live (slots s) = {}"

lemma slots_set_fd: "i < length (tcpClient (ls s)) \<Longrightarrow> slots (set_fd i d s) = (slots s)[i + 2 := d]"
  by (simp add: slots_def set_fd_def map_update)

lemma open_live: "srv_inv F s \<Longrightarrow> x \<in> live (slots s) \<Longrightarrow> x \<in> open_fds s"
  by (simp add: srv_inv_def)

lemma client_live: "i < length (tcpClient (ls s)) \<Longrightarrow> 0 \<le> fd (tcpClient (ls s) ! i) \<Longrightarrow> fd (tcpClient (ls s) ! i) \<in> live (slots s)"
  by (simp add: slots_def live_def)

text \<open>Closing the descriptor of a slot.\<close>

lemma close_slot:
  assumes "srv_inv F s" "slots t = (slots s)[k := -1]" "k < length (slots s)" "0 \<le> slots s ! k"
    "open_fds t = open_fds s - {slots s ! k}" "length (tcpClient (ls t)) = 5" "\<forall>i<5. -1 \<le> fd (tcpClient (ls t) ! i)"
  shows "srv_inv F t"
proof -
  have "live (slots t) = live (slots s) - {slots s ! k} \<and> apart (slots t)"
    unfolding assms(2) by (rule free_slot) (use assms in \<open>simp_all add: srv_inv_def\<close>)
  moreover have "slots s ! k \<in> live (slots s)" using assms(3,4) by (simp add: live_def)
  ultimately show ?thesis using assms(1,5-7) by (auto simp: srv_inv_def)
qed

lemma drop_client:
  assumes "srv_inv F s" "i < 5" "0 \<le> fd (tcpClient (ls s) ! i)"
  shows "\<exists>t. sock_close (fd (tcpClient (ls s) ! i)) s = Some t \<and> srv_inv F (set_fd i (-1) t)
    \<and> (set_fd i (-1) t) = (set_fd i (-1) s)\<lparr>open_fds := open_fds s - {fd (tcpClient (ls s) ! i)}\<rparr>"
proof -
  let ?d = "fd (tcpClient (ls s) ! i)" let ?t = "s\<lparr>open_fds := open_fds s - {?d}\<rparr>"
  have i: "i < length (tcpClient (ls s))" using assms(1,2) by (simp add: srv_inv_def)
  have "sock_close ?d s = Some ?t"
    using open_live [OF assms(1) client_live [OF i assms(3)]] by (simp add: sock_close_def)
  moreover have "srv_inv F (set_fd i (-1) ?t)"
  proof (rule close_slot [OF assms(1), of _ "i + 2"])
    show "slots (set_fd i (-1) ?t) = (slots s)[i + 2 := -1]"
      using i by (simp add: slots_set_fd) (simp add: slots_def)
    show "length (tcpClient (ls (set_fd i (-1) ?t))) = 5" "i + 2 < length (slots s)"
      using assms(1,2) by (simp_all add: set_fd_def srv_inv_def slots_def)
    show "\<forall>k<5. -1 \<le> fd (tcpClient (ls (set_fd i (-1) ?t)) ! k)"
      using assms(1,2) by (auto simp: set_fd_def srv_inv_def nth_list_update)
  qed (use assms i in \<open>simp_all add: slots_def set_fd_def\<close>)
  ultimately show ?thesis by (auto simp: set_fd_def)
qed

lemma inv_same:
  "srv_inv F s \<Longrightarrow> slots t = slots s \<Longrightarrow> open_fds t = open_fds s \<Longrightarrow> srv_inv F t"
proof -
  assume s: "srv_inv F s" "slots t = slots s" "open_fds t = open_fds s"
  then have m: "map fd (tcpClient (ls t)) = map fd (tcpClient (ls s))" by (simp add: slots_def)
  then have "length (tcpClient (ls t)) = 5" using s(1) map_eq_imp_length_eq [OF m] by (simp add: srv_inv_def)
  then have "fd (tcpClient (ls t) ! i) = fd (tcpClient (ls s) ! i)" if "i < 5" for i
    using m that s(1) by (metis nth_map srv_inv_def)
  then show ?thesis using s \<open>length (tcpClient (ls t)) = 5\<close> by (simp add: srv_inv_def)
qed

section \<open>The steps keep the ownership\<close>

lemma serve_client_ok: "srv_inv F s \<Longrightarrow> i < 5 \<Longrightarrow> \<exists>t. serve_client True e i s = Some t \<and> srv_inv F t"
proof (cases "0 \<le> fd (tcpClient (ls s) ! i) \<and> fd (tcpClient (ls s) ! i) \<in> readfd (ls s)
    \<and> n_recv e (fd (tcpClient (ls s) ! i)) = None")
  case True
  assume "srv_inv F s" "i < 5"
  then show ?thesis using True drop_client [of F s i] by (auto simp: serve_client_def Let_def)
next
  case False
  assume inv: "srv_inv F s"
  then show ?thesis using False
    by (auto simp: serve_client_def Let_def not_le intro: inv_same [OF inv] simp: slots_def split: option.split)
qed

lemma serve_clients_ok: "srv_inv F s \<Longrightarrow> \<forall>i\<in>set is. i < 5 \<Longrightarrow> \<exists>t. serve_clients True e is s = Some t \<and> srv_inv F t"
proof (induction "is" arbitrary: s)
  case (Cons i "is")
  then obtain t where "serve_client True e i s = Some t" "srv_inv F t" using serve_client_ok [of F s i e] by auto
  then show ?case using Cons.IH [of t] Cons.prems(2) by simp
qed simp

lemma put_client_Some:
  "put_client d cs = Some cs' \<Longrightarrow> \<exists>i<length cs. fd (cs ! i) = -1 \<and> cs' = cs[i := (cs ! i)\<lparr>fd := d\<rparr>]"
proof (induction cs arbitrary: cs')
  case (Cons c cs)
  show ?case
  proof (cases "fd c = -1")
    case True
    then show ?thesis using Cons.prems by (intro exI [of _ 0]) simp
  next
    case False
    then obtain cs0 where "put_client d cs = Some cs0" "cs' = c # cs0" using Cons.prems by auto
    with Cons.IH obtain i where "i < length cs" "fd (cs ! i) = -1" "cs0 = cs[i := (cs ! i)\<lparr>fd := d\<rparr>]" by blast
    then show ?thesis using \<open>cs' = c # cs0\<close> by (intro exI [of _ "Suc i"]) simp
  qed
qed simp

lemma add_client_ok:
  assumes "srv_inv F s" "0 \<le> d" "d \<notin> open_fds s"
  shows "\<exists>t r. AddTcpNewClient d (sock_open d s) = Some (t, r) \<and> srv_inv F t"
proof (cases "put_client d (tcpClient (ls s))")
  case None
  have "(sock_open d s)\<lparr>open_fds := open_fds (sock_open d s) - {d}\<rparr> = s"
    using assms(3) by (simp add: sock_open_def)
  then show ?thesis using None assms by (auto simp: AddTcpNewClient_def sock_close_def sock_open_def)
next
  case (Some cs)
  then obtain i where i: "i < length (tcpClient (ls s))" "fd (tcpClient (ls s) ! i) = -1"
    "cs = (tcpClient (ls s))[i := (tcpClient (ls s) ! i)\<lparr>fd := d\<rparr>]" using put_client_Some by blast
  let ?t = "set_fd i d (sock_open d s)"
  have sl: "slots ?t = (slots s)[i + 2 := d]" using i(1)
    by (subst slots_set_fd) (simp_all add: sock_open_def slots_def)
  have "live ((slots s)[i + 2 := d]) = insert d (live (slots s)) \<and> apart ((slots s)[i + 2 := d])"
    by (rule fill_slot) (use assms i in \<open>auto simp: srv_inv_def slots_def live_def\<close>)
  then have "srv_inv F ?t" unfolding srv_inv_def sl
    using assms i by (auto simp: srv_inv_def set_fd_def sock_open_def nth_list_update)
  moreover have "?t = (sock_open d s)\<lparr>ls := (ls s)\<lparr>tcpClient := cs\<rparr>\<rparr>"
    using i(3) by (simp add: set_fd_def sock_open_def)
  ultimately show ?thesis using Some assms(2) by (simp add: AddTcpNewClient_def sock_open_def)
qed

lemma accept_ok:
  assumes "srv_inv F s" "\<forall>G. n_accept e G < 0 \<or> n_accept e G \<notin> G"
  shows "\<exists>t q. accept_client e s = Some (t, q) \<and> srv_inv F t"
proof -
  let ?d = "n_accept e (open_fds s)"
  have s': "srv_inv F (s\<lparr>sv_connectFd := ?d\<rparr>)" "srv_inv F (s\<lparr>sv_connectFd := ?d, sv_connStatus := 1\<rparr>)"
    by (rule inv_same [OF assms(1)]; simp add: slots_def)+
  show ?thesis
  proof (cases "?d < 0")
    case True
    then show ?thesis using s' assms(1) by (auto simp: accept_client_def Let_def)
  next
    case False
    have "(sock_open ?d (s\<lparr>sv_connectFd := ?d\<rparr>))\<lparr>sv_connStatus := 1\<rparr>
        = sock_open ?d (s\<lparr>sv_connectFd := ?d, sv_connStatus := 1\<rparr>)" by (simp add: sock_open_def)
    moreover obtain t r where "AddTcpNewClient ?d (sock_open ?d (s\<lparr>sv_connectFd := ?d, sv_connStatus := 1\<rparr>)) = Some (t, r)"
        "srv_inv F t"
      using add_client_ok [OF s'(2), of ?d] False assms(2) by auto
    ultimately show ?thesis using False assms(1) by (auto simp: accept_client_def Let_def)
  qed
qed

lemma select_same [simp]: "slots (s\<lparr>ls := fst (tcpClient_SelectFd sel (ls s))\<rparr>) = slots s"
  by (simp add: tcpClient_SelectFd_def AddSelectFD_def Let_def slots_def case_prod_beta)

lemma round_ok:
  assumes "srv_inv F s" "\<forall>G. n_accept e G < 0 \<or> n_accept e G \<notin> G"
  shows "\<exists>t q. server_round True e s = Some (t, q) \<and> srv_inv F t"
proof -
  let ?s = "s\<lparr>ls := fst (tcpClient_SelectFd (n_select e) (ls s))\<rparr>"
  have s: "srv_inv F ?s" by (rule inv_same [OF assms(1)]) simp_all
  obtain t q where t: "accept_client e ?s = Some (t, q)" "srv_inv F t" using accept_ok [OF s assms(2)] by blast
  obtain u where u: "serve_clients True e [0..<5] t = Some u" "srv_inv F u"
    using serve_clients_ok [OF t(2), of "[0..<5]" e] by auto
  show ?thesis using s t u by (cases q) (auto simp: server_round_def Let_def)
qed

lemma rounds_ok:
  "srv_inv F s \<Longrightarrow> \<forall>e\<in>set es. \<forall>G. n_accept e G < 0 \<or> n_accept e G \<notin> G \<Longrightarrow>
    \<exists>t. server_rounds True es s = Some t \<and> srv_inv F t"
proof (induction es arbitrary: s)
  case (Cons e es)
  then obtain t q where "server_round True e s = Some (t, q)" "srv_inv F t" using round_ok [of F s e] by auto
  then show ?case using Cons by (cases q) auto
qed simp

lemma set_fd_fd: "i < length (tcpClient (ls s)) \<Longrightarrow>
    fd (tcpClient (ls (set_fd i d s)) ! j) = (if j = i then d else fd (tcpClient (ls s) ! j))"
  by (simp add: set_fd_def)

lemma close_clients_ok:
  "srv_inv F s \<Longrightarrow> \<forall>i\<in>set is. i < 5 \<Longrightarrow>
    \<exists>t. close_clients is s = Some t \<and> srv_inv F t \<and> tcpServerFd (ls t) = tcpServerFd (ls s) \<and> sv_sockfd t = sv_sockfd s
      \<and> (\<forall>i<5. fd (tcpClient (ls t) ! i) = (if i \<in> set is then -1 else fd (tcpClient (ls s) ! i)))"
proof (induction "is" arbitrary: s)
  case (Cons i "is")
  have i: "i < 5" "i < length (tcpClient (ls s))" "\<forall>j\<in>set is. j < 5" using Cons.prems by (simp_all add: srv_inv_def)
  have ge: "-1 \<le> fd (tcpClient (ls s) ! i)" using Cons.prems(1) i(1) by (simp add: srv_inv_def)
  show ?case
  proof (cases "0 \<le> fd (tcpClient (ls s) ! i)")
    case True
    obtain t where t: "sock_close (fd (tcpClient (ls s) ! i)) s = Some t" "srv_inv F (set_fd i (-1) t)"
      "set_fd i (-1) t = (set_fd i (-1) s)\<lparr>open_fds := open_fds s - {fd (tcpClient (ls s) ! i)}\<rparr>"
      using drop_client [OF Cons.prems(1) i(1) True] by blast
    have "ls (set_fd i (-1) t) = ls (set_fd i (-1) s)" "sv_sockfd (set_fd i (-1) t) = sv_sockfd s"
      "tcpServerFd (ls (set_fd i (-1) s)) = tcpServerFd (ls s)"
      unfolding t(3) by (simp_all add: set_fd_def)
    with Cons.IH [OF t(2) i(3)] t(1) True show ?thesis
      by (auto simp: Let_def set_fd_fd [OF i(2)])
  next
    case False
    then show ?thesis using Cons.IH [OF Cons.prems(1) i(3)] ge by (auto simp: Let_def)
  qed
qed simp

text \<open>Closing the last two slots.\<close>

lemma end_ok:
  assumes "srv_inv F s"
  shows "\<exists>t. server_end s = Some t \<and> open_fds t = F \<and> tcpServerFd (ls t) < 0 \<and> sv_sockfd t < 0
    \<and> (\<forall>i<5. fd (tcpClient (ls t) ! i) = -1) \<and> sv_connStatus t = 0"
proof -
  have "srv_inv F (s\<lparr>sv_connStatus := 0\<rparr>)" by (rule inv_same [OF assms]) (simp_all add: slots_def)
  from close_clients_ok [OF this, of "[0..<5]"] obtain t where
    t: "close_clients [0..<5] (s\<lparr>sv_connStatus := 0\<rparr>) = Some t" "srv_inv F t" "\<forall>i<5. fd (tcpClient (ls t) ! i) = -1"
    by auto
  have status: "sv_connStatus t = 0"
  proof -
    have "close_clients is u = Some v \<Longrightarrow> sv_connStatus v = sv_connStatus u" for "is" u v
      by (induction "is" arbitrary: u)
        (auto simp: Let_def sock_close_def set_fd_def split: if_splits Option.bind_splits)
    from this [OF t(1)] show ?thesis by simp
  qed
  have len: "length (tcpClient (ls t)) = 5" using t(2) by (simp add: srv_inv_def)
  have fds: "map fd (tcpClient (ls t)) = replicate 5 (-1)"
    by (rule nth_equalityI) (use t(3) len in simp_all)
  have op: "open_fds t = F \<union> live [tcpServerFd (ls t), sv_sockfd t]" "F \<inter> live [tcpServerFd (ls t), sv_sockfd t] = {}"
    "0 \<le> tcpServerFd (ls t) \<Longrightarrow> tcpServerFd (ls t) \<noteq> sv_sockfd t"
    using t(2) unfolding srv_inv_def slots_def fds by (auto simp: live_def apart_def)
  show ?thesis
    using op t(1,3) status
    by (cases "0 \<le> tcpServerFd (ls t)"; cases "0 \<le> sv_sockfd t")
      (auto simp: server_end_def sock_close_def live_def Let_def)
qed

lemma server_run_ok:
  assumes "\<forall>e\<in>set es. \<forall>G. n_accept e G < 0 \<or> n_accept e G \<notin> G"
    and "0 \<le> r_socket" "r_socket \<notin> open_fds s" "sv_sockfd s < 0 \<or> sv_sockfd s \<in> open_fds s"
    and "\<forall>x\<in>open_fds s. 0 \<le> x"
  shows "\<exists>t. TCPRecvTask_server True r_socket 0 0 es s = Some t \<and> open_fds t = open_fds s - {sv_sockfd s}
    \<and> tcpServerFd (ls t) < 0 \<and> sv_sockfd t < 0 \<and> (\<forall>i<5. fd (tcpClient (ls t) ! i) = -1)"
proof -
  let ?F = "open_fds s - {sv_sockfd s}"
  let ?s = "(sock_open r_socket s)\<lparr>ls := (LAN_tcpClientInit (ls s))\<lparr>tcpServerFd := r_socket\<rparr>\<rparr>"
  have sl: "slots ?s = r_socket # sv_sockfd s # replicate 5 (-1)"
    by (simp add: slots_def LAN_tcpClientInit_def no_client_def sock_open_def)
  have "srv_inv ?F ?s"
    unfolding srv_inv_def sl using assms(2-5)
    by (auto simp: LAN_tcpClientInit_def no_client_def sock_open_def live_def apart_def)
  from rounds_ok [OF this assms(1)] obtain t where t: "server_rounds True es ?s = Some t" "srv_inv ?F t" by blast
  have "TCPRecvTask_server True r_socket 0 0 es s = Option.bind (server_rounds True es ?s) server_end"
    using assms(2) by (simp add: TCPRecvTask_server_def CreateTcpServer_def Let_def sock_open_def)
  then show ?thesis using t end_ok [OF t(2)] by auto
qed

section \<open>Properties\<close>

text \<open>C32: once the server socket is made, the task never closes a descriptor that is not its own, whatever clients
  connect, send and leave, and when it ends every descriptor it got is closed, the table is empty and the
  descriptors of everybody else are as before.\<close>

theorem tcp_server_no_leak:
  assumes "\<forall>e\<in>set es. \<forall>G. n_accept e G < 0 \<or> n_accept e G \<notin> G"
    and "0 \<le> r_socket" "r_socket \<notin> open_fds s" "sv_sockfd s < 0 \<or> sv_sockfd s \<in> open_fds s"
    and "\<forall>x\<in>open_fds s. 0 \<le> x"
  shows "\<exists>t. TCPRecvTask_server True r_socket 0 0 es s = Some t \<and> open_fds t = open_fds s - {sv_sockfd s}
    \<and> tcpServerFd (ls t) < 0 \<and> sv_sockfd t < 0 \<and> (\<forall>i<5. fd (tcpClient (ls t) ! i) = -1)"
  using server_run_ok [OF assms] .

definition no_server :: srv where
  "no_server = \<lparr>ls = \<lparr>readfd = {}, tcpServerFd = -1, tcpClient = []\<rparr>, open_fds = {0, 1}, sv_sockfd = -1,
     sv_connectFd = -1, sv_connStatus = 0, uart_out = []\<rparr>"

text \<open>A round in which \<open>d\<close> connects, the descriptors \<open>R\<close> are ready and \<open>D\<close> of them have left.\<close>

definition example_round :: "int \<Rightarrow> int list \<Rightarrow> int list \<Rightarrow> net_round" where
  "example_round d R D = \<lparr>n_select = (\<lambda>n S. ({x \<in> S. x < n \<and> x \<in> set R}, 1)),
     n_accept = (\<lambda>G. if d \<in> G then -1 else d), n_recv = (\<lambda>x. if x \<in> set D then None else Some [0x41])\<rparr>"

lemma example_fresh: "n_accept (example_round d R D) G < 0 \<or> n_accept (example_round d R D) G \<notin> G"
  by (simp add: example_round_def)

lemma tcp_server_no_leak_witness:
  "\<exists>t. TCPRecvTask_server True 2 0 0 [example_round 3 [2] [], example_round 4 [2, 3] [3]] no_server = Some t
    \<and> open_fds t = {0, 1}"
  using tcp_server_no_leak [of "[example_round 3 [2] [], example_round 4 [2, 3] [3]]" 2 no_server]
  by (auto simp: example_fresh no_server_def)

text \<open>After the failure of \<open>CreateTcpServer\<close> the task takes its error result 1 for the server socket, and at its
  end closes descriptor 1, whoever owns it.\<close>

theorem tcp_server_closes_foreign:
  assumes "r_socket < 0 \<or> r_bind \<noteq> 0 \<or> r_listen \<noteq> 0" "r_socket \<notin> open_fds s" "r_socket \<noteq> 1"
    and "1 \<in> open_fds s" "sv_sockfd s < 0"
  shows "\<exists>t. TCPRecvTask_server True r_socket r_bind r_listen [] s = Some t \<and> open_fds t = open_fds s - {1}"
proof -
  let ?s = "s\<lparr>ls := (LAN_tcpClientInit (ls s))\<lparr>tcpServerFd := 1\<rparr>\<rparr>"
  have sl: "slots ?s = 1 # sv_sockfd s # replicate 5 (-1)"
    by (simp add: slots_def LAN_tcpClientInit_def no_client_def)
  have "srv_inv (open_fds s - {1}) ?s"
    unfolding srv_inv_def sl using assms(4,5)
    by (auto simp: LAN_tcpClientInit_def no_client_def live_def apart_def)
  moreover have "insert r_socket (open_fds s) - {r_socket} = open_fds s" using assms(2) by auto
  then have "TCPRecvTask_server True r_socket r_bind r_listen [] s = server_end ?s"
    using assms(1) by (auto simp: TCPRecvTask_server_def CreateTcpServer_def Let_def sock_open_def sock_close_def)
  ultimately show ?thesis using end_ok [of "open_fds s - {1}" ?s] by auto
qed

lemma tcp_server_closes_foreign_witness:
  "\<exists>t. TCPRecvTask_server True 2 (-1) 0 [] no_server = Some t \<and> open_fds t = {0}"
  using tcp_server_closes_foreign [of 2 "-1" 0 no_server] by (auto simp: no_server_def)

lemma fold_live: "fold (\<lambda>c S. if 0 \<le> fd c then insert (fd c) S else S) cs S = S \<union> live (map fd cs)"
  by (induction cs arbitrary: S) (auto simp: live_def)

lemma fold_last: "fold (\<lambda>c m. if 0 \<le> fd c then fd c else m) cs m = last (m # filter (\<lambda>x. 0 \<le> x) (map fd cs))"
  by (induction cs arbitrary: m) auto

text \<open>The highest descriptor given to \<open>select\<close> is that of the last occupied slot, not the greatest.  A client in an
  earlier slot with a greater descriptor is never seen ready, whatever it sends; such a table arises when a client in the first slot leaves, another socket
  takes its descriptor and the next client gets a greater one.\<close>

theorem tcp_select_misses:
  assumes "\<forall>n S. fst (sel n S) = {x \<in> S. x < n \<and> ready x}" "i < length (tcpClient l)" "0 \<le> fd (tcpClient l ! i)"
  shows "fd (tcpClient l ! i) \<in> readfd (fst (tcpClient_SelectFd sel l)) \<longleftrightarrow>
     ready (fd (tcpClient l ! i)) \<and> fd (tcpClient l ! i) \<le> last (filter (\<lambda>x. 0 \<le> x) (map fd (tcpClient l)))"
proof -
  let ?d = "fd (tcpClient l ! i)" let ?f = "filter (\<lambda>x. 0 \<le> x) (map fd (tcpClient l))"
  have d: "?d \<in> set ?f" using assms(2,3) by auto
  then have ne: "?f \<noteq> []" by (metis empty_iff empty_set)
  have max: "Get_MaxFd (AddSelectFD l) = last ?f"
    using ne by (simp add: Get_MaxFd_def AddSelectFD_def fold_last)
  moreover have "last ?f \<in> set ?f" by (rule last_in_set [OF ne])
  then have "0 \<le> last ?f" by simp
  moreover have "?d \<in> readfd (AddSelectFD l)"
    using assms(2,3) by (auto simp: AddSelectFD_def fold_live live_def)
  ultimately show ?thesis
    using assms(1) by (auto simp: tcpClient_SelectFd_def Let_def case_prod_beta)
qed

lemma tcp_select_misses_witness:
  "let l = \<lparr>readfd = {}, tcpServerFd = 2, tcpClient = [no_client\<lparr>fd := 5\<rparr>, no_client\<lparr>fd := 4\<rparr>, no_client]\<rparr>
   in 5 \<notin> readfd (fst (tcpClient_SelectFd (\<lambda>n S. ({x \<in> S. x < n \<and> x = 5}, 1)) l))"
  using tcp_select_misses [of "\<lambda>n S. ({x \<in> S. x < n \<and> x = 5}, 1)" "\<lambda>x. x = 5" 0
      "\<lparr>readfd = {}, tcpServerFd = 2, tcpClient = [no_client\<lparr>fd := 5\<rparr>, no_client\<lparr>fd := 4\<rparr>, no_client]\<rparr>"]
  by (simp add: no_client_def)

end
