(* ===== verification/Chksum.thy ===== *)
theory Chksum
  imports Prelude
begin

text \<open>
  The Internet checksum of the stack, \<^verbatim>\<open>LwIP/src/core/ipv4/inet_chksum.c\<close> with the macros of
  \<^verbatim>\<open>inet_chksum.h\<close>, in the variant this build compiles (\<open>LWIP_CHKSUM_ALGORITHM\<close> 2): two bytes at a time, for
  data at an even or an odd address, single buffers and chains of them.  A chain is the list of its buffers, each with
  the parity of its address and its bytes.  The asserts are switched off (\<open>LWIP_NOASSERT\<close>).

  Proofs compare numbers modulo 65535 and by being zero (\<open>rep\<close>): two 16-bit words that represent the same number are
  equal, which makes folding, swapping and splitting invisible.
\<close>

section \<open>The code\<close>

definition FOLD_U32T :: "u32 \<Rightarrow> u32" where
  "FOLD_U32T u = drop_bit 16 u + (u AND 0x0000ffff)"

definition SWAP_BYTES_IN_WORD :: "u32 \<Rightarrow> u32" where
  "SWAP_BYTES_IN_WORD w = push_bit 8 (w AND 0xff) OR drop_bit 8 (w AND 0xff00)"

text \<open>The two bytes of a \<open>u16_t\<close> in memory.\<close>

definition word_at :: "u8 \<Rightarrow> u8 \<Rightarrow> u16" where
  "word_at a b = ucast a OR push_bit 8 (ucast b)"

text \<open>The loop over the words, and the left-over byte.\<close>

fun sum_words :: "u8 list \<Rightarrow> u32 \<Rightarrow> u32 \<times> u8 option" where
  "sum_words (a # b # ds) acc = sum_words ds (acc + ucast (word_at a b))"
| "sum_words [a] acc = (acc, Some a)"
| "sum_words [] acc = (acc, None)"

definition lwip_standard_chksum :: "bool \<Rightarrow> u8 list \<Rightarrow> u16" where
  "lwip_standard_chksum odd_addr data =
     (let (t1, pb) = (if odd_addr \<and> data \<noteq> [] then (hd data, tl data) else (0, data));
          (acc, left) = sum_words pb 0;
          t0 = (case left of None \<Rightarrow> 0 | Some a \<Rightarrow> a);
          acc = acc + ucast (word_at t0 t1);
          acc = FOLD_U32T (FOLD_U32T acc);
          acc = (if odd_addr then SWAP_BYTES_IN_WORD acc else acc)
      in ucast acc)"

definition inet_chksum :: "bool \<Rightarrow> u8 list \<Rightarrow> u16" where
  "inet_chksum odd_addr data = NOT (lwip_standard_chksum odd_addr data)"

type_synonym pbuf_chain = "(bool \<times> u8 list) list"

text \<open>One buffer of a chain: the sum, and whether it is swapped.  \<open>k\<close> bytes of it are summed.\<close>

definition chksum_step :: "nat \<Rightarrow> bool \<times> u8 list \<Rightarrow> u32 \<times> bool \<Rightarrow> u32 \<times> bool" where
  "chksum_step k q st =
     (let (acc, swapped) = st;
          acc = FOLD_U32T (acc + ucast (lwip_standard_chksum (fst q) (take k (snd q))))
      in if length (snd q) mod 2 \<noteq> 0 then (SWAP_BYTES_IN_WORD acc, \<not> swapped) else (acc, swapped))"

definition chain_sum :: "pbuf_chain \<Rightarrow> u32" where
  "chain_sum p = (let (acc, swapped) = fold (\<lambda>q. chksum_step (length (snd q)) q) p (0, False)
                  in if swapped then SWAP_BYTES_IN_WORD acc else acc)"

definition inet_chksum_pbuf :: "pbuf_chain \<Rightarrow> u16" where
  "inet_chksum_pbuf p = ucast (NOT (chain_sum p AND 0xffff))"

text \<open>The pseudo header; \<open>src\<close> and \<open>dest\<close> are addresses as they lie in memory, in network byte order.\<close>

definition add_pseudo :: "u32 \<Rightarrow> u32 \<Rightarrow> u32 \<Rightarrow> u8 \<Rightarrow> u16 \<Rightarrow> u16" where
  "add_pseudo acc src dest proto proto_len =
     (let acc = acc + (src AND 0xffff);
          acc = acc + (drop_bit 16 src AND 0xffff);
          acc = acc + (dest AND 0xffff);
          acc = acc + (drop_bit 16 dest AND 0xffff);
          acc = acc + ucast (lwip_htons (ucast proto));
          acc = acc + ucast (lwip_htons proto_len);
          acc = FOLD_U32T (FOLD_U32T acc)
      in ucast (NOT (acc AND 0xffff)))"

definition inet_chksum_pseudo :: "pbuf_chain \<Rightarrow> u32 \<Rightarrow> u32 \<Rightarrow> u8 \<Rightarrow> u16 \<Rightarrow> u16" where
  "inet_chksum_pseudo p src dest proto proto_len = add_pseudo (chain_sum p) src dest proto proto_len"

fun partial_loop :: "pbuf_chain \<Rightarrow> u16 \<Rightarrow> u32 \<times> bool \<Rightarrow> u32 \<times> bool" where
  "partial_loop [] chksum_len st = st"
| "partial_loop (q # p) chksum_len st =
     (if 0 < chksum_len then
        let chklen = (of_nat (length (snd q)) :: u16);
            chklen = (if chksum_len < chklen then chksum_len else chklen)
        in partial_loop p (chksum_len - chklen) (chksum_step (unat chklen) q st)
      else st)"

definition inet_chksum_pseudo_partial :: "pbuf_chain \<Rightarrow> u32 \<Rightarrow> u32 \<Rightarrow> u8 \<Rightarrow> u16 \<Rightarrow> u16 \<Rightarrow> u16" where
  "inet_chksum_pseudo_partial p src dest proto proto_len chksum_len =
     (let (acc, swapped) = partial_loop p chksum_len (0, False)
      in add_pseudo (if swapped then SWAP_BYTES_IN_WORD acc else acc) src dest proto proto_len)"

section \<open>Numbers up to multiples of 65535\<close>

definition rep :: "nat \<Rightarrow> nat \<Rightarrow> bool" where
  "rep x n \<longleftrightarrow> x mod 65535 = n mod 65535 \<and> (x = 0 \<longleftrightarrow> n = 0)"

lemma rep_refl [simp]: "rep x x"
  by (simp add: rep_def)

lemma rep_trans: "rep x y \<Longrightarrow> rep y z \<Longrightarrow> rep x z"
  by (simp add: rep_def)

lemma rep_sym: "rep x y \<Longrightarrow> rep y x"
  by (auto simp: rep_def)

lemma rep_add: "rep x n \<Longrightarrow> rep y m \<Longrightarrow> rep (x + y) (n + m)"
  unfolding rep_def by (metis add_is_0 mod_add_cong)

lemma rep_mult: "rep x n \<Longrightarrow> rep (k * x) (k * n)"
  unfolding rep_def by (metis mod_mult_cong mult_is_0)

lemma rep_64k: "rep (65536 * n) n"
proof -
  have "65536 * n = n + 65535 * n" by simp
  then have "65536 * n mod 65535 = n mod 65535" by (metis mod_mult_self2)
  then show ?thesis by (simp add: rep_def)
qed

lemma rep_unique:
  assumes "rep x n" "rep y n" "x \<le> 65535" "y \<le> 65535"
  shows "x = y"
proof -
  have "x mod 65535 = y mod 65535" "x = 0 \<longleftrightarrow> y = 0" using assms(1,2) by (auto simp: rep_def)
  moreover have "x mod 65535 = (if x = 65535 then 0 else x)" "y mod 65535 = (if y = 65535 then 0 else y)"
    using assms(3,4) by auto
  ultimately show ?thesis by (auto split: if_splits)
qed

text \<open>The bytes of a buffer as a little-endian number.\<close>

fun V :: "u8 list \<Rightarrow> nat" where
  "V [] = 0"
| "V (x # ds) = unat x + 256 * V ds"

lemma V_append: "V (a @ b) = V a + 256 ^ length a * V b"
  by (induction a) (simp_all add: algebra_simps)

lemma rep_256_even: "rep (256 ^ (2 * k) * n) n"
proof (induction k)
  case (Suc k)
  have "256 ^ (2 * Suc k) * n = 65536 * (256 ^ (2 * k) * n)" by simp
  then show ?case using rep_trans [OF rep_64k Suc] by metis
qed simp

lemma rep_256: "rep (256 ^ l * n) (256 ^ (l mod 2) * n)"
proof -
  have "256 ^ l * n = 256 ^ (2 * (l div 2)) * (256 ^ (l mod 2) * n)"
    by (metis mult.assoc mult_div_mod_eq power_add)
  then show ?thesis using rep_256_even by metis
qed

lemma rep_V_append: "rep (V a + 256 ^ (length a mod 2) * V b) (V (a @ b))"
  unfolding V_append by (rule rep_add [OF rep_refl rep_sym [OF rep_256]])

section \<open>The operations on words\<close>

lemma unat_ucast_16_32: "unat (ucast (n :: u16) :: u32) = unat n"
  by (simp add: unsigned_ucast_eq take_bit_nat_eq_self_iff) (use unsigned_less [of n, where ?'a = nat] in simp)

lemma unat_u16_le: "unat (n :: u16) \<le> 65535"
  using unsigned_less [of n, where ?'a = nat] by simp

lemma unat_drop_bit: "unat (drop_bit k (u :: 'a::len word)) = unat u div 2 ^ k"
  by (simp only: unsigned_drop_bit_eq) (simp add: drop_bit_eq_div take_bit_eq_mod)

lemma unat_take_bit: "unat (take_bit k (u :: 'a::len word)) = unat u mod 2 ^ k"
  by (simp only: unsigned_take_bit_eq) (simp add: take_bit_eq_mod)

lemma unat_low16: "unat ((u :: u32) AND 0xffff) = unat u mod 65536"
proof -
  have "u AND 0xffff = take_bit 16 u" by (simp add: take_bit_eq_mask mask_eq_exp_minus_1)
  then show ?thesis by (simp add: unat_take_bit)
qed

lemma unat_fold: "unat (FOLD_U32T u) = unat u div 65536 + unat u mod 65536"
proof -
  have "unat (drop_bit 16 u) = unat u div 65536" by (simp add: unat_drop_bit)
  moreover have "unat u div 65536 + unat u mod 65536 < 4294967296"
    using unat_lt_2p32 [of u] by (simp add: add_mono less_mult_imp_div_less)
  ultimately show ?thesis
    unfolding FOLD_U32T_def by (subst unat_add_small) (simp_all add: unat_low16)
qed

lemma rep_fold: "rep (unat (FOLD_U32T u)) (unat u)"
proof -
  have "rep (unat u div 65536 + unat u mod 65536) (65536 * (unat u div 65536) + unat u mod 65536)"
    by (rule rep_add [OF rep_sym [OF rep_64k] rep_refl])
  then show ?thesis by (simp add: unat_fold)
qed

lemma fold_le: "unat (FOLD_U32T u) \<le> unat u div 65536 + 65535"
  by (simp add: unat_fold)

lemma fold_once:
  assumes "unat u \<le> 131070"
  shows "unat (FOLD_U32T u) \<le> 65535"
proof -
  have "m div 65536 + m mod 65536 \<le> 65535" if "m \<le> 131070" for m :: nat
  proof (cases "m < 65536")
    case False
    then obtain k where "m = 65536 + k" by (metis le_Suc_ex not_less)
    then show ?thesis using that by simp
  qed simp
  then show ?thesis using assms by (simp add: unat_fold)
qed

lemma fold_twice: "unat (FOLD_U32T (FOLD_U32T u)) \<le> 65535"
proof (rule fold_once)
  have "unat u div 65536 \<le> 65535" using unat_lt_2p32 [of u] by simp
  then show "unat (FOLD_U32T u) \<le> 131070" using fold_le [of u] by linarith
qed

lemma swap_parts: "SWAP_BYTES_IN_WORD w = push_bit 8 (take_bit 8 w) OR take_bit 8 (drop_bit 8 w)"
proof -
  have 1: "(0xff :: u32) = mask 8" "(0xff00 :: u32) = push_bit 8 (mask 8)" by (simp_all add: mask_eq_exp_minus_1)
  show ?thesis unfolding SWAP_BYTES_IN_WORD_def 1
    by (rule bit_word_eqI) (auto simp: bit_simps)
qed

lemma unat_swap:
  assumes "unat w \<le> 65535"
  shows "unat (SWAP_BYTES_IN_WORD w) = 256 * (unat w mod 256) + unat w div 256"
proof -
  have "SWAP_BYTES_IN_WORD w = push_bit 8 (take_bit 8 w) + take_bit 8 (drop_bit 8 w)"
    unfolding swap_parts by (rule disjunctive_add [symmetric]) (auto simp: bit_simps)
  moreover have 1: "unat (push_bit 8 (take_bit 8 w)) = 256 * (unat w mod 256)"
  proof -
    have "256 * (unat w mod 256) < 4294967296"
      using mod_less_divisor [of 256 "unat w"] by linarith
    then show ?thesis by (simp only: unsigned_push_bit_eq unat_take_bit) (simp add: push_bit_eq_mult take_bit_eq_mod)
  qed
  moreover have 2: "unat (take_bit 8 (drop_bit 8 w)) = unat w div 256"
  proof -
    have "unat w div 256 < 256" using assms by simp
    then show ?thesis by (simp only: unat_take_bit unat_drop_bit) simp
  qed
  moreover have "256 * (unat w mod 256) + unat w div 256 < 4294967296"
  proof -
    have "unat w mod 256 < 256" "unat w div 256 \<le> 65535" using assms by (simp_all add: div_le_mono order_trans [OF div_le_dividend])
    then show ?thesis by linarith
  qed
  ultimately show ?thesis by (simp add: unat_add_small)
qed

lemma rep_swap: "unat w \<le> 65535 \<Longrightarrow> rep (unat (SWAP_BYTES_IN_WORD w)) (256 * unat w)"
proof -
  assume w: "unat w \<le> 65535"
  have "256 * unat w = 256 * (unat w mod 256) + 65536 * (unat w div 256)"
    using div_mult_mod_eq [of "unat w" 256] by linarith
  then show ?thesis
    unfolding unat_swap [OF w] by (simp only:) (rule rep_add [OF rep_refl rep_sym [OF rep_64k]])
qed

lemma swap_le: "unat w \<le> 65535 \<Longrightarrow> unat (SWAP_BYTES_IN_WORD w) \<le> 65535"
proof -
  assume w: "unat w \<le> 65535"
  then have "unat w div 256 \<le> 255" by simp
  moreover have "unat w mod 256 \<le> 255" by simp
  ultimately show ?thesis unfolding unat_swap [OF w] by linarith
qed

lemma unat_word_at: "unat (word_at a b) = unat a + 256 * unat b"
proof -
  have "word_at a b = ucast a + push_bit 8 (ucast b)"
    unfolding word_at_def
  proof (rule disjunctive_add [symmetric])
    show "\<not> bit (ucast a :: u16) n \<or> \<not> bit (push_bit 8 (ucast b) :: u16) n" for n
      using bit_imp_le_length [of a n] by (cases "n < 8") (auto simp: bit_simps)
  qed
  moreover have a: "unat a < 256" "unat b < 256"
    using unsigned_less [of a, where ?'a = nat] unsigned_less [of b, where ?'a = nat] by simp_all
  have "unat (ucast a :: u16) = unat a" "unat (push_bit 8 (ucast b) :: u16) = 256 * unat b"
    using a by (simp only: unsigned_ucast_eq unsigned_push_bit_eq, simp add: take_bit_eq_mod push_bit_eq_mult)+
  ultimately show ?thesis using a by (simp add: unat_add_small)
qed

section \<open>The sum of a buffer\<close>

fun word_sum :: "u8 list \<Rightarrow> nat" where
  "word_sum (a # b # ds) = unat a + 256 * unat b + word_sum ds"
| "word_sum ds = 0"

fun last_odd :: "u8 list \<Rightarrow> u8" where
  "last_odd (a # b # ds) = last_odd ds"
| "last_odd [a] = a"
| "last_odd [] = 0"

lemma word_sum_le: "word_sum ds \<le> 65535 * (length ds div 2)"
proof (induction ds rule: word_sum.induct)
  case (1 a b ds)
  have "unat a < 256" "unat b < 256"
    using unsigned_less [of a, where ?'a = nat] unsigned_less [of b, where ?'a = nat] by simp_all
  then have "unat a + 256 * unat b \<le> 65535" by linarith
  then show ?case using 1 by simp
qed simp_all

lemma sum_words_eq:
  "unat s + word_sum ds < 4294967296 \<Longrightarrow> unat (fst (sum_words ds s)) = unat s + word_sum ds
    \<and> (case snd (sum_words ds s) of None \<Rightarrow> 0 | Some a \<Rightarrow> a) = last_odd ds"
proof (induction ds s rule: sum_words.induct)
  case (1 a b ds s)
  have "unat (s + ucast (word_at a b)) = unat s + (unat a + 256 * unat b)"
    using 1(2) by (subst unat_add_small) (simp_all add: unat_ucast_16_32 unat_word_at)
  then show ?case using 1 by (simp add: add.assoc)
qed simp_all

lemma rep_word_sum: "rep (word_sum ds + unat (last_odd ds)) (V ds)"
proof (induction ds rule: word_sum.induct)
  case (1 a b ds)
  have "rep (unat a + 256 * unat b + (word_sum ds + unat (last_odd ds))) (unat a + 256 * unat b + 65536 * V ds)"
    by (rule rep_add [OF rep_refl rep_trans [OF 1 rep_sym [OF rep_64k]]])
  then show ?case by (simp add: algebra_simps)
qed simp_all

text \<open>The checksum represents the bytes as a number, at either parity.\<close>

lemma rep_chksum:
  assumes "length data \<le> 131072"
  shows "rep (unat (lwip_standard_chksum odd_addr data)) (V data)"
proof -
  define t1 where "t1 = (if odd_addr \<and> data \<noteq> [] then hd data else 0)"
  define pb where "pb = (if odd_addr \<and> data \<noteq> [] then tl data else data)"
  define tot where "tot = fst (sum_words pb 0) + ucast (word_at (last_odd pb) t1)"
  define f where "f = FOLD_U32T (FOLD_U32T tot)"
  have pb: "length pb \<le> 131072" using assms by (auto simp: pb_def)
  have w: "word_sum pb \<le> 65535 * 65536" using word_sum_le [of pb] pb by simp
  then have sw: "unat (fst (sum_words pb 0)) = word_sum pb"
    "(case snd (sum_words pb 0) of None \<Rightarrow> 0 | Some a \<Rightarrow> a) = last_odd pb"
    using sum_words_eq [of 0 pb] by simp_all
  have "unat tot = word_sum pb + (unat (last_odd pb) + 256 * unat t1)"
    unfolding tot_def using w unat_u16_le [of "word_at (last_odd pb) t1"]
    by (subst unat_add_small) (simp_all add: sw unat_ucast_16_32 unat_word_at)
  then have "rep (unat tot) (V pb + 256 * unat t1)"
    using rep_add [OF rep_word_sum [of pb] rep_refl [of "256 * unat t1"]] by (simp add: add.assoc)
  then have f: "rep (unat f) (V pb + 256 * unat t1)" "unat f \<le> 65535"
    unfolding f_def using rep_trans [OF rep_trans [OF rep_fold rep_fold]] fold_twice by blast+
  have val: "lwip_standard_chksum odd_addr data = ucast (if odd_addr then SWAP_BYTES_IN_WORD f else f)"
    unfolding lwip_standard_chksum_def f_def tot_def sw(2) [symmetric]
    unfolding t1_def pb_def by (simp add: Let_def case_prod_beta)
  have un: "unat (ucast g :: u16) = unat g" if "unat g \<le> 65535" for g :: u32
    using that by (simp add: unsigned_ucast_eq take_bit_eq_mod)
  show ?thesis
  proof (cases "odd_addr \<and> data \<noteq> []")
    case True
    have "rep (unat (SWAP_BYTES_IN_WORD f)) (256 * (V pb + 256 * unat t1))"
      by (rule rep_trans [OF rep_swap [OF f(2)] rep_mult [OF f(1)]])
    also have "256 * (V pb + 256 * unat t1) = 256 * V pb + 65536 * unat t1" by simp
    finally have "rep (unat (SWAP_BYTES_IN_WORD f)) (256 * V pb + unat t1)"
      by (rule rep_trans) (rule rep_add [OF rep_refl rep_64k])
    moreover have "V data = 256 * V pb + unat t1" using True by (cases data) (simp_all add: t1_def pb_def)
    moreover have "unat (lwip_standard_chksum odd_addr data) = unat (SWAP_BYTES_IN_WORD f)"
      unfolding val using True un [OF swap_le [OF f(2)]] by simp
    ultimately show ?thesis by (simp only:)
  next
    case False
    then have "t1 = 0" "pb = data" by (auto simp: t1_def pb_def)
    then have "rep (unat f) (V data)" using f(1) by simp
    then show ?thesis
    proof (cases odd_addr)
      case True
      then have "V data = 0" using False by simp
      then have "f = 0" using \<open>rep (unat f) (V data)\<close> by (simp add: rep_def unat_eq_0)
      then show ?thesis unfolding val using True \<open>V data = 0\<close> by (simp add: SWAP_BYTES_IN_WORD_def)
    next
      case False
      then have "unat (lwip_standard_chksum odd_addr data) = unat f" unfolding val using un [OF f(2)] by simp
      then show ?thesis using \<open>rep (unat f) (V data)\<close> by (simp only:)
    qed
  qed
qed

section \<open>Chains\<close>

lemma unat_ucast_32_16: "unat g \<le> 65535 \<Longrightarrow> unat (ucast (g :: u32) :: u16) = unat g"
  by (simp add: unsigned_ucast_eq take_bit_eq_mod)

text \<open>The sum so far represents the bytes so far, moved up by one byte when it is swapped.\<close>

definition chain_inv :: "u8 list \<Rightarrow> nat \<Rightarrow> u32 \<times> bool \<Rightarrow> bool" where
  "chain_inv ds n st \<longleftrightarrow> unat (fst st) \<le> 65535 \<and> (snd st \<longleftrightarrow> n mod 2 \<noteq> 0)
     \<and> rep (unat (fst st)) (256 ^ (n mod 2) * V ds)"

lemma chksum_step_inv:
  assumes "chain_inv ds n st" "n mod 2 = length ds mod 2" "length (snd q) \<le> 65535"
  shows "chain_inv (ds @ take k (snd q)) (n + length (snd q)) (chksum_step k q st)"
proof -
  obtain acc sw where st: "st = (acc, sw)" by (cases st)
  let ?q = "take k (snd q)" let ?c = "lwip_standard_chksum (fst q) ?q" let ?p = "256 ^ (n mod 2) :: nat"
  define acc1 where "acc1 = FOLD_U32T (acc + ucast ?c)"
  have inv: "unat acc \<le> 65535" "rep (unat acc) (?p * V ds)" "sw \<longleftrightarrow> n mod 2 \<noteq> 0"
    using assms(1) by (simp_all add: chain_inv_def st)
  have c: "rep (unat ?c) (V ?q)" by (rule rep_chksum) (use assms(3) in simp)
  have sum: "unat (acc + ucast ?c) = unat acc + unat ?c" "unat acc + unat ?c \<le> 131070"
    using inv(1) unat_u16_le [of ?c] by (simp_all add: unat_add_small unat_ucast_16_32)
  have "rep (unat acc + unat ?c) (?p * V (ds @ ?q))"
  proof -
    have "rep (?p * (256 ^ (length ds mod 2) * V ?q)) (V ?q)"
    proof -
      have "?p * (256 ^ (length ds mod 2) * V ?q) = 256 ^ (2 * (n mod 2)) * V ?q"
        unfolding assms(2) [symmetric] by (simp add: mult.assoc [symmetric] power_add [symmetric] mult_2)
      then show ?thesis using rep_256_even by metis
    qed
    from rep_add [OF inv(2) rep_trans [OF c rep_sym [OF this]]]
    have "rep (unat acc + unat ?c) (?p * (V ds + 256 ^ (length ds mod 2) * V ?q))"
      by (simp add: distrib_left)
    from rep_trans [OF this rep_mult [OF rep_V_append]] show ?thesis .
  qed
  then have acc1: "rep (unat acc1) (?p * V (ds @ ?q))" "unat acc1 \<le> 65535"
    unfolding acc1_def using rep_trans [OF rep_fold] fold_once sum by metis+
  show ?thesis
  proof (cases "length (snd q) mod 2 = 0")
    case True
    then have "(n + length (snd q)) mod 2 = n mod 2" by presburger
    then show ?thesis using acc1 inv(3) True by (simp add: chksum_step_def st chain_inv_def acc1_def)
  next
    case False
    have "rep (unat (SWAP_BYTES_IN_WORD acc1)) (256 * (?p * V (ds @ ?q)))"
      by (rule rep_trans [OF rep_swap [OF acc1(2)] rep_mult [OF acc1(1)]])
    also have "256 * (?p * V (ds @ ?q)) = 256 ^ Suc (n mod 2) * V (ds @ ?q)" by simp
    finally have "rep (unat (SWAP_BYTES_IN_WORD acc1)) (256 ^ (Suc (n mod 2) mod 2) * V (ds @ ?q))"
      by (rule rep_trans [OF _ rep_256])
    moreover have "Suc (n mod 2) mod 2 = (n + length (snd q)) mod 2" using False by presburger
    ultimately have "rep (unat (SWAP_BYTES_IN_WORD acc1)) (256 ^ ((n + length (snd q)) mod 2) * V (ds @ ?q))"
      by (simp only:)
    moreover have "(\<not> sw) = ((n + length (snd q)) mod 2 \<noteq> 0)" using inv(3) False by presburger
    ultimately show ?thesis using swap_le [OF acc1(2)] False
      by (simp add: chksum_step_def st chain_inv_def acc1_def)
  qed
qed

text \<open>Swapping back at the end.\<close>

lemma unswap:
  assumes "chain_inv ds n (acc, sw)"
  shows "rep (unat (if sw then SWAP_BYTES_IN_WORD acc else acc)) (V ds)
    \<and> unat (if sw then SWAP_BYTES_IN_WORD acc else acc) \<le> 65535"
proof (cases sw)
  case True
  then have a: "unat acc \<le> 65535" "rep (unat acc) (256 * V ds)"
    using assms by (auto simp: chain_inv_def mod_2_eq_odd)
  have "rep (unat (SWAP_BYTES_IN_WORD acc)) (256 * (256 * V ds))"
    by (rule rep_trans [OF rep_swap [OF a(1)] rep_mult [OF a(2)]])
  then have "rep (unat (SWAP_BYTES_IN_WORD acc)) (V ds)" using rep_trans [OF _ rep_64k] by simp
  then show ?thesis using True swap_le [OF a(1)] by simp
next
  case False
  then show ?thesis using assms by (auto simp: chain_inv_def mod_2_eq_odd)
qed

abbreviation chain_bytes :: "pbuf_chain \<Rightarrow> u8 list" where
  "chain_bytes p \<equiv> concat (map snd p)"

lemma fold_chain:
  assumes "chain_inv ds (length ds) st" "\<forall>q\<in>set p. length (snd q) \<le> 65535"
  shows "chain_inv (ds @ chain_bytes p) (length (ds @ chain_bytes p)) (fold (\<lambda>q. chksum_step (length (snd q)) q) p st)"
  using assms
proof (induction p arbitrary: ds st)
  case (Cons q p)
  have "chain_inv (ds @ snd q) (length (ds @ snd q)) (chksum_step (length (snd q)) q st)"
    using chksum_step_inv [OF Cons.prems(1) refl, of q "length (snd q)"] Cons.prems(2) by simp
  from Cons.IH [OF this] Cons.prems(2) show ?case by simp
qed simp

lemma chain_start: "chain_inv [] 0 (0, False)"
  by (simp add: chain_inv_def)

lemma rep_chain_sum:
  assumes "\<forall>q\<in>set p. length (snd q) \<le> 65535"
  shows "rep (unat (chain_sum p)) (V (chain_bytes p)) \<and> unat (chain_sum p) \<le> 65535"
proof -
  obtain acc sw where f: "fold (\<lambda>q. chksum_step (length (snd q)) q) p (0, False) = (acc, sw)" by fastforce
  have "chain_inv (chain_bytes p) (length (chain_bytes p)) (acc, sw)"
    using fold_chain [of "[]" "(0, False)" p] chain_start assms by (simp add: f)
  from unswap [OF this] show ?thesis by (simp add: chain_sum_def f)
qed

lemma unat_not16: "unat (NOT (c :: u16)) = 65535 - unat c"
proof -
  have "NOT c = 65535 - c" by (simp add: not_eq_complement)
  moreover have "c \<le> 65535" using unat_u16_le [of c] by (simp add: word_le_nat_alt)
  ultimately show ?thesis by (simp add: unat_sub)
qed

lemma ucast_not: "unat (ucast (NOT (g AND 0xffff) :: u32) :: u16) = 65535 - unat g" if "unat g \<le> 65535"
proof -
  have "g AND 0xffff = take_bit 16 g" by (simp add: take_bit_eq_mask mask_eq_exp_minus_1)
  then have "ucast (NOT (g AND 0xffff)) = (NOT (ucast g) :: u16)"
    by (simp only:) (rule bit_word_eqI, auto simp: bit_simps)
  then show ?thesis using that by (simp only: unat_not16 unat_ucast_32_16)
qed

text \<open>A sum that represents the bytes, negated, is the checksum of the bytes.\<close>

lemma chksum_unique:
  assumes "rep (unat g) (V data)" "unat g \<le> 65535" "length data \<le> 131072"
  shows "ucast (NOT (g AND 0xffff) :: u32) = inet_chksum odd_addr data"
proof -
  have "unat g = unat (lwip_standard_chksum odd_addr data)"
    by (rule rep_unique [OF assms(1) rep_chksum [OF assms(3)] assms(2) unat_u16_le])
  then have "unat (ucast (NOT (g AND 0xffff) :: u32) :: u16) = unat (inet_chksum odd_addr data)"
    by (simp only: ucast_not [OF assms(2)] inet_chksum_def unat_not16)
  then show ?thesis by (simp add: word_unat_eq_iff)
qed

section \<open>The pseudo header\<close>

definition pseudo_header :: "u32 \<Rightarrow> u32 \<Rightarrow> u8 \<Rightarrow> u16 \<Rightarrow> u8 list" where
  "pseudo_header src dest proto proto_len = le32 src @ le32 dest @ [0, proto] @ le16 (lwip_htons proto_len)"

lemma V_le16: "V (le16 w) = unat w"
proof -
  have "unat (ucast w :: u8) = unat w mod 256" "unat (ucast (drop_bit 8 w) :: u8) = unat w div 256 mod 256"
    by (simp_all only: unsigned_ucast_eq unat_drop_bit take_bit_eq_mod) simp_all
  moreover have "unat w div 256 < 256" using unat_u16_le [of w] by simp
  ultimately show ?thesis by (simp add: le16_def)
qed

lemma rep_le32: "rep (unat (w AND 0xffff) + unat (drop_bit 16 w AND 0xffff)) (V (le32 w))"
proof -
  have b: "unat (ucast w :: u8) = unat w mod 256" "unat (ucast (drop_bit 8 w) :: u8) = unat w div 256 mod 256"
    "unat (ucast (drop_bit 16 w) :: u8) = unat w div 65536 mod 256"
    "unat (ucast (drop_bit 24 w) :: u8) = unat w div 16777216 mod 256"
    by (simp_all only: unsigned_ucast_eq unat_drop_bit take_bit_eq_mod) simp_all
  have split: "m mod 65536 = m mod 256 + 256 * (m div 256 mod 256)" for m :: nat
    using mod_mult2_eq [of m 256 256] by simp
  have d: "unat w div 65536 div 256 = unat w div 16777216" by (simp add: div_mult2_eq [symmetric])
  have "V (le32 w) = unat w mod 65536 + 65536 * (unat w div 65536 mod 65536)"
    using split [of "unat w"] split [of "unat w div 65536"] by (simp add: le32_def b d algebra_simps)
  moreover have "unat (drop_bit 16 w AND 0xffff) = unat w div 65536 mod 65536"
    by (simp only: unat_low16 unat_drop_bit) simp
  ultimately show ?thesis
    using rep_add [OF rep_refl rep_sym [OF rep_64k]] by (simp add: unat_low16)
qed

lemma rep_even_append: "even (length a) \<Longrightarrow> rep x (V a) \<Longrightarrow> rep y (V b) \<Longrightarrow> rep (x + y) (V (a @ b))"
  using rep_trans [OF rep_add rep_V_append [of a b]] by (simp add: even_iff_mod_2_eq_zero)

lemma le16_htons_proto: "le16 (lwip_htons (ucast proto)) = [0, proto]"
proof -
  have "ucast (lwip_htons (ucast proto)) = (0 :: u8)"
    by (rule bit_word_eqI) (auto simp: lwip_htons_parts bit_simps dest: bit_imp_le_length)
  moreover have "ucast (drop_bit 8 (lwip_htons (ucast proto))) = proto"
    by (rule bit_word_eqI) (auto simp: lwip_htons_parts bit_simps dest: bit_imp_le_length)
  ultimately show ?thesis by (simp add: le16_def)
qed

lemma le_lengths: "length (le32 w) = 4" "length (le16 v) = 2"
  by (simp_all add: le32_def le16_def)

lemma rep_pseudo:
  "rep (unat (src AND 0xffff) + unat (drop_bit 16 src AND 0xffff)
     + (unat (dest AND 0xffff) + unat (drop_bit 16 dest AND 0xffff)
     + (unat (lwip_htons (ucast proto)) + unat (lwip_htons proto_len))))
     (V (pseudo_header src dest proto proto_len))"
  unfolding pseudo_header_def
  by (intro rep_even_append rep_le32)
    (simp_all add: le_lengths V_le16 del: V.simps flip: le16_htons_proto)

lemma add_pseudo_eq:
  assumes "rep (unat acc) (V ds)" "unat acc \<le> 65535" "length ds \<le> 131060"
  shows "add_pseudo acc src dest proto proto_len = inet_chksum odd_addr (pseudo_header src dest proto proto_len @ ds)"
proof -
  define tot where "tot = acc + (src AND 0xffff) + (drop_bit 16 src AND 0xffff) + (dest AND 0xffff)
    + (drop_bit 16 dest AND 0xffff) + ucast (lwip_htons (ucast proto)) + ucast (lwip_htons proto_len)"
  have l: "unat (u AND 0xffff) \<le> 65535" for u :: u32 by (simp add: unat_low16)
  have "unat tot = unat acc + unat (src AND 0xffff) + unat (drop_bit 16 src AND 0xffff) + unat (dest AND 0xffff)
    + unat (drop_bit 16 dest AND 0xffff) + unat (lwip_htons (ucast proto)) + unat (lwip_htons proto_len)"
    unfolding tot_def
    using assms(2) l [of src] l [of dest] l [of "drop_bit 16 src"] l [of "drop_bit 16 dest"]
      unat_u16_le [of "lwip_htons (ucast proto)"] unat_u16_le [of "lwip_htons proto_len"]
    by (simp add: unat_add_small unat_ucast_16_32)
  then have "rep (unat tot) (V (pseudo_header src dest proto proto_len @ ds))"
    using rep_even_append [OF _ rep_pseudo assms(1), of src dest proto proto_len]
    by (simp add: pseudo_header_def le_lengths add.assoc add.left_commute add.commute)
  then have "rep (unat (FOLD_U32T (FOLD_U32T tot))) (V (pseudo_header src dest proto proto_len @ ds))"
    by (rule rep_trans [OF rep_trans [OF rep_fold rep_fold]])
  from chksum_unique [OF this fold_twice] assms(3) show ?thesis
    by (simp add: add_pseudo_def tot_def Let_def pseudo_header_def le_lengths)
qed

lemma partial_done: "partial_loop p 0 st = st"
  by (cases p) simp_all

lemma partial_inv:
  assumes "chain_inv ds (length ds) st" "\<forall>q\<in>set p. length (snd q) \<le> 65535"
  shows "\<exists>n. chain_inv (ds @ take (unat chksum_len) (chain_bytes p)) n (partial_loop p chksum_len st)"
  using assms
proof (induction p arbitrary: ds st chksum_len)
  case Nil
  then show ?case by auto
next
  case (Cons q p)
  have len: "length (snd q) \<le> 65535" using Cons.prems(2) by simp
  then have l: "unat (of_nat (length (snd q)) :: u16) = length (snd q)" by (simp add: unat_of_nat)
  note step = chksum_step_inv [OF Cons.prems(1) refl len]
  show ?case
  proof (cases "chksum_len < of_nat (length (snd q))")
    case True
    then have lt: "unat chksum_len < length (snd q)" by (simp add: word_less_nat_alt l)
    show ?thesis
    proof (cases "chksum_len = 0")
      case False
      then have "0 < chksum_len" by (simp add: word_neq_0_conv)
      then show ?thesis using step [of "unat chksum_len"] True lt by (auto simp: partial_done Let_def)
    qed (use Cons.prems(1) in \<open>auto simp: partial_done\<close>)
  next
    case False
    then have le: "length (snd q) \<le> unat chksum_len" by (simp add: word_less_nat_alt l not_less)
    let ?st = "chksum_step (length (snd q)) q st"
    show ?thesis
    proof (cases "chksum_len = 0")
      case False
      then have "0 < chksum_len" by (simp add: word_neq_0_conv)
      then have eq: "partial_loop (q # p) chksum_len st = partial_loop p (chksum_len - of_nat (length (snd q))) ?st"
        using \<open>\<not> chksum_len < of_nat (length (snd q))\<close> by (simp add: Let_def l)
      have "unat (chksum_len - of_nat (length (snd q))) = unat chksum_len - length (snd q)"
        using le l by (simp add: unat_sub_le)
      moreover have "chain_inv (ds @ snd q) (length (ds @ snd q)) ?st" using step [of "length (snd q)"] by simp
      ultimately show ?thesis using Cons.IH [of "ds @ snd q" ?st "chksum_len - of_nat (length (snd q))"] Cons.prems(2) le
        by (simp add: eq del: partial_loop.simps)
    qed (use Cons.prems(1) in \<open>auto simp: partial_done\<close>)
  qed
qed

section \<open>The checksum of RFC 1071\<close>

text \<open>The ones' complement sum of the 16-bit words of the data in network byte order, an odd byte padded with zero.\<close>

fun be_words :: "u8 list \<Rightarrow> nat list" where
  "be_words (a # b # ds) = (256 * unat a + unat b) # be_words ds"
| "be_words [a] = [256 * unat a]"
| "be_words [] = []"

definition ones_add :: "nat \<Rightarrow> nat \<Rightarrow> nat" where
  "ones_add x y = (if x + y < 65536 then x + y else x + y - 65535)"

definition rfc1071 :: "u8 list \<Rightarrow> nat" where
  "rfc1071 ds = fold ones_add (be_words ds) 0"

lemma rep_ones_add: "x \<le> 65535 \<Longrightarrow> y \<le> 65535 \<Longrightarrow> rep (ones_add x y) (x + y) \<and> ones_add x y \<le> 65535"
proof (cases "x + y < 65536")
  case False
  assume b: "x \<le> 65535" "y \<le> 65535"
  define k where "k = x + y - 65535"
  have k: "x + y = 65535 + k" "0 < k" using False by (simp_all add: k_def)
  then show ?thesis using b by (simp add: ones_add_def rep_def)
qed (simp add: ones_add_def)

lemma fold_ones:
  "s \<le> 65535 \<Longrightarrow> \<forall>w\<in>set ws. w \<le> 65535 \<Longrightarrow>
   rep (fold ones_add ws s) (s + sum_list ws) \<and> fold ones_add ws s \<le> 65535"
proof (induction ws arbitrary: s)
  case (Cons w ws)
  have 1: "rep (ones_add w s) (w + s)" "ones_add w s \<le> 65535" using rep_ones_add [of w s] Cons.prems by simp_all
  then have "rep (fold ones_add ws (ones_add w s)) (ones_add w s + sum_list ws)" "fold ones_add ws (ones_add w s) \<le> 65535"
    using Cons.IH [of "ones_add w s"] Cons.prems(2) by simp_all
  then show ?case using rep_trans [OF _ rep_add [OF 1(1) rep_refl [of "sum_list ws"]]] by (simp add: ac_simps)
qed simp

lemma be_words_le: "\<forall>w\<in>set (be_words ds). w \<le> 65535"
proof -
  have u: "unat a \<le> 255" for a :: u8 using unsigned_less [of a, where ?'a = nat] by simp
  have "256 * unat a + unat b \<le> 65535" for a b :: u8 using u [of a] u [of b] by linarith
  moreover have "256 * unat a \<le> 65535" for a :: u8 using u [of a] by linarith
  ultimately show ?thesis by (induction ds rule: be_words.induct) auto
qed

lemma rep_be_words: "rep (sum_list (be_words ds)) (256 * V ds)"
proof (induction ds rule: be_words.induct)
  case (1 a b ds)
  have "rep (unat b + (256 * unat a + sum_list (be_words ds))) (65536 * unat b + (256 * unat a + 65536 * (256 * V ds)))"
    by (rule rep_add [OF rep_sym [OF rep_64k] rep_add [OF rep_refl rep_trans [OF 1 rep_sym [OF rep_64k]]]])
  then show ?case by (simp add: algebra_simps)
qed simp_all

lemma unat_htons: "unat (lwip_htons n) = 256 * (unat n mod 256) + unat n div 256"
proof -
  have "ucast (lwip_htons n) = SWAP_BYTES_IN_WORD (ucast n)"
    unfolding lwip_htons_parts swap_parts
    by (rule bit_word_eqI) (auto simp: bit_simps dest: bit_imp_le_length)
  then show ?thesis
    using unat_swap [of "ucast n"] unat_u16_le [of n] by (metis unat_ucast_16_32)
qed

text \<open>A change of one byte changes the number.\<close>

lemma byte_change:
  assumes "i < length ds" "rep (V (ds[i := b])) (V ds)"
  shows "b = ds ! i"
proof -
  let ?l = "take i ds" let ?r = "drop (Suc i) ds" let ?p = "256 ^ (i mod 2) :: nat" let ?a = "ds ! i"
  have cut: "rep (?p * unat x + (V ?l + ?p * (256 * V ?r))) (V (?l @ x # ?r))" for x
    using rep_V_append [of ?l "x # ?r"] assms(1) by (simp add: algebra_simps min_def)
  have "rep (?p * unat b + (V ?l + ?p * (256 * V ?r))) (?p * unat ?a + (V ?l + ?p * (256 * V ?r)))"
    using rep_trans [OF cut rep_trans [OF _ rep_sym [OF cut]]] assms
    by (simp add: upd_conv_take_nth_drop flip: id_take_nth_drop)
  then have "int ((?p * unat b + (V ?l + ?p * (256 * V ?r))) mod 65535)
      = int ((?p * unat ?a + (V ?l + ?p * (256 * V ?r))) mod 65535)"
    unfolding rep_def by (rule arg_cong [OF conjunct1])
  then have "(int (?p * unat b) + int (V ?l + ?p * (256 * V ?r))) mod 65535
      = (int (?p * unat ?a) + int (V ?l + ?p * (256 * V ?r))) mod 65535"
    by (simp only: of_nat_mod of_nat_add of_nat_numeral)
  then have "int (?p * unat b) mod 65535 = int (?p * unat ?a) mod 65535"
    by (simp only: mod_eq_dvd_iff add_diff_cancel_right)
  moreover have "int (?p * unat x) < 65535" for x :: u8
    using unsigned_less [of x, where ?'a = nat] by (cases "even i") (simp_all add: mod_2_eq_odd)
  then have "int (?p * unat x) mod 65535 = int (?p * unat x)" for x :: u8
    by (intro mod_pos_pos_trivial of_nat_0_le_iff)
  ultimately have "int (?p * unat b) = int (?p * unat ?a)" by (simp only:)
  then have "?p * unat b = ?p * unat ?a" by (simp only: of_nat_eq_iff)
  then have "unat b = unat ?a" by simp
  then show ?thesis by (simp add: word_unat_eq_iff)
qed

text \<open>The parity of the address does not matter.\<close>

lemma inet_chksum_parity: "length data \<le> 131072 \<Longrightarrow> inet_chksum odd_addr data = inet_chksum odd_addr' data"
  unfolding inet_chksum_def word_unat_eq_iff unat_not16
  using rep_unique [OF rep_chksum rep_chksum unat_u16_le unat_u16_le, of data odd_addr odd_addr'] by simp

text \<open>A checksum stored in a field that was zero.\<close>

lemma chksum_stored:
  assumes "even (length pre)" "length pre + length post \<le> 131070"
    and "data = pre @ le16 (inet_chksum odd_addr (pre @ [0, 0] @ post)) @ post"
  shows "inet_chksum odd_addr' data = 0
    \<and> (\<forall>i<length data. \<forall>b. b \<noteq> data ! i \<longrightarrow> inet_chksum odd_addr' (data[i := b]) \<noteq> 0)"
proof -
  let ?z = "pre @ [0, 0] @ post" let ?c = "lwip_standard_chksum odd_addr ?z"
  have len: "length data \<le> 131072" "length ?z \<le> 131072" using assms(2,3) by (simp_all add: le_lengths)
  have iff: "inet_chksum odd_addr' xs = 0 \<longleftrightarrow> rep (V xs) 65535" if "length xs \<le> 131072" for xs
  proof -
    let ?d = "lwip_standard_chksum odd_addr' xs"
    have "inet_chksum odd_addr' xs = 0 \<longleftrightarrow> unat ?d = 65535"
      using unat_not16 [of ?d] unat_u16_le [of ?d] by (auto simp: inet_chksum_def simp flip: unat_eq_0)
    also have "\<dots> \<longleftrightarrow> rep (V xs) 65535"
      using rep_unique [OF rep_chksum [OF that] _ unat_u16_le order_refl] rep_chksum [OF that, of odd_addr'] rep_sym rep_trans
      by metis
    finally show ?thesis .
  qed
  have "V data = V ?z + 256 ^ length pre * unat (inet_chksum odd_addr ?z)"
    unfolding assms(3) by (simp add: V_append V_le16 le_lengths algebra_simps)
  moreover have "rep (256 ^ length pre * unat (inet_chksum odd_addr ?z)) (65535 - unat ?c)"
    using assms(1) rep_256_even by (metis evenE inet_chksum_def unat_not16)
  ultimately have "rep (V data) (unat ?c + (65535 - unat ?c))"
    using rep_add [OF rep_sym [OF rep_chksum [OF len(2), of odd_addr]]] by simp
  then have ok: "rep (V data) 65535" using unat_u16_le [of ?c] by simp
  have "\<not> rep (V (data[i := b])) 65535" if "i < length data" "b \<noteq> data ! i" for i b
    using byte_change [OF that(1)] that(2) rep_trans [OF _ rep_sym [OF ok]] by blast
  then show ?thesis using iff [OF len(1)] iff [of "data[_ := _]"] ok len(1) by simp
qed

section \<open>Properties\<close>

text \<open>C35: the checksum of a chain does not depend on how the packet is cut into buffers, nor at which addresses they
  lie: it is the checksum of the bytes in one piece.\<close>

theorem inet_chksum_pbuf_pieces:
  assumes "\<forall>q\<in>set p. length (snd q) \<le> 65535" "length (chain_bytes p) \<le> 131072"
  shows "inet_chksum_pbuf p = inet_chksum odd_addr (chain_bytes p)"
  unfolding inet_chksum_pbuf_def
  by (rule chksum_unique) (use rep_chain_sum [OF assms(1)] assms(2) in simp_all)

lemma inet_chksum_pbuf_pieces_witness:
  "inet_chksum_pbuf [(True, [1, 2, 3]), (False, []), (True, [4]), (False, [5, 6, 7])] = inet_chksum False [1, 2, 3, 4, 5, 6, 7]"
  using inet_chksum_pbuf_pieces [of "[(True, [1, 2, 3]), (False, []), (True, [4]), (False, [5, 6, 7])]" False] by simp

text \<open>C34: the optimised sum is the checksum of RFC 1071 in network byte order, for data at even and odd addresses, up
  to the 0x20000 bytes the comment promises.\<close>

theorem inet_chksum_rfc1071:
  assumes "length data \<le> 131072"
  shows "unat (lwip_htons (inet_chksum odd_addr data)) = 65535 - rfc1071 data"
proof -
  let ?c = "lwip_standard_chksum odd_addr data"
  have "lwip_htons (NOT ?c) = NOT (lwip_htons ?c)"
    by (rule bit_word_eqI) (auto simp: lwip_htons_parts bit_simps)
  moreover have "rep (unat (lwip_htons ?c)) (256 * unat ?c)"
  proof -
    have "256 * unat ?c = 256 * (unat ?c mod 256) + 65536 * (unat ?c div 256)"
      using div_mult_mod_eq [of "unat ?c" 256] by linarith
    then show ?thesis unfolding unat_htons by (simp only:) (rule rep_add [OF rep_refl rep_sym [OF rep_64k]])
  qed
  then have "rep (unat (lwip_htons ?c)) (256 * V data)"
    by (rule rep_trans) (rule rep_mult [OF rep_chksum [OF assms]])
  moreover have "rep (rfc1071 data) (256 * V data)" "rfc1071 data \<le> 65535"
    using fold_ones [OF _ be_words_le, of 0 data] rep_trans [OF _ rep_be_words] by (simp_all add: rfc1071_def)
  ultimately have "unat (lwip_htons ?c) = rfc1071 data"
    using rep_unique [OF _ _ unat_u16_le] by blast
  then show ?thesis
    using \<open>lwip_htons (NOT ?c) = NOT (lwip_htons ?c)\<close> by (simp only: inet_chksum_def unat_not16)
qed

lemma inet_chksum_rfc1071_witness:
  "unat (lwip_htons (inet_chksum True [0, 1, 0xf2, 3, 0xf4, 0xf5, 0xf6, 0xf7])) = 65535 - 0xddf2"
  using inet_chksum_rfc1071 [of "[0, 1, 0xf2, 3, 0xf4, 0xf5, 0xf6, 0xf7]" True]
  by (simp add: rfc1071_def ones_add_def)

text \<open>The checksums with a pseudo header are those of the packet with the pseudo header written in front of it;
  \<open>inet_chksum_pseudo_partial\<close> covers exactly the first \<open>chksum_len\<close> bytes, wherever the cut falls.\<close>

theorem inet_chksum_pseudo_bytes:
  assumes "\<forall>q\<in>set p. length (snd q) \<le> 65535" "length (chain_bytes p) \<le> 131060"
  shows "inet_chksum_pseudo p src dest proto proto_len =
      inet_chksum odd_addr (pseudo_header src dest proto proto_len @ chain_bytes p)
    \<and> inet_chksum_pseudo_partial p src dest proto proto_len chksum_len =
      inet_chksum odd_addr (pseudo_header src dest proto proto_len @ take (unat chksum_len) (chain_bytes p))"
proof
  show "inet_chksum_pseudo p src dest proto proto_len =
      inet_chksum odd_addr (pseudo_header src dest proto proto_len @ chain_bytes p)"
    unfolding inet_chksum_pseudo_def
    by (rule add_pseudo_eq) (use rep_chain_sum [OF assms(1)] assms(2) in simp_all)
  obtain acc sw where l: "partial_loop p chksum_len (0, False) = (acc, sw)" by fastforce
  obtain n where "chain_inv (take (unat chksum_len) (chain_bytes p)) n (acc, sw)"
    using partial_inv [of "[]" "(0, False)" p chksum_len] chain_start assms(1) by (auto simp: l)
  from unswap [OF this]
  show "inet_chksum_pseudo_partial p src dest proto proto_len chksum_len =
      inet_chksum odd_addr (pseudo_header src dest proto proto_len @ take (unat chksum_len) (chain_bytes p))"
    unfolding inet_chksum_pseudo_partial_def l
    by (simp only: Let_def prod.case) (rule add_pseudo_eq, use assms(2) in auto)
qed

lemma inet_chksum_pseudo_bytes_witness:
  "inet_chksum_pseudo_partial [(True, [1, 2, 3]), (False, [4, 5])] 0x0a01a8c0 0x0b01a8c0 17 5 4 =
     inet_chksum False (pseudo_header 0x0a01a8c0 0x0b01a8c0 17 5 @ [1, 2, 3, 4])"
  using inet_chksum_pseudo_bytes [of "[(True, [1, 2, 3]), (False, [4, 5])]" "0x0a01a8c0" "0x0b01a8c0" 17 5 False 4]
  by simp

text \<open>C36: a packet with its checksum stored in a field that was zero, at an even offset, sums to zero at the receiver,
  and with one byte of it changed it does not.\<close>

theorem inet_chksum_verifies:
  assumes "even (length pre)" "length pre + length post \<le> 131070"
    and "data = pre @ le16 (inet_chksum odd_addr (pre @ [0, 0] @ post)) @ post"
  shows "inet_chksum odd_addr' data = 0
    \<and> (\<forall>i<length data. \<forall>b. b \<noteq> data ! i \<longrightarrow> inet_chksum odd_addr' (data[i := b]) \<noteq> 0)"
  by (rule chksum_stored [OF assms])

lemma inet_chksum_verifies_witness:
  "inet_chksum True (le16 (inet_chksum False ([0, 0] @ [1, 2, 3])) @ [1, 2, 3]) = 0"
  using inet_chksum_verifies [of "[]" "[1, 2, 3]" "le16 (inet_chksum False ([0, 0] @ [1, 2, 3])) @ [1, 2, 3]" False True]
  by simp

end
