(* ===== verification/Ping.thy ===== *)
theory Ping
  imports Chksum AtCmd
begin

text \<open>
  The echo requests, \<^verbatim>\<open>App/SerialNet/ping.c\<close>, and the command \<open>AT+PING\<close> of \<^verbatim>\<open>at_cmd.c\<close>.  The state holds the
  variables of the module, whether the timeout is armed and the callback registered, the packets handed to
  \<open>raw_sendto\<close> with their destination, and the statistics printed.  Parameters are the success of the allocation of the
  packet, the success of \<open>raw_new\<close> (the asserts are switched off, so its null pointer is used: \<^term>\<open>None\<close>) and the clock.
  The callback of the module is the null pointer in this firmware.  A packet received lies in one buffer, as those of
  this size do.
\<close>

record ping_stat =
  st_sent :: int
  st_received :: int
  st_lost :: int
  st_percent :: int

record ping =
  s_ping_target :: u32
  ping_seq_num :: u16
  ping_recv_num :: u16
  ping_count :: u16
  ping_time :: u32
  ping_flag :: bool
  timer_on :: bool
  registered :: bool
  sent :: "(u32 \<times> u8 list) list"
  stats :: "ping_stat list"

definition PING_ID :: u16 where
  "PING_ID = 0xAFAF"

definition icmp_echo_hdr :: "u8 \<Rightarrow> u16 \<Rightarrow> u16 \<Rightarrow> u16 \<Rightarrow> u8 list" where
  "icmp_echo_hdr ty chksum ident seqno = [ty, 0] @ le16 chksum @ le16 ident @ le16 seqno"

definition ping_prepare_echo :: "bool \<Rightarrow> nat \<Rightarrow> ping \<Rightarrow> ping \<times> u8 list" where
  "ping_prepare_echo odd_addr len s =
     (let s = s\<lparr>ping_seq_num := ping_seq_num s + 1\<rparr>;
          seqno = lwip_htons (ping_seq_num s);
          filler = map of_nat [0..<len - 8];
          chksum = inet_chksum odd_addr (icmp_echo_hdr 8 0 PING_ID seqno @ filler)
      in (s, icmp_echo_hdr 8 chksum PING_ID seqno @ filler))"

definition ping_send :: "bool \<Rightarrow> bool \<Rightarrow> u32 \<Rightarrow> u32 \<Rightarrow> ping \<Rightarrow> ping" where
  "ping_send odd_addr alloc now addr s =
     (let s = s\<lparr>s_ping_target := addr\<rparr> in
      if alloc then
        let (s, packet) = ping_prepare_echo odd_addr (8 + 32) s
        in s\<lparr>sent := sent s @ [(addr, packet)], ping_time := now\<rparr>
      else s)"

text \<open>Division of C, which truncates.\<close>

definition c_div :: "int \<Rightarrow> int \<Rightarrow> int" where
  "c_div a b = sgn a * sgn b * (\<bar>a\<bar> div \<bar>b\<bar>)"

definition ping_timeout :: "bool \<Rightarrow> bool \<Rightarrow> u32 \<Rightarrow> ping \<Rightarrow> ping" where
  "ping_timeout odd_addr alloc now s =
     (if ping_count s \<noteq> 0 \<and> ping_count s \<le> ping_seq_num s then
        let n = uint (ping_seq_num s); r = uint (ping_recv_num s)
        in s\<lparr>stats := stats s @ [\<lparr>st_sent = n, st_received = r, st_lost = n - r, st_percent = c_div ((n - r) * 100) n\<rparr>],
             ping_flag := False, registered := False, timer_on := False\<rparr>
      else (ping_send odd_addr alloc now (s_ping_target s) s)\<lparr>timer_on := True\<rparr>)"

text \<open>The packet starts with its IP header.  The results: whether it was eaten, and the bytes from the payload pointer
  on, which \<open>pbuf_header\<close> has moved.\<close>

definition ping_recv :: "u8 list \<Rightarrow> ping \<Rightarrow> ping \<times> bool \<times> u8 list" where
  "ping_recv p s =
     (if 20 + 8 \<le> length p then
        let iecho = drop 20 p in
        if word_at (iecho ! 4) (iecho ! 5) = PING_ID \<and> word_at (iecho ! 6) (iecho ! 7) = lwip_htons (ping_seq_num s)
        then (s\<lparr>ping_recv_num := ping_recv_num s + 1\<rparr>, True, iecho)
        else (s, False, iecho)
      else (s, False, p))"

definition ping_send_to :: "bool \<Rightarrow> bool \<Rightarrow> u32 \<Rightarrow> u32 \<Rightarrow> ping \<Rightarrow> ping" where
  "ping_send_to odd_addr alloc now target s = ping_send odd_addr alloc now target s"

definition ping_raw_init :: "bool \<Rightarrow> ping \<Rightarrow> ping option" where
  "ping_raw_init raw_new s =
     (if raw_new then Some (s\<lparr>ping_recv_num := 0, ping_seq_num := 0, registered := True, timer_on := True\<rparr>) else None)"

definition ping_init :: "bool \<Rightarrow> int \<Rightarrow> ping \<Rightarrow> (ping \<times> int) option" where
  "ping_init raw_new count s =
     (if \<not> ping_flag s then
        map_option (\<lambda>s. (s, 0)) (ping_raw_init raw_new (s\<lparr>ping_flag := True, ping_count := word_of_int count\<rparr>))
      else Some (s, -1))"

definition responsePING :: "at_env \<Rightarrow> bool \<Rightarrow> bool \<Rightarrow> bool \<Rightarrow> u32 \<Rightarrow> at_sys \<times> ping \<Rightarrow> u8 list list \<Rightarrow> (at_sys \<times> ping) option" where
  "responsePING e raw_new odd_addr alloc now sp argv =
     (let (s, p) = sp in
      if length argv \<noteq> 3 \<or> is_valid_ip (argv ! 1) \<noteq> 0 \<or> str_is_digit (argv ! 2) = 0 \<or> length (argv ! 2) = 0
      then Some (error INVALID_PARAMETER s, p)
      else do {
        (p, r) \<leftarrow> ping_init raw_new (atoi (argv ! 2)) p;
        if r = 0 then Some (s, ping_send_to odd_addr alloc now (inet_aton (uninit e) (argv ! 1)) p)
        else Some (error (-16) s, p) })"

text \<open>What \<open>icmp_input\<close> takes for the type of a message whose payload pointer it is given: it skips the header
  length it reads from the first byte.\<close>

definition icmp_type :: "u8 list \<Rightarrow> u8 option" where
  "icmp_type p =
     (let hlen = 4 * unat (p ! 0 AND 0xf) in
      if length p < hlen \<or> length p - hlen < 4 then None else Some (p ! hlen))"

section \<open>A run\<close>

datatype ping_event = Timeout bool bool u32 | Packet "u8 list"

text \<open>The timeout fires only while it is armed, packets reach the callback only while it is registered.\<close>

fun ping_step :: "ping_event \<Rightarrow> ping \<Rightarrow> ping" where
  "ping_step (Timeout odd_addr alloc now) s = (if timer_on s then ping_timeout odd_addr alloc now s else s)"
| "ping_step (Packet p) s = (if registered s then fst (ping_recv p s) else s)"

text \<open>The request with a given number.\<close>

definition echo_request :: "u16 \<Rightarrow> u8 list" where
  "echo_request k =
     (let filler = map of_nat [0..<32]
      in icmp_echo_hdr 8 (inet_chksum False (icmp_echo_hdr 8 0 PING_ID (lwip_htons k) @ filler)) PING_ID (lwip_htons k) @ filler)"

lemma prepare_echo:
  "ping_prepare_echo odd_addr 40 s = (s\<lparr>ping_seq_num := ping_seq_num s + 1\<rparr>, echo_request (ping_seq_num s + 1))"
  unfolding ping_prepare_echo_def echo_request_def Let_def
  using inet_chksum_parity [of "icmp_echo_hdr 8 0 PING_ID (lwip_htons (ping_seq_num s + 1)) @ map of_nat [0..<32]" odd_addr False]
  by (simp add: icmp_echo_hdr_def le_lengths)

lemma echo_request_valid: "length (echo_request k) = 40 \<and> inet_chksum odd_addr (echo_request k) = 0"
proof -
  let ?post = "le16 PING_ID @ le16 (lwip_htons k) @ map of_nat [0..<32]"
  have "echo_request k = [8, 0] @ le16 (inet_chksum False ([8, 0] @ [0, 0] @ ?post)) @ ?post"
    by (simp add: echo_request_def icmp_echo_hdr_def Let_def le16_def)
  moreover have "length ?post = 36" by (simp add: le_lengths)
  ultimately show ?thesis
    using chksum_stored [of "[8, 0]" ?post "echo_request k" False odd_addr] by (simp add: le_lengths)
qed

text \<open>After \<open>k\<close> timeouts with memory for the packets: \<open>m\<close> requests are out, and the run is over when they are all.\<close>

definition requests :: "u16 \<Rightarrow> nat \<Rightarrow> nat" where
  "requests count k = (if count = 0 then k + 1 else min (k + 1) (unat count))"

definition over :: "u16 \<Rightarrow> nat \<Rightarrow> bool" where
  "over count k \<longleftrightarrow> count \<noteq> 0 \<and> unat count \<le> k"

definition run_inv :: "u16 \<Rightarrow> u32 \<Rightarrow> nat \<Rightarrow> ping \<Rightarrow> bool" where
  "run_inv count target k s \<longleftrightarrow> ping_count s = count \<and> s_ping_target s = target
     \<and> ping_seq_num s = of_nat (requests count k)
     \<and> sent s = map (\<lambda>i. (target, echo_request (of_nat i))) [1..<requests count k + 1]
     \<and> ping_flag s = (\<not> over count k) \<and> timer_on s = (\<not> over count k) \<and> registered s = (\<not> over count k)
     \<and> map st_sent (stats s) = (if over count k then [uint count] else [])"

fun timeouts :: "ping_event list \<Rightarrow> nat" where
  "timeouts [] = 0"
| "timeouts (Timeout _ _ _ # es) = Suc (timeouts es)"
| "timeouts (Packet _ # es) = timeouts es"

fun enough_memory :: "ping_event \<Rightarrow> bool" where
  "enough_memory (Timeout _ alloc _) = alloc"
| "enough_memory (Packet _) = True"

lemma send_request:
  "ping_send odd_addr True now target s = s\<lparr>s_ping_target := target, ping_seq_num := ping_seq_num s + 1,
     sent := sent s @ [(target, echo_request (ping_seq_num s + 1))], ping_time := now\<rparr>"
  by (simp add: ping_send_def Let_def prepare_echo)

lemma packet_inv: "run_inv count target k s \<Longrightarrow> run_inv count target k (ping_step (Packet p) s)"
  by (auto simp: run_inv_def ping_recv_def Let_def)

lemma timeout_inv:
  assumes "run_inv count target k s"
  shows "run_inv count target (Suc k) (ping_step (Timeout odd_addr True now) s)"
proof (cases "over count k")
  case True
  then have "over count (Suc k)" "requests count (Suc k) = requests count k" by (auto simp: over_def requests_def)
  then show ?thesis using assms True by (simp add: run_inv_def)
next
  case False
  have fin: "(count \<noteq> 0 \<and> count \<le> of_nat (requests count k)) = over count (Suc k)"
  proof (cases "count = 0")
    case False
    then have r: "requests count k = k + 1" "k + 1 \<le> unat count" using \<open>\<not> over count k\<close> by (auto simp: over_def requests_def)
    then have "unat (of_nat (requests count k) :: u16) = k + 1"
      using unat_u16_le [of count] by (simp add: unat_of_nat del: of_nat_Suc of_nat_add)
    then show ?thesis using False r by (simp add: over_def word_le_nat_alt)
  qed (simp add: over_def)
  show ?thesis
  proof (cases "over count (Suc k)")
    case True
    then have r: "requests count (Suc k) = requests count k" "requests count k = unat count"
      using False by (auto simp: over_def requests_def)
    show ?thesis using assms True False r fin by (simp add: run_inv_def ping_timeout_def Let_def of_nat_unat)
  next
    case nxt: False
    then have r: "requests count (Suc k) = Suc (requests count k)" using False by (auto simp: over_def requests_def)
    have "requests count k \<ge> 1" using nxt by (auto simp: over_def requests_def)
    moreover have "\<not> (ping_count s \<noteq> 0 \<and> ping_count s \<le> ping_seq_num s)"
      using nxt fin assms by (simp only: run_inv_def simp_thms)
    then have "ping_timeout odd_addr True now s = (ping_send odd_addr True now (s_ping_target s) s)\<lparr>timer_on := True\<rparr>"
      by (simp only: ping_timeout_def if_False)
    ultimately show ?thesis using assms nxt False
      by (simp add: run_inv_def send_request r add.commute)
  qed
qed

lemma run_ok:
  "run_inv count target k s \<Longrightarrow> \<forall>e\<in>set es. enough_memory e \<Longrightarrow>
   run_inv count target (k + timeouts es) (fold ping_step es s)"
proof (induction es arbitrary: k s)
  case (Cons e es)
  show ?case
  proof (cases e)
    case (Timeout odd_addr alloc now)
    then have "run_inv count target (Suc k) (ping_step e s)" "timeouts (e # es) = Suc (timeouts es)"
      using Cons.prems timeout_inv [of count target k s odd_addr now] by simp_all
    then show ?thesis using Cons.IH [of "Suc k" "ping_step e s"] Cons.prems(2) by simp
  next
    case (Packet p)
    then show ?thesis using Cons.IH [of k "ping_step e s"] Cons.prems packet_inv [of count target k s p] by simp
  qed
qed simp

section \<open>Properties\<close>

text \<open>C37: a run started with \<open>AT+PING\<close>, with memory for its packets and whatever packets arrive meanwhile: one request
  goes out at once and one at each timeout, numbered from 1, each to the target and with a valid checksum, until
  \<open>count mod 65536\<close> of them are out; the next timeout prints the statistics and ends the run.  With \<open>count\<close> a multiple
  of 65536, 0 included, it never ends.\<close>

theorem ping_run:
  assumes "\<not> ping_flag p" "sent p = []" "stats p = []" and "\<forall>e\<in>set es. enough_memory e"
    and "length argv = 3" "is_valid_ip (argv ! 1) = 0" "str_is_digit (argv ! 2) \<noteq> 0" "argv ! 2 \<noteq> []"
    and "count = word_of_int (atoi (argv ! 2))" "target = inet_aton (uninit e) (argv ! 1)"
  shows "\<exists>p'. responsePING e True odd_addr True now (s, p) argv = Some (s, p')
    \<and> (let q = fold ping_step es p'; k = timeouts es in
         sent q = map (\<lambda>i. (target, echo_request (of_nat i))) [1..<requests count k + 1]
       \<and> (\<forall>(t, packet)\<in>set (sent q). inet_chksum odd_addr packet = 0)
       \<and> ping_flag q = (\<not> over count k)
       \<and> map st_sent (stats q) = (if over count k then [uint count] else []))"
proof -
  let ?p0 = "p\<lparr>ping_flag := True, ping_count := count, ping_recv_num := 0, ping_seq_num := 0, registered := True, timer_on := True\<rparr>"
  let ?p = "ping_send_to odd_addr True now target ?p0"
  have "responsePING e True odd_addr True now (s, p) argv = Some (s, ?p)"
    using assms(1,5-) by (simp add: responsePING_def ping_init_def ping_raw_init_def)
  moreover have "requests count 0 = 1" "\<not> over count 0"
    by (auto simp: requests_def over_def unat_eq_0 Suc_le_eq unat_gt_0)
  then have "run_inv count target 0 ?p"
    using assms(2,3) by (simp add: run_inv_def ping_send_to_def send_request)
  from run_ok [OF this assms(4)] have "run_inv count target (timeouts es) (fold ping_step es ?p)" by simp
  ultimately show ?thesis
    using echo_request_valid by (fastforce simp: run_inv_def Let_def)
qed

definition ping_idle :: ping where
  "ping_idle = \<lparr>s_ping_target = 0, ping_seq_num = 0, ping_recv_num = 0, ping_count = 0, ping_time = 0, ping_flag = False,
     timer_on = False, registered = False, sent = [], stats = []\<rparr>"

lemma ping_run_witness:
  "\<exists>p'. responsePING at_env0 True False True 0 (at_start, ping_idle) [ascii ''+PING'', ascii ''10.0.0.1'', ascii ''2''] = Some (at_start, p')
    \<and> map st_sent (stats (fold ping_step [Timeout False True 1, Packet [], Timeout False True 2] p')) = [2]"
proof -
  let ?argv = "[ascii ''+PING'', ascii ''10.0.0.1'', ascii ''2'']"
  let ?es = "[Timeout False True 1, Packet [], Timeout False True 2]"
  have c: "is_valid_ip (ascii ''10.0.0.1'') = 0" "str_is_digit (ascii ''2'') \<noteq> 0" "ascii ''2'' \<noteq> []"
    "(2 :: u16) = word_of_int (atoi (ascii ''2''))" by code_simp+
  have "over 2 (timeouts ?es)" by (simp add: over_def)
  moreover obtain p' where "responsePING at_env0 True False True 0 (at_start, ping_idle) ?argv = Some (at_start, p')"
    "map st_sent (stats (fold ping_step ?es p')) = (if over 2 (timeouts ?es) then [uint (2 :: u16)] else [])"
    using ping_run [of ping_idle ?es ?argv 2 "inet_aton (uninit at_env0) (ascii ''10.0.0.1'')" at_env0 False 0 at_start] c
    unfolding Let_def by (auto simp: ping_idle_def simp del: fold.simps timeouts.simps)
  ultimately show ?thesis by (auto simp del: fold.simps timeouts.simps)
qed

text \<open>While a run is on, an ICMP message that is not its answer is not eaten, but goes on with the payload pointer moved
  by 20 bytes: \<open>icmp_input\<close> takes a byte of its data for the type, so that the unit does not answer a request (type
  8) of somebody else.\<close>

theorem ping_hides_header:
  assumes "length iphdr = 20" "iphdr ! 0 = 0x45" "length body \<ge> 6"
    and "word_at (body ! 2) (body ! 3) \<noteq> PING_ID \<or> word_at (body ! 4) (body ! 5) \<noteq> lwip_htons (ping_seq_num s)"
  shows "icmp_type (iphdr @ [8, 0] @ body) = Some 8
    \<and> ping_recv (iphdr @ [8, 0] @ body) s = (s, False, [8, 0] @ body)
    \<and> icmp_type ([8, 0] @ body) = (if length body < 34 then None else Some (body ! 30))"
proof -
  have h: "unat (iphdr ! 0 AND 0xf) = 5" "unat ((8 :: u8) AND 0xf) = 8" by (simp_all add: assms(2))
  have "(iphdr @ [8, 0] @ body) ! 0 = iphdr ! 0" "(iphdr @ [8, 0] @ body) ! 20 = 8"
    using assms(1) by (simp_all add: nth_append)
  then have "icmp_type (iphdr @ [8, 0] @ body) = Some 8"
    using assms(1,3) h(1) by (simp add: icmp_type_def Let_def)
  moreover have "ping_recv (iphdr @ [8, 0] @ body) s = (s, False, [8, 0] @ body)"
    using assms(1,3,4) by (auto simp: ping_recv_def Let_def numeral_eq_Suc)
  moreover have "icmp_type ([8, 0] @ body) = (if length body < 34 then None else Some (body ! 30))"
    using h(2) by (auto simp: icmp_type_def Let_def)
  ultimately show ?thesis by blast
qed

lemma ping_hides_header_witness:
  "ping_recv ((0x45 # replicate 19 0) @ [8, 0] @ replicate 38 0x61) ping_idle = (ping_idle, False, [8, 0] @ replicate 38 0x61)
    \<and> icmp_type ([8, 0] @ replicate 38 0x61) = Some 0x61"
proof -
  have "word_at (0x61 :: u8) 0x61 \<noteq> PING_ID" by code_simp
  then show ?thesis
    using ping_hides_header [of "0x45 # replicate 19 0" "replicate 38 0x61" ping_idle] by simp
qed

text \<open>An answer is counted each time it comes, so more packets can be received than were sent.\<close>

lemma ping_counts_copies:
  assumes "registered s" "length iphdr = 20" "length body \<ge> 6"
    and "word_at (body ! 2) (body ! 3) = PING_ID" "word_at (body ! 4) (body ! 5) = lwip_htons (ping_seq_num s)"
  shows "fold ping_step (replicate n (Packet (iphdr @ [0, 0] @ body))) s = s\<lparr>ping_recv_num := ping_recv_num s + of_nat n\<rparr>"
  using assms(1,5)
proof (induction n arbitrary: s)
  case (Suc n)
  have "ping_step (Packet (iphdr @ [0, 0] @ body)) s = s\<lparr>ping_recv_num := ping_recv_num s + 1\<rparr>"
    using assms(2,3,4) Suc.prems by (auto simp: ping_recv_def Let_def numeral_eq_Suc)
  then show ?case using Suc.IH [of "s\<lparr>ping_recv_num := ping_recv_num s + 1\<rparr>"] Suc.prems by (simp add: add.assoc)
qed simp

end
