(* ===== verification/SysMgmt.thy ===== *)
theory SysMgmt
  imports DhcpSafety DnsServer FlashParam
begin

text \<open>
  What happens when the WiFi library reports an event: the dispatch of \<^verbatim>\<open>Sys/sys_mgmt.c\<close> (\<open>DefaultProc\<close>), the
  interface going up and down in \<^verbatim>\<open>LwIP/port/lwIP.c\<close> (\<open>L2LinkUp\<close>, \<open>L2LinkDown\<close>), which starts and stops the DHCP and
  the DNS server, and the callback of the application in \<^verbatim>\<open>Sys/main.c\<close>.  The state joins that of the commands
  (\<^verbatim>\<open>AtCmd\<close>), of the two servers (\<^verbatim>\<open>DhcpServer\<close>, \<^verbatim>\<open>DnsServer\<close>), the interface, and the queue of the task.  The DHCP
  client of the stack is a parameter: what it has reached at each look of the waiting loop.
\<close>

datatype sys_msg =
  SYS_LINK_UP_ID | SYS_LINK_DOWN_ID | SYS_DHCP_TIMEOUT_ID | SYS_SCAN_DONE_ID | SYS_STA_JOIN_FAIL_ID
  | SYS_DIRECT_CFG_DONE_ID

record iface =
  if_up :: bool
  if_ip :: u32
  if_netmask :: u32
  if_gw :: u32
  if_dns :: u32
  if_client :: bool

record node =
  nd_at :: at_sys
  nd_if :: iface
  nd_dhcps :: dhcp
  nd_dnss :: dns_server
  nd_removed :: "nat option list"
  nd_msgs :: "sys_msg list"
  ScanFlag :: u8
  TestAirkissFlag :: int

text \<open>One look at the DHCP client: the address, netmask and gateway it has set, whether the link is still there, and the
  number of its tries.\<close>

record dhcp_look =
  lk_ip :: u32
  lk_netmask :: u32
  lk_gw :: u32
  LinkReady :: bool
  lk_tries :: u8

record link_env =
  looks :: "dhcp_look list"
  dhcps_pcb :: u32
  dnss_pcb :: "nat option"

section \<open>The interface\<close>

abbreviation sys_param :: "node \<Rightarrow> cfg_param" where
  "sys_param n \<equiv> SysParam (inf (nd_at n))"

definition upd_if :: "(iface \<Rightarrow> iface) \<Rightarrow> node \<Rightarrow> node" where
  "upd_if f n = n\<lparr>nd_if := f (nd_if n)\<rparr>"

text \<open>\<open>IP4_ADDR\<close>: the four bytes as they lie in memory.\<close>

definition IP4_ADDR :: "u8 list \<Rightarrow> u32" where
  "IP4_ADDR b = of_le32 b"

definition LoadStaticParam :: "node \<Rightarrow> node" where
  "LoadStaticParam n =
     (let p = IPCfg (sys_param n)
      in upd_if (\<lambda>i. i\<lparr>if_ip := IP4_ADDR (Ip p), if_netmask := IP4_ADDR (Netmask p), if_gw := IP4_ADDR (GateWay p),
           if_dns := IP4_ADDR (Dns p), if_up := True\<rparr>) n)"

text \<open>The waiting loop; \<^term>\<open>None\<close> is that it still waits after the last look.\<close>

fun wait_dhcp :: "dhcp_look list \<Rightarrow> node \<Rightarrow> node option" where
  "wait_dhcp [] n = None"
| "wait_dhcp (k # ks) n =
     (let n = upd_if (\<lambda>i. i\<lparr>if_ip := lk_ip k, if_netmask := lk_netmask k, if_gw := lk_gw k\<rparr>) n;
          limit = DhcpTryTimes (IPCfg (sys_param n))
      in if lk_ip k \<noteq> 0 then Some (upd_if (\<lambda>i. i\<lparr>if_up := True\<rparr>) n)
         else if \<not> LinkReady k \<or> limit \<noteq> 0 \<and> limit < lk_tries k
         then Some (LoadStaticParam (upd_if (\<lambda>i. i\<lparr>if_client := False\<rparr>) (n\<lparr>nd_msgs := nd_msgs n @ [SYS_DHCP_TIMEOUT_ID]\<rparr>)))
         else wait_dhcp ks n)"

definition ifUpWhenDhcp :: "link_env \<Rightarrow> node \<Rightarrow> node option" where
  "ifUpWhenDhcp e n = wait_dhcp (looks e) (upd_if (\<lambda>i. i\<lparr>if_client := True\<rparr>) n)"

definition view_of :: "iface \<Rightarrow> netif_view" where
  "view_of i = \<lparr>nif_up = if_up i, nif_ip_addr = if_ip i, nif_netmask = if_netmask i\<rparr>"

definition is_softap :: "node \<Rightarrow> bool" where
  "is_softap n \<longleftrightarrow> Protocol (WiFiCfg (sys_param n)) = 2"

definition uses_client :: "node \<Rightarrow> bool" where
  "uses_client n \<longleftrightarrow> Protocol (WiFiCfg (sys_param n)) = 0 \<and> bDhcp (IPCfg (sys_param n)) \<noteq> 0"

definition start_dhcps :: "link_env \<Rightarrow> node \<times> int \<Rightarrow> (node \<times> int) option" where
  "start_dhcps e st = (let (n, ret) = st in
     if bDhcpServer (sys_param n) \<noteq> 0
     then map_option (\<lambda>(d, r). (n\<lparr>nd_dhcps := d\<rparr>, r)) (DHCPS_Start (dhcps_pcb e) (view_of (nd_if n)) (nd_dhcps n))
     else Some (n, ret))"

definition start_dnss :: "link_env \<Rightarrow> node \<times> int \<Rightarrow> node \<times> int" where
  "start_dnss e st = (let (n, ret) = st in
     if bDnsServer (sys_param n) \<noteq> 0
     then let (d, r) = DNSS_Start (dnss_pcb e) (nd_dnss n) (Some (if_up (nd_if n), if_ip (nd_if n)))
                         (cstring (cfg_DnsName (sys_param n)))
          in (n\<lparr>nd_dnss := d\<rparr>, r)
     else (n, ret))"

definition L2LinkUp :: "link_env \<Rightarrow> node \<Rightarrow> (node \<times> int) option" where
  "L2LinkUp e n = do {
     n \<leftarrow> (if uses_client n then ifUpWhenDhcp e n else Some (LoadStaticParam n));
     (n, ret) \<leftarrow> (if is_softap n then map_option (start_dnss e) (start_dhcps e (n, 0)) else Some (n, 0));
     Some (n, if ret = 0 then 0 else -1) }"

definition L2LinkDown :: "node \<Rightarrow> node" where
  "L2LinkDown n =
     (let n = upd_if (\<lambda>i. i\<lparr>if_up := False\<rparr>) n;
          n = (if uses_client n then upd_if (\<lambda>i. i\<lparr>if_client := False\<rparr>) n else n);
          n = upd_if (\<lambda>i. i\<lparr>if_ip := 0, if_netmask := lwip_htonl 0xFFFFFF00, if_gw := 0\<rparr>) n
      in if is_softap n then
           let n = (if bDhcpServer (sys_param n) \<noteq> 0 then n\<lparr>nd_dhcps := DHCPS_Stop (nd_dhcps n)\<rparr> else n)
           in if bDnsServer (sys_param n) \<noteq> 0
              then n\<lparr>nd_dnss := fst (DNSS_Stop (nd_dnss n)), nd_removed := nd_removed n @ [snd (DNSS_Stop (nd_dnss n))]\<rparr>
              else n
         else n)"

section \<open>The callback of the application\<close>

definition upd_node_at :: "(at_sys \<Rightarrow> at_sys) \<Rightarrow> node \<Rightarrow> node" where
  "upd_node_at f n = n\<lparr>nd_at := f (nd_at n)\<rparr>"

definition AppEvtCallBack :: "sys_evt \<Rightarrow> node \<Rightarrow> node" where
  "AppEvtCallBack event n =
     (let (n, event) =
        (case event of
           SYS_EVT_LINK_UP \<Rightarrow>
             ((upd_node_at (\<lambda>s. ResponseSmartconfig (if_ip (nd_if n)) (say ''+EVENT=SYS_EVT_LINK_UP'' [] s)) n)\<lparr>TestAirkissFlag := 1\<rparr>, event)
         | SYS_EVT_LINK_DOWN \<Rightarrow> (upd_node_at (say ''+EVENT=SYS_EVT_LINK_DOWN'' []) n, event)
         | SYS_EVT_JOIN_FAIL \<Rightarrow> (upd_node_at (say ''+EVENT=SYS_EVT_JOIN_FAIL'' []) n, event)
         | SYS_EVT_DHCP_FAIL \<Rightarrow>
             (upd_node_at (say ''+EVENT=SYS_EVT_DHCP_FAIL'' []) n,
              if link_status (nd_at n) = SYS_EVT_LINK_UP then SYS_EVT_LINK_UP else event)
         | SYS_EVT_SCAN_DONE \<Rightarrow>
             let event = (if hd (Ssid (WiFiCfg (sys_param n))) = 0 then SYS_EVT_LINK_DOWN else event);
                 event = (if link_status (nd_at n) = SYS_EVT_LINK_UP then SYS_EVT_LINK_UP else event)
             in ((upd_node_at (say ''+EVENT=SYS_EVT_SCAN_DONE'' []) n)\<lparr>ScanFlag := 1, TestAirkissFlag := 1\<rparr>, event)
         | SYS_EVT_DIRECT_CFG_DONE \<Rightarrow>
             (upd_node_at (\<lambda>s. upd_inf InfWiFiStart (upd_inf (InfNetModeSet 0) (upd_inf InfWiFiStop
                (say ''+EVENT=SYS_EVT_DIRECT_CFG_DONE'' [] s)))) n, event))
      in upd_node_at (\<lambda>s. s\<lparr>link_status := event\<rparr>) n)"

section \<open>The task\<close>

definition call_back :: "sys_evt \<Rightarrow> node \<Rightarrow> node" where
  "call_back event n = (if SysEvtCB (inf (nd_at n)) \<noteq> 0 then AppEvtCallBack event n else n)"

definition DefaultProc :: "link_env \<Rightarrow> sys_msg \<Rightarrow> node \<Rightarrow> node option" where
  "DefaultProc e msg n =
     (case msg of
        SYS_LINK_UP_ID \<Rightarrow>
          map_option (\<lambda>(n, r). if r \<noteq> 0 then n else call_back SYS_EVT_LINK_UP n) (L2LinkUp e n)
      | SYS_LINK_DOWN_ID \<Rightarrow> Some (call_back SYS_EVT_LINK_DOWN (L2LinkDown n))
      | SYS_STA_JOIN_FAIL_ID \<Rightarrow> Some (call_back SYS_EVT_JOIN_FAIL n)
      | SYS_DHCP_TIMEOUT_ID \<Rightarrow> Some (call_back SYS_EVT_DHCP_FAIL n)
      | SYS_SCAN_DONE_ID \<Rightarrow> Some (call_back SYS_EVT_SCAN_DONE n)
      | SYS_DIRECT_CFG_DONE_ID \<Rightarrow> Some (call_back SYS_EVT_DIRECT_CFG_DONE n))"

text \<open>One message of the queue.\<close>

definition SysMgmtMain_round :: "link_env \<Rightarrow> node \<Rightarrow> node option" where
  "SysMgmtMain_round e n = (case nd_msgs n of [] \<Rightarrow> Some n | m # ms \<Rightarrow> DefaultProc e m (n\<lparr>nd_msgs := ms\<rparr>))"

section \<open>What the events leave alone\<close>

lemma upd_if_simps [simp]:
  "nd_at (upd_if f n) = nd_at n" "nd_if (upd_if f n) = f (nd_if n)" "nd_dhcps (upd_if f n) = nd_dhcps n"
  "nd_dnss (upd_if f n) = nd_dnss n" "nd_msgs (upd_if f n) = nd_msgs n"
  by (simp_all add: upd_if_def)

lemma upd_node_at_simps [simp]:
  "nd_at (upd_node_at f n) = f (nd_at n)" "nd_if (upd_node_at f n) = nd_if n" "nd_dhcps (upd_node_at f n) = nd_dhcps n"
  "nd_dnss (upd_node_at f n) = nd_dnss n" "nd_msgs (upd_node_at f n) = nd_msgs n"
  by (simp_all add: upd_node_at_def)

lemma static_at [simp]: "nd_at (LoadStaticParam n) = nd_at n"
  by (simp add: LoadStaticParam_def Let_def)

lemma wait_at: "wait_dhcp ks n = Some n' \<Longrightarrow> nd_at n' = nd_at n"
  by (induction ks n rule: wait_dhcp.induct) (auto simp: Let_def split: if_splits)

lemma link_up_at: "L2LinkUp e n = Some (n', r) \<Longrightarrow> nd_at n' = nd_at n"
  by (auto simp: L2LinkUp_def ifUpWhenDhcp_def start_dhcps_def start_dnss_def Let_def case_prod_beta
      split: if_splits Option.bind_splits dest!: wait_at)

lemma link_down_at [simp]: "nd_at (L2LinkDown n) = nd_at n"
  by (simp add: L2LinkDown_def Let_def)

text \<open>The messages keep the parameters in range.\<close>

lemma smtconfig_ok: "at_ok (s\<lparr>smtconfigBegin := b\<rparr>) = at_ok s"
  by (simp add: at_ok_def)

lemma smartconfig_ok: "at_ok s \<Longrightarrow> at_ok (ResponseSmartconfig ip s)"
  unfolding ResponseSmartconfig_def by (simp add: copy_cfg_ok smtconfig_ok)

lemma link_status_ok [simp]: "at_ok (s\<lparr>link_status := ev\<rparr>) = at_ok s"
  by (simp add: at_ok_def)

lemma callback_ok: "at_ok (nd_at n) \<Longrightarrow> at_ok (nd_at (AppEvtCallBack ev n))"
  by (cases ev) (auto simp: AppEvtCallBack_def Let_def intro!: smartconfig_ok upd_inf_ok request_ok set_value_ok)

lemma proc_ok: "at_ok (nd_at n) \<Longrightarrow> DefaultProc e m n = Some n' \<Longrightarrow> at_ok (nd_at n')"
  by (cases m) (auto simp: DefaultProc_def call_back_def callback_ok split: if_splits dest!: link_up_at)

text \<open>A run of the system: commands, messages of the WiFi library, and the traffic of the DHCP server.\<close>

inductive node_step :: "node \<Rightarrow> node \<Rightarrow> bool" where
  command: "processCommand other e cur (if_ip (nd_if n)) (nd_at n) argv = Some s \<Longrightarrow> \<not> chip_reset (nd_at n) \<Longrightarrow>
    \<forall>r. find_command argv = Some r \<longrightarrow> \<not> other_request r \<Longrightarrow> node_step n (n\<lparr>nd_at := s\<rparr>)"
| message: "DefaultProc e m n = Some n' \<Longrightarrow> node_step n n'"
| dhcp: "dhcp_step (nd_dhcps n) ev outp d \<Longrightarrow> node_step n (n\<lparr>nd_dhcps := d\<rparr>)"

inductive node_reach :: "node \<Rightarrow> node \<Rightarrow> bool" for n0 where
  start: "node_reach n0 n0"
| step: "node_reach n0 n \<Longrightarrow> node_step n n' \<Longrightarrow> node_reach n0 n'"

lemma command_ok:
  assumes "at_ok s" "\<not> chip_reset s" "\<forall>r. find_command argv = Some r \<longrightarrow> \<not> other_request r"
    and "processCommand other e cur ip s argv = Some s'"
  shows "at_ok s'"
proof (cases "find_command argv")
  case None
  then show ?thesis using assms(1,4) by (auto simp: processCommand_def split: if_splits)
next
  case (Some r)
  then show ?thesis
    using run_command_ok [OF assms(1) _ _ assms(2)] assms(3,4) processCommand_run [OF Some] by auto
qed

lemma node_step_ok: "node_step n n' \<Longrightarrow> at_ok (nd_at n) \<Longrightarrow> at_ok (nd_at n')"
  by (induction rule: node_step.induct) (auto intro: command_ok proc_ok)

lemma node_reach_ok: "node_reach n0 n \<Longrightarrow> at_ok (nd_at n0) \<Longrightarrow> at_ok (nd_at n)"
  by (induction rule: node_reach.induct) (auto intro: node_step_ok)

text \<open>The effect of the callback on the link state.\<close>

lemma callback_link:
  "link_status (nd_at (AppEvtCallBack ev n)) =
     (case ev of
        SYS_EVT_DHCP_FAIL \<Rightarrow> if link_status (nd_at n) = SYS_EVT_LINK_UP then SYS_EVT_LINK_UP else ev
      | SYS_EVT_SCAN_DONE \<Rightarrow> if link_status (nd_at n) = SYS_EVT_LINK_UP then SYS_EVT_LINK_UP
          else if hd (Ssid (WiFiCfg (sys_param n))) = 0 then SYS_EVT_LINK_DOWN else ev
      | _ \<Rightarrow> ev)"
  by (cases ev) (simp_all add: AppEvtCallBack_def Let_def)

lemma up_services:
  assumes ap: "is_softap n" "bDhcpServer (sys_param n) \<noteq> 0" "bDnsServer (sys_param n) \<noteq> 0"
    and name: "length (cstring (cfg_DnsName (sys_param n))) \<le> 32"
    and pcb: "dhcps_pcb e \<noteq> 0" "dnss_pcb e \<noteq> None"
    and net: "host_bits (view_of (nd_if (LoadStaticParam n))) k"
      "host_of (view_of (nd_if (LoadStaticParam n))) + DHCPS_HISTORY_CLIENT_NUM < 2 ^ k - 1"
  shows "\<exists>d. DHCPS_Start (dhcps_pcb e) (view_of (nd_if (LoadStaticParam n))) (nd_dhcps n) = Some (d, DHCPS_ERR_SUCCESS)
    \<and> L2LinkUp e n = Some ((LoadStaticParam n)\<lparr>nd_dhcps := d, nd_dnss :=
        \<lparr>Socket = dnss_pcb e, DnsName = name_array (cstring (cfg_DnsName (sys_param n))),
         HostIp = if_ip (nd_if (LoadStaticParam n))\<rparr>\<rparr>, 0)"
proof -
  let ?n = "LoadStaticParam n"
  have up: "nif_up (view_of (nd_if ?n))" by (simp add: LoadStaticParam_def view_of_def Let_def)
  obtain d where d: "DHCPS_Start (dhcps_pcb e) (view_of (nd_if ?n)) (nd_dhcps n) = Some (d, DHCPS_ERR_SUCCESS)"
    using start_ok [OF net(1) up pcb(1) net(2)] by blast
  have "nd_dhcps ?n = nd_dhcps n" "if_up (nd_if ?n)" by (simp_all add: LoadStaticParam_def Let_def)
  moreover have "\<not> uses_client n" using ap(1) by (simp add: uses_client_def is_softap_def)
  moreover have "is_softap ?n" using ap(1) by (simp add: is_softap_def)
  ultimately show ?thesis
    using ap pcb(2) name d
    by (simp add: L2LinkUp_def start_dhcps_def start_dnss_def DNSS_Start_def name_array_def Let_def not_less)
qed
section \<open>Properties\<close>


definition node_start :: node where
  "node_start = \<lparr>nd_at = at_start\<lparr>inf := (inf at_start)\<lparr>SysEvtCB := 1\<rparr>\<rparr>,
     nd_if = \<lparr>if_up = False, if_ip = 0, if_netmask = 0, if_gw = 0, if_dns = 0, if_client = False\<rparr>,
     nd_dhcps = example_before, nd_dnss = dns_server_zero, nd_removed = [], nd_msgs = [], ScanFlag = 0, TestAirkissFlag = 0\<rparr>"

lemma node_start_ok: "at_ok (nd_at node_start)"
  using at_start_ok by (simp add: node_start_def at_ok_def sys_ok_def)


text \<open>When the link counts as up, for which the tasks of the data mode wait: after a message of the link coming up whose
  services start, and from then on until it goes down, joining fails, or a direct configuration ends; the end of a
  scan and a DHCP timeout do not take it down.\<close>

theorem link_status_machine:
  assumes "DefaultProc e m n = Some n'" "SysEvtCB (inf (nd_at n)) \<noteq> 0"
  shows "link_status (nd_at n') = SYS_EVT_LINK_UP \<longleftrightarrow>
     m = SYS_LINK_UP_ID \<and> (\<exists>n1. L2LinkUp e n = Some (n1, 0))
     \<or> m \<in> {SYS_LINK_UP_ID, SYS_DHCP_TIMEOUT_ID, SYS_SCAN_DONE_ID} \<and> link_status (nd_at n) = SYS_EVT_LINK_UP"
proof (cases "m = SYS_LINK_UP_ID")
  case True
  then obtain n1 r where l: "L2LinkUp e n = Some (n1, r)" "n' = (if r \<noteq> 0 then n1 else call_back SYS_EVT_LINK_UP n1)"
    using assms(1) by (auto simp: DefaultProc_def)
  then show ?thesis using True assms(2) link_up_at [OF l(1)] by (simp add: call_back_def callback_link)
next
  case False
  then show ?thesis using assms by (cases m) (auto simp: DefaultProc_def call_back_def callback_link split: if_splits)
qed

lemma link_status_machine_witness:
  "\<exists>n'. DefaultProc undefined SYS_DHCP_TIMEOUT_ID (node_start\<lparr>nd_at := (nd_at node_start)\<lparr>link_status := SYS_EVT_LINK_UP\<rparr>\<rparr>) = Some n'
    \<and> link_status (nd_at n') = SYS_EVT_LINK_UP"
proof -
  let ?s = "node_start\<lparr>nd_at := (nd_at node_start)\<lparr>link_status := SYS_EVT_LINK_UP\<rparr>\<rparr>"
  obtain n' where p: "DefaultProc undefined SYS_DHCP_TIMEOUT_ID ?s = Some n'" by (simp add: DefaultProc_def)
  have "SysEvtCB (inf (nd_at ?s)) \<noteq> 0" by (simp add: node_start_def)
  then show ?thesis using link_status_machine [OF p] p by simp
qed

text \<open>C38: an access point comes up.  With both servers configured, a name that fits and a subnet with room for the pool,
  the message of the link being up leaves the interface with the configured address, the link state up, the DNS
  server answering the configured name with that address, and the DHCP server in a state from which, whatever
  datagrams, ticks and deletions follow, no two clients ever hold the same address nor the address of the unit.\<close>

theorem access_point_serves:
  assumes ap: "is_softap n" "bDhcpServer (sys_param n) \<noteq> 0" "bDnsServer (sys_param n) \<noteq> 0" "SysEvtCB (inf (nd_at n)) \<noteq> 0"
    and name: "name = cstring (cfg_DnsName (sys_param n))" "length name < 32"
    and pcb: "dhcps_pcb e \<noteq> 0" "dnss_pcb e \<noteq> None"
    and net: "v = view_of (nd_if (LoadStaticParam n))" "host_bits v k" "host_of v + DHCPS_HISTORY_CLIENT_NUM < 2 ^ k - 1"
    and msg: "length (DhcpMsg (nd_dhcps n)) = DHCP_MSG_SIZE"
    and ls: "ls \<noteq> []" "\<forall>l\<in>set ls. label_ok l" "length (dns_labels ls) < 2 ^ 32" "name_match name ls"
    and hdr: "length tid = 2" "length hdr = 9" "flag1 AND 0x80 = 0" "flag1 AND 0x78 = 0"
  shows "\<exists>n'. DefaultProc e SYS_LINK_UP_ID n = Some n' \<and> link_status (nd_at n') = SYS_EVT_LINK_UP
    \<and> if_up (nd_if n') \<and> if_ip (nd_if n') = IP4_ADDR (Ip (IPCfg (sys_param n)))
    \<and> DNSS_RecvCb (\<lambda>n. True) (\<lambda>n. True) (nd_dnss n') (dns_query tid flag1 hdr ls (lwip_htons 1) cls rest) =
        Some (Some (dns_answer_reply tid ls (lwip_htons 1) cls (if_ip (nd_if n'))))
    \<and> (\<forall>d i j. dhcp_reach (nd_dhcps n') d \<and> i < DHCPS_HISTORY_CLIENT_NUM \<and> j < DHCPS_HISTORY_CLIENT_NUM \<and> i \<noteq> j
         \<and> active (ds_Clients (DhcpServer d) ! i) \<and> active (ds_Clients (DhcpServer d) ! j) \<longrightarrow>
         cl_IpAddr (ds_Clients (DhcpServer d) ! i) \<noteq> cl_IpAddr (ds_Clients (DhcpServer d) ! j)
         \<and> cl_IpAddr (ds_Clients (DhcpServer d) ! i) \<noteq> if_ip (nd_if n'))"
proof -
  have "length (cstring (cfg_DnsName (sys_param n))) \<le> 32" using name by simp
  from up_services [OF ap(1-3) this pcb net(2,3) [unfolded net(1)]]
  obtain d where d: "DHCPS_Start (dhcps_pcb e) v (nd_dhcps n) = Some (d, DHCPS_ERR_SUCCESS)"
    and up: "L2LinkUp e n = Some ((LoadStaticParam n)\<lparr>nd_dhcps := d, nd_dnss :=
        \<lparr>Socket = dnss_pcb e, DnsName = name_array name, HostIp = if_ip (nd_if (LoadStaticParam n))\<rparr>\<rparr>, 0)"
    unfolding net(1) name(1) by blast
  have "0 \<notin> set name" unfolding name(1) cstring_def by (metis (mono_tags) set_takeWhileD)
  note dns = recv_query [OF name(2) this ls(1-3) hdr]
  define n' where "n' = call_back SYS_EVT_LINK_UP ((LoadStaticParam n)\<lparr>nd_dhcps := d, nd_dnss :=
        \<lparr>Socket = dnss_pcb e, DnsName = name_array name, HostIp = if_ip (nd_if (LoadStaticParam n))\<rparr>\<rparr>)"
  have n': "DefaultProc e SYS_LINK_UP_ID n = Some n'" by (simp add: DefaultProc_def up n'_def)
  have f: "nd_if n' = nd_if (LoadStaticParam n)" "nd_dhcps n' = d"
    "DnsName (nd_dnss n') = name_array name" "HostIp (nd_dnss n') = if_ip (nd_if (LoadStaticParam n))"
    "link_status (nd_at n') = SYS_EVT_LINK_UP"
    using ap(4) by (simp_all add: n'_def call_back_def AppEvtCallBack_def Let_def)
  have ip: "if_ip (nd_if (LoadStaticParam n)) = IP4_ADDR (Ip (IPCfg (sys_param n)))" "if_up (nd_if (LoadStaticParam n))"
    "nif_ip_addr v = if_ip (nd_if (LoadStaticParam n))"
    unfolding net(1) by (simp_all add: LoadStaticParam_def view_of_def Let_def)
  show ?thesis
    using n' f ip ls(4) dns [of "lwip_htons 1" cls "nd_dnss n'" rest] leases_apart [OF d net(2,3) msg] by auto
qed

text \<open>With its default parameters the unit is such an access point, 192.168.0.1 and local.nufront.\<close>

lemma access_point_serves_witness:
  "\<exists>n'. DefaultProc \<lparr>looks = [], dhcps_pcb = 7, dnss_pcb = Some 8\<rparr> SYS_LINK_UP_ID node_start = Some n'
    \<and> link_status (nd_at n') = SYS_EVT_LINK_UP \<and> if_ip (nd_if n') = 0x0100a8c0"
proof -
  let ?e = "\<lparr>looks = [], dhcps_pcb = 7, dnss_pcb = Some 8\<rparr>" let ?v = "view_of (nd_if (LoadStaticParam node_start))"
  have p: "sys_param node_start = SysParam (InfLoadDefaultParam sys_zero)" by (simp add: node_start_def at_start_def)
  have cfg: "is_softap node_start" "bDhcpServer (sys_param node_start) \<noteq> 0" "bDnsServer (sys_param node_start) \<noteq> 0"
    "SysEvtCB (inf (nd_at node_start)) \<noteq> 0" "length (DhcpMsg (nd_dhcps node_start)) = DHCP_MSG_SIZE"
    unfolding is_softap_def p by (simp_all add: InfLoadDefaultParam_def node_start_def example_before_def)
  have name: "ascii ''local.nufront'' = cstring (cfg_DnsName (sys_param node_start))"
    unfolding p by (simp add: InfLoadDefaultParam_def cstring_def pad_def ascii_def)
  have ip: "IP4_ADDR (Ip (IPCfg (sys_param node_start))) = 0x0100a8c0" unfolding p
    by (simp add: InfLoadDefaultParam_def IP4_ADDR_def)
  have v: "?v = \<lparr>nif_up = True, nif_ip_addr = 0x0100a8c0, nif_netmask = 0x00ffffff\<rparr>"
    using ip unfolding p by (simp add: LoadStaticParam_def view_of_def Let_def p InfLoadDefaultParam_def IP4_ADDR_def)
  have net: "host_bits ?v 8" "host_of ?v = 1"
    unfolding v by (simp_all add: host_bits_def host_of_def lwip_htonl_def mask_eq_exp_minus_1)
  let ?ls = "[ascii ''local'', ascii ''nufront'']"
  have ls: "?ls \<noteq> []" "length (ascii ''local.nufront'') < 32" "\<forall>l\<in>set ?ls. label_ok l" "length (dns_labels ?ls) < 2 ^ 32" "name_match (ascii ''local.nufront'') ?ls"
    by (simp_all add: label_ok_def dns_labels_def name_match_def char_match_def Nst_ToUpper_def ascii_def)
  show ?thesis
    using access_point_serves [of node_start "ascii ''local.nufront''" ?e ?v 8 ?ls "[7, 9]" "replicate 9 0" 1 0 "[]",
        OF cfg(1-4) name ls(2) _ _ refl net(1) _ cfg(5) ls(1,3-5)] net(2) by (auto simp: ip)
qed

text \<open>The link going down stops the servers only while the unit is still an access point.  The end of a direct
  configuration changes the mode at once and asks the WiFi task to stop; its message comes later, finds another
  mode, and leaves the DHCP server running on an interface without an address.\<close>

theorem servers_outlive_access_point:
  assumes "is_softap n" "bDhcpServer (sys_param n) \<noteq> 0" "SysEvtCB (inf (nd_at n)) \<noteq> 0"
  shows "\<exists>n1 n2. DefaultProc e SYS_DIRECT_CFG_DONE_ID n = Some n1 \<and> DefaultProc e SYS_LINK_DOWN_ID n1 = Some n2
      \<and> nd_dhcps n2 = nd_dhcps n \<and> if_ip (nd_if n2) = 0
      \<and> (\<exists>n3. DefaultProc e SYS_LINK_DOWN_ID n = Some n3 \<and> ds_Enable (DhcpServer (nd_dhcps n3)) = 0)"
proof -
  have "nd_dhcps (call_back ev m) = nd_dhcps m \<and> nd_if (call_back ev m) = nd_if m" for ev m
    by (cases ev) (simp_all add: call_back_def AppEvtCallBack_def Let_def)
  moreover have "\<not> is_softap (call_back SYS_EVT_DIRECT_CFG_DONE n)"
    using assms(3) by (simp add: call_back_def AppEvtCallBack_def Let_def is_softap_def upd_inf_def InfNetModeSet_def
        InfWiFiStart_def InfWiFiStop_def PostTaskMsg_def say_def)
  moreover have "is_softap (upd_if f m) = is_softap m" for f m by (simp add: is_softap_def)
  ultimately show ?thesis
    using assms(1,2) by (simp add: DefaultProc_def L2LinkDown_def Let_def DHCPS_Stop_def zero_server_def)
qed

lemma servers_outlive_access_point_witness:
  "\<exists>n1 n2. DefaultProc undefined SYS_DIRECT_CFG_DONE_ID node_start = Some n1
    \<and> DefaultProc undefined SYS_LINK_DOWN_ID n1 = Some n2 \<and> nd_dhcps n2 = nd_dhcps node_start"
proof -
  have "is_softap node_start" "bDhcpServer (sys_param node_start) \<noteq> 0" "SysEvtCB (inf (nd_at node_start)) \<noteq> 0"
    by (simp_all add: is_softap_def node_start_def at_start_def InfLoadDefaultParam_def)
  from servers_outlive_access_point [OF this] show ?thesis by blast
qed

text \<open>A DHCP server that could not be started goes unnoticed when the DNS server starts.\<close>

lemma dhcp_failure_hidden:
  assumes "is_softap n" "bDhcpServer (sys_param n) \<noteq> 0" "bDnsServer (sys_param n) \<noteq> 0"
    "length (cstring (cfg_DnsName (sys_param n))) \<le> 32" "dnss_pcb e \<noteq> None"
    "DHCPS_Start (dhcps_pcb e) (view_of (nd_if (LoadStaticParam n))) (nd_dhcps n) = Some (d, DHCPS_ERR_MEM)"
  shows "\<exists>n'. L2LinkUp e n = Some (n', 0)"
proof -
  have "nd_dhcps (LoadStaticParam n) = nd_dhcps n" "if_up (nd_if (LoadStaticParam n))"
    by (simp_all add: LoadStaticParam_def Let_def)
  moreover have "\<not> uses_client n" using assms(1) by (simp add: uses_client_def is_softap_def)
  moreover have "is_softap (LoadStaticParam n)" using assms(1) by (simp add: is_softap_def)
  ultimately show ?thesis
    using assms by (simp add: L2LinkUp_def start_dhcps_def start_dnss_def DNSS_Start_def Let_def not_less)
qed

end
