(* ===== verification/Provision.thy ===== *)
theory Provision
  imports DnsServer FlashParam
begin

text \<open>
  How the unit learns the network it is to join, and the scan: the threads behind the commands \<open>AT+WSACONF\<close> and
  \<open>AT+WSCANAP\<close> of \<^verbatim>\<open>App/SerialNet/at_cmd.c\<close>.  \<open>SoftApConfThread\<close> opens an access point and waits for a datagram of
  200 bytes that carries the name and the password of a network.  Parameters are the memory got from \<open>OSMMalloc\<close>,
  the contents of the uninitialised arrays on the stack, the results of the socket calls, the link state the thread
  sees, and the datagrams.  \<^term>\<open>None\<close> is an access outside of an array; \<open>held\<close> are the blocks allocated and not yet
  freed.  Debug output is left out.
\<close>

record conf =
  cf_at :: at_sys
  cf_scan :: u8
  held :: "u32 list"

definition upd_conf :: "(at_sys \<Rightarrow> at_sys) \<Rightarrow> conf \<Rightarrow> conf" where
  "upd_conf f c = c\<lparr>cf_at := f (cf_at c)\<rparr>"

section \<open>The configuration datagram\<close>

datatype conf_packet = Ignored | Refused "u8 list" "u8 list" | Network "u8 list" "u8 list"

text \<open>The two loops over \<open>j\<close> leave it at the length, and the NUL goes to the place behind.\<close>

definition fill :: "u8 list \<Rightarrow> u8 list \<Rightarrow> u8 list option" where
  "fill arr xs = do { arr \<leftarrow> mem_put arr 0 xs; mem_put arr (length xs + 1) [0] }"

definition conf_recv :: "u8 list \<Rightarrow> u8 list \<Rightarrow> u8 list \<Rightarrow> conf_packet option" where
  "conf_recv ssid password recv_data =
     (if length recv_data \<noteq> 200 then Some Ignored
      else if take 8 recv_data \<noteq> [0, 1, 2, 3, 4, 5, 6, 7] then Some Ignored
      else
        let ssid_len = unat (recv_data ! 8) in
        if 32 < ssid_len \<or> ssid_len = 0 then Some (Refused ssid password)
        else do {
          ssid \<leftarrow> fill ssid (take ssid_len (drop 9 recv_data));
          let password_len = unat (recv_data ! (9 + ssid_len));
          if 64 < password_len then Some (Refused ssid password)
          else do {
            password \<leftarrow> fill password (take password_len (drop (10 + ssid_len) recv_data));
            Some (Network ssid password) } })"

text \<open>\<open>InfSsidSet(ssid, strlen(ssid))\<close> and the key.\<close>

definition join_network :: "u8 list \<Rightarrow> u8 list \<Rightarrow> at_sys \<Rightarrow> at_sys option" where
  "join_network ssid password s = do {
     let s = upd_inf (InfNetModeSet 0) (upd_inf InfWiFiStop s);
     n \<leftarrow> strlen ssid;
     (i, _) \<leftarrow> InfSsidSet (Some ssid) (of_nat n) (inf s);
     k \<leftarrow> strlen password;
     (i, _) \<leftarrow> InfKeySet 0 (Some password) (of_nat k) i;
     let s = upd_inf (InfConTryTimesSet 5) (s\<lparr>inf := i\<rparr>);
     let s = upd_wifi_of (\<lambda>w. w\<lparr>Encry := 4\<rparr>) s;
     Some (upd_inf InfWiFiStart s) }"

section \<open>The thread\<close>

record conf_env =
  ce_malloc :: u32
  ce_ssid :: "u8 list"
  ce_password :: "u8 list"
  ce_link :: sys_evt
  ce_socket :: int
  ce_bind :: int
  ce_rounds :: "(sys_evt \<times> u8 list option) list"

definition soft_ap_start :: "at_sys \<Rightarrow> at_sys option" where
  "soft_ap_start s = do {
     let s = upd_inf (InfNetModeSet 2) (upd_inf InfWiFiStop s);
     let s = s\<lparr>inf := (inf s)\<lparr>SysParam := (SysParam (inf s))\<lparr>IPCfg := (IPCfg (SysParam (inf s)))\<lparr>
           Ip := (Ip (IPCfg (SysParam (inf s))))[0 := 10, 1 := 10, 2 := 10, 3 := 1]\<rparr>\<rparr>\<rparr>\<rparr>;
     let s = upd_wifi_of (\<lambda>w. w\<lparr>Encry := 3, AuthMode := 3\<rparr>) s;
     let mac = PermanentAddress (inf s);
     let wifissid = ascii ''NL6621-'' @ fmt_02x (mac ! 2) @ fmt_02x (mac ! 3) @ fmt_02x (mac ! 4) @ fmt_02x (mac ! 5);
     (i, _) \<leftarrow> InfSsidSet (Some (wifissid @ [0])) (of_nat (length wifissid)) (inf s);
     (i, _) \<leftarrow> InfKeySet 0 (Some (ascii ''12345678'' @ [0])) 8 i;
     Some (upd_inf InfWiFiStart (s\<lparr>inf := i\<rparr>)) }"

text \<open>\<open>END\<close>: the buffer, the descriptor, and the two arrays, which are cleared up to their first NUL.\<close>

definition conf_end :: "u32 \<Rightarrow> int \<Rightarrow> u8 list \<Rightarrow> u8 list \<Rightarrow> conf \<Rightarrow> conf option" where
  "conf_end recv_data fd ssid password c = do {
     let c = (if recv_data \<noteq> 0 then c\<lparr>held := remove1 recv_data (held c)\<rparr> else c);
     let c = (if 0 \<le> fd then upd_conf (lwip_close fd) c else c);
     _ \<leftarrow> strlen ssid;
     _ \<leftarrow> strlen password;
     Some c }"

text \<open>The rounds of the receiving loop; the flag says whether the thread has ended.\<close>

fun conf_loop :: "conf_env \<Rightarrow> (sys_evt \<times> u8 list option) list \<Rightarrow> conf \<Rightarrow> (conf \<times> bool) option" where
  "conf_loop e [] c = Some (c, False)"
| "conf_loop e ((link, datagram) # rounds) c =
     (let quit = (\<lambda>ssid password c. map_option (\<lambda>c. (c, True)) (conf_end (ce_malloc e) (ce_socket e) ssid password c)) in
      if link \<noteq> SYS_EVT_LINK_UP then quit (ce_ssid e) (ce_password e) c
      else case datagram of
        None \<Rightarrow> conf_loop e rounds c
      | Some recv_data \<Rightarrow>
          (case conf_recv (ce_ssid e) (ce_password e) recv_data of
             None \<Rightarrow> None
           | Some Ignored \<Rightarrow> conf_loop e rounds c
           | Some (Refused ssid password) \<Rightarrow> quit ssid password c
           | Some (Network ssid password) \<Rightarrow> do {
               s \<leftarrow> join_network ssid password (cf_at c);
               quit ssid password (c\<lparr>cf_at := s\<rparr>) }))"

definition SoftApConfThread :: "conf_env \<Rightarrow> conf \<Rightarrow> (conf \<times> bool) option" where
  "SoftApConfThread e c =
     (let quit = (\<lambda>fd c. map_option (\<lambda>c. (c, True)) (conf_end (ce_malloc e) fd (ce_ssid e) (ce_password e) c)) in
      if ce_malloc e = 0 then quit 0 c
      else do {
        let c = c\<lparr>held := ce_malloc e # held c\<rparr>;
        s \<leftarrow> soft_ap_start (cf_at c);
        let c = c\<lparr>cf_at := s\<rparr>;
        if ce_link e \<noteq> SYS_EVT_LINK_UP then quit 0 c
        else if ce_socket e = -1 then quit (ce_socket e) (upd_conf (say ''+ERROR=%d'' [I (-31)]) c)
        else if ce_bind e = -1 then quit (ce_socket e) c
        else conf_loop e (ce_rounds e) c })"

section \<open>The scan\<close>

text \<open>\<open>table\<close> is the table of networks the library fills in: its count, and what is printed of each entry; \<open>done_first\<close>
  whether the scan ends.  \<^term>\<open>None\<close> is that the command waits forever.\<close>

record scan_env =
  se_malloc :: u32
  se_count :: u8
  se_entries :: "nat \<Rightarrow> at_arg list"
  se_done :: bool

definition responseWSCANAP :: "scan_env \<Rightarrow> conf \<Rightarrow> u8 list list \<Rightarrow> conf option" where
  "responseWSCANAP e c argv =
     (if se_malloc e = 0 then Some (upd_conf (error (-9)) c)
      else
        let c = c\<lparr>held := se_malloc e # held c\<rparr> in
        if length argv = 2 \<and> is_num (argv ! 1) \<and> length (argv ! 1) \<noteq> 0 then
          let MinRssiFilter = word_of_int (atoi (argv ! 1)) :: u8 in
          if 127 < sint MinRssiFilter then Some (upd_conf (error INVALID_PARAMETER) c)
          else do {
            let s = say ''+OK:scanning...'' [] (cf_at c);
            s \<leftarrow> (if \<not> link_started s
                  then map_option (\<lambda>(i, _). upd_inf InfWiFiStart (s\<lparr>inf := i\<rparr>)) (InfSsidSet None 0 (inf s)) else Some s);
            let (i, ret) = InfScanStart (Some (se_malloc e, 32)) (- MinRssiFilter) 0 (inf s);
            let c = c\<lparr>cf_at := s\<lparr>inf := i\<rparr>, cf_scan := 0\<rparr>;
            if ret \<noteq> 0 then Some (upd_conf (error (-9)) c)
            else if \<not> se_done e then None
            else do {
              let s = cf_at c;
              let s = (if hd (Ssid (wifi_of s)) = 0 then upd_inf InfWiFiStop s else s);
              let s = say ''Scan number:%d'' [I (uint (se_count e))] s;
              let s = s\<lparr>out := out s @ (''+++++++ SCAN TABLE +++++++'', [])
                  # map (\<lambda>k. (''Ssid:%s, Channel:%d, EncryMode:%d, AuthMode:%d, Rssi:%d.'', se_entries e k)) [0..<unat (se_count e)]
                  @ [(''+++++++ SCAN TABLE +++++++'', [])]\<rparr>;
              Some (c\<lparr>cf_at := say ''+OK:ScanFinish'' [] s, cf_scan := 1, held := remove1 (se_malloc e) (held c)\<rparr>) } }
        else Some (upd_conf (error INVALID_PARAMETER) c))"

section \<open>What a datagram holds\<close>

lemma strlen_at:
  "0 \<notin> set xs \<Longrightarrow> strlen (xs @ 0 # rest) = Some (length xs)"
  by (induction xs) auto

text \<open>An array filled with a text: the text, the byte that was there, a NUL.\<close>

lemma fill_Some:
  assumes "length xs + 2 \<le> length arr"
  shows "fill arr xs = Some (xs @ arr ! length xs # 0 # drop (length xs + 2) arr)"
proof -
  have "drop (length xs) arr = arr ! length xs # drop (Suc (length xs)) arr"
    using assms by (simp add: Cons_nth_drop_Suc)
  moreover have "drop (Suc (length xs)) arr = arr ! Suc (length xs) # drop (length xs + 2) arr"
    using assms by (simp add: Cons_nth_drop_Suc)
  ultimately show ?thesis using assms by (simp add: fill_def mem_put_def)
qed

lemma fill_fault: "length arr < length xs + 2 \<Longrightarrow> fill arr xs = None"
  by (auto simp: fill_def mem_put_def)

text \<open>The datagram for a name and a password.\<close>

definition conf_datagram :: "u8 list \<Rightarrow> u8 list \<Rightarrow> u8 list" where
  "conf_datagram name key = pad 200 ([0, 1, 2, 3, 4, 5, 6, 7] @ of_nat (length name) # name @ of_nat (length key) # key)"

text \<open>The text as \<open>strlen\<close> finds it in the filled array.\<close>

definition found :: "u8 list \<Rightarrow> u8 list \<Rightarrow> u8 list" where
  "found arr xs = (if arr ! length xs = 0 then xs else xs @ [arr ! length xs])"

lemma strlen_fill:
  assumes "length xs + 2 \<le> length arr" "0 \<notin> set xs" "fill arr xs = Some a"
  shows "strlen a = Some (length (found arr xs)) \<and> take (length (found arr xs)) a = found arr xs"
proof -
  have a: "a = xs @ arr ! length xs # 0 # drop (length xs + 2) arr" using assms(1,3) fill_Some by simp
  show ?thesis
  proof (cases "arr ! length xs = 0")
    case True
    then show ?thesis using strlen_at [OF assms(2)] by (simp add: a found_def)
  next
    case False
    then show ?thesis using strlen_at [of "xs @ [arr ! length xs]"] assms(2) by (simp add: a found_def)
  qed
qed

lemma conf_recv_datagram:
  assumes "0 < length name" "length name \<le> 32" "length key \<le> 64"
  shows "conf_recv ssid password (conf_datagram name key) =
     do { s \<leftarrow> fill ssid name; p \<leftarrow> fill password key; Some (Network s p) }"
proof -
  have len: "length (conf_datagram name key) = 200" using assms by (simp add: conf_datagram_def pad_def)
  have n: "unat (of_nat (length name) :: u8) = length name" "unat (of_nat (length key) :: u8) = length key"
    using assms by (simp_all add: unat_of_nat)
  let ?d = "conf_datagram name key" let ?z = "replicate (190 - (length name + length key)) (0 :: u8)"
  have d: "?d = [0, 1, 2, 3, 4, 5, 6, 7] @ of_nat (length name) # name @ of_nat (length key) # key @ ?z"
    using assms by (simp add: conf_datagram_def pad_def)
  have "take 8 ?d = [0, 1, 2, 3, 4, 5, 6, 7]" "?d ! 8 = of_nat (length name)"
    "take (length name) (drop 9 ?d) = name" "?d ! (9 + length name) = of_nat (length key)"
    unfolding d by (simp_all add: nth_append)
  moreover have "take (length key) (drop (10 + length name) ?d) = key"
  proof -
    let ?p = "[0, 1, 2, 3, 4, 5, 6, 7] @ of_nat (length name) # name @ [of_nat (length key)]"
    have "?d = ?p @ key @ ?z" unfolding d by simp
    moreover have "10 + length name = length ?p" by simp
    ultimately show ?thesis by (simp only: append_eq_conv_conj drop_append) simp
  qed
  moreover have "\<not> 32 < length name" "\<not> 64 < length key" "name \<noteq> []" using assms by auto
  ultimately show ?thesis
    unfolding conf_recv_def Let_def len by (simp add: n)
qed

lemma ssid_set:
  assumes "sys_ok i" "0 < n" "n \<le> 32" "n \<le> length buf"
  shows "InfSsidSet (Some buf) (of_nat n) i =
     Some (upd_wifi (\<lambda>w. w\<lparr>Ssid := take n buf @ 0 # drop (Suc n) (Ssid (wifi i))\<rparr>) i, 0)"
proof -
  have u: "unat (of_nat n :: u8) = n" using assms(3) by (simp add: unat_of_nat)
  have l: "length (Ssid (wifi i)) = 33" using assms(1) by (simp add: sys_ok_defs)
  have "\<not> (32 :: u8) < of_nat n" "of_nat n \<noteq> (0 :: u8)" using assms(2,3) u by (auto simp: word_less_nat_alt unat_eq_0 [symmetric])
  moreover have "drop n (Ssid (wifi i)) = Ssid (wifi i) ! n # drop (Suc n) (Ssid (wifi i))"
    using l assms(3) by (simp add: Cons_nth_drop_Suc)
  ultimately show ?thesis using assms(3,4) l
    by (simp add: InfSsidSet_def copy_in_def mem_get_def mem_put_def u list_update_append)
qed

lemma key_set:
  assumes "sys_ok i" "n < 64" "n \<le> length buf"
  shows "InfKeySet 0 (Some buf) (of_nat n) i =
     Some (upd_wifi (\<lambda>w. w\<lparr>KeyIndex := 0, KeyLength := of_nat n, PSK := take n buf @ 0 # drop (Suc n) (PSK (wifi i))\<rparr>) i, 0)"
proof -
  have u: "unat (of_nat n :: u8) = n" using assms(2) by (simp add: unat_of_nat)
  have l: "length (PSK (wifi i)) = 64" using assms(1) by (simp add: sys_ok_defs)
  have "\<not> (64 :: u8) < of_nat n" "of_nat n < (64 :: u8)" using assms(2) u by (auto simp: word_less_nat_alt)
  moreover have "drop n (PSK (wifi i)) = PSK (wifi i) ! n # drop (Suc n) (PSK (wifi i))"
    using l assms(2) by (simp add: Cons_nth_drop_Suc)
  ultimately show ?thesis using assms(2,3) l
    by (simp add: InfKeySet_def copy_in_def mem_get_def mem_put_def u list_update_append Let_def)
qed

lemma wifi_value_ok:
  "sys_ok i \<Longrightarrow> e \<le> 4 \<Longrightarrow> sys_ok (upd_wifi (\<lambda>w. w\<lparr>Encry := e\<rparr>) i)"
  "sys_ok i \<Longrightarrow> e \<le> 4 \<Longrightarrow> a \<le> 3 \<Longrightarrow> sys_ok (upd_wifi (\<lambda>w. w\<lparr>Encry := e, AuthMode := a\<rparr>) i)"
  "sys_ok i \<Longrightarrow> sys_ok (i\<lparr>SysParam := (SysParam i)\<lparr>IPCfg := (IPCfg (SysParam i))\<lparr>
     Ip := (Ip (IPCfg (SysParam i)))[0 := a0, 1 := a1, 2 := a2, 3 := a3]\<rparr>\<rparr>\<rparr>)"
  by (auto simp: sys_ok_defs)

lemma start_ok_conf:
  assumes "sys_ok (inf s)"
  shows "\<exists>s'. soft_ap_start s = Some s' \<and> sys_ok (inf s') \<and> closed s' = closed s \<and> link_status s' = link_status s"
proof -
  let ?s1 = "upd_inf (InfNetModeSet 2) (upd_inf InfWiFiStop s)"
  let ?s2 = "?s1\<lparr>inf := (inf ?s1)\<lparr>SysParam := (SysParam (inf ?s1))\<lparr>IPCfg := (IPCfg (SysParam (inf ?s1)))\<lparr>
           Ip := (Ip (IPCfg (SysParam (inf ?s1))))[0 := 10, 1 := 10, 2 := 10, 3 := 1]\<rparr>\<rparr>\<rparr>\<rparr>"
  let ?s3 = "upd_wifi_of (\<lambda>w. w\<lparr>Encry := 3, AuthMode := 3\<rparr>) ?s2"
  have "sys_ok (inf ?s1)" using assms by (simp add: upd_inf_def set_value_ok request_ok)
  then have "sys_ok (inf ?s2)" using wifi_value_ok(3) by simp
  then have s3: "sys_ok (inf ?s3)" using wifi_value_ok(2) [of "inf ?s2" 3 3] by (simp add: upd_wifi_of_def upd_inf_def)
  let ?mac = "PermanentAddress (inf ?s3)"
  let ?w = "ascii ''NL6621-'' @ fmt_02x (?mac ! 2) @ fmt_02x (?mac ! 3) @ fmt_02x (?mac ! 4) @ fmt_02x (?mac ! 5)"
  have l: "length ?w = 15" by (simp add: fmt_02x_def ascii_def)
  obtain i1 where i1: "InfSsidSet (Some (?w @ [0])) (of_nat (length ?w)) (inf ?s3) = Some (i1, 0)" "sys_ok i1"
    using ssid_set [OF s3, of 15 "?w @ [0]"] l InfSsidSet_ok [OF _ s3] by fastforce
  obtain i2 where i2: "InfKeySet 0 (Some (ascii ''12345678'' @ [0])) 8 i1 = Some (i2, 0)" "sys_ok i2"
    using key_set [OF i1(2), of 8 "ascii ''12345678'' @ [0]"] InfKeySet_ok [OF _ i1(2)] by (fastforce simp: ascii_def)
  have "soft_ap_start s = Some (upd_inf InfWiFiStart (?s3\<lparr>inf := i2\<rparr>))"
    unfolding soft_ap_start_def Let_def i1(1) by (simp add: i2(1))
  moreover have "sys_ok (inf (upd_inf InfWiFiStart (?s3\<lparr>inf := i2\<rparr>)))"
    using i2(2) by (simp add: upd_inf_def request_ok)
  ultimately show ?thesis by (simp add: upd_inf_def upd_wifi_of_def)
qed

lemma strlen_bound: "strlen a = Some n \<Longrightarrow> n < length a \<and> 0 \<notin> set (take n a)"
  by (induction a arbitrary: n) (auto split: if_splits)

lemma join_ok:
  assumes s: "sys_ok (inf s)" and n: "strlen ssid = Some n" "0 < n" "n \<le> 32" and k: "strlen password = Some k" "k < 64"
  shows "\<exists>s'. join_network ssid password s = Some s' \<and> sys_ok (inf s') \<and> closed s' = closed s
    \<and> cstring (Ssid (wifi_of s')) = take n ssid \<and> take k (PSK (wifi_of s')) = take k password
    \<and> unat (KeyLength (wifi_of s')) = k \<and> Protocol (wifi_of s') = 0 \<and> Encry (wifi_of s') = 4
    \<and> last (mac_msgs (inf s')) = (MLME_START_ID, [])"
proof -
  let ?s1 = "upd_inf (InfNetModeSet 0) (upd_inf InfWiFiStop s)"
  have s1: "sys_ok (inf ?s1)" using s by (simp add: upd_inf_def set_value_ok request_ok)
  have len: "n < length ssid" "k < length password" "0 \<notin> set (take n ssid)"
    using strlen_bound [OF n(1)] strlen_bound [OF k(1)] by auto
  let ?i1 = "upd_wifi (\<lambda>w. w\<lparr>Ssid := take n ssid @ 0 # drop (Suc n) (Ssid (wifi (inf ?s1)))\<rparr>) (inf ?s1)"
  have i1: "InfSsidSet (Some ssid) (of_nat n) (inf ?s1) = Some (?i1, 0)"
    using ssid_set [OF s1 n(2,3)] len(1) by simp
  have ok1: "sys_ok ?i1" using InfSsidSet_ok [OF i1 s1] .
  let ?i2 = "upd_wifi (\<lambda>w. w\<lparr>KeyIndex := 0, KeyLength := of_nat k, PSK := take k password @ 0 # drop (Suc k) (PSK (wifi ?i1))\<rparr>) ?i1"
  have i2: "InfKeySet 0 (Some password) (of_nat k) ?i1 = Some (?i2, 0)"
    using key_set [OF ok1 k(2)] len(2) by simp
  have ok2: "sys_ok ?i2" using InfKeySet_ok [OF i2 ok1] .
  let ?s' = "upd_inf InfWiFiStart (upd_wifi_of (\<lambda>w. w\<lparr>Encry := 4\<rparr>) (upd_inf (InfConTryTimesSet 5) (?s1\<lparr>inf := ?i2\<rparr>)))"
  have j: "join_network ssid password s = Some ?s'"
    unfolding join_network_def Let_def n(1) k(1) bind.bind_lunit prod.case i1 i2 by (simp only: prod.case bind.bind_lunit)
  have c: "sys_ok (fst (InfConTryTimesSet 5 ?i2))" by (rule set_value_ok(7) [OF ok2])
  have "sys_ok (inf ?s')"
    using wifi_value_ok(1) [OF c, of 4] by (simp add: upd_inf_def upd_wifi_of_def request_ok)
  moreover have "closed ?s' = closed s" by (simp add: upd_inf_def upd_wifi_of_def)
  moreover have "wifi_of ?s' = (wifi ?i2)\<lparr>ConTryTimes := 5, Encry := 4\<rparr>"
    by (simp add: upd_inf_def upd_wifi_of_def InfConTryTimesSet_def InfWiFiStart_def PostTaskMsg_def)
  moreover have "Protocol (wifi (inf ?s1)) = 0" by (simp add: upd_inf_def InfNetModeSet_def)
  moreover have "cstring (take n ssid @ 0 # xs) = take n ssid" for xs
    using len(3) by (auto simp: cstring_def takeWhile_append)
  moreover have "last (mac_msgs (inf ?s')) = (MLME_START_ID, [])"
    by (simp add: upd_inf_def InfWiFiStart_def PostTaskMsg_def)
  moreover have "unat (of_nat k :: u8) = k" using k(2) by (simp add: unat_of_nat)
  ultimately show ?thesis unfolding j using len(2) by (intro exI [of _ ?s']) (simp add: min_def)
qed

text \<open>Rounds without a datagram for the thread.\<close>

definition idle_round :: "conf_env \<Rightarrow> sys_evt \<times> u8 list option \<Rightarrow> bool" where
  "idle_round e r \<longleftrightarrow> fst r = SYS_EVT_LINK_UP
     \<and> (case snd r of None \<Rightarrow> True | Some d \<Rightarrow> conf_recv (ce_ssid e) (ce_password e) d = Some Ignored)"

lemma conf_loop_idle: "\<forall>r\<in>set idle. idle_round e r \<Longrightarrow> conf_loop e (idle @ rounds) c = conf_loop e rounds c"
proof (induction idle)
  case (Cons r idle)
  then show ?case by (cases r; cases "snd r") (auto simp: idle_round_def)
qed simp

lemma thread_loop:
  assumes "sys_ok (inf (cf_at c))" "ce_malloc e \<noteq> 0" "ce_link e = SYS_EVT_LINK_UP" "ce_socket e \<noteq> -1" "ce_bind e \<noteq> -1"
  shows "\<exists>s. SoftApConfThread e c = conf_loop e (ce_rounds e) (c\<lparr>held := ce_malloc e # held c, cf_at := s\<rparr>)
    \<and> sys_ok (inf s) \<and> closed s = closed (cf_at c)"
  using start_ok_conf [OF assms(1)] assms(2-) by (auto simp: SoftApConfThread_def Let_def)

section \<open>Properties\<close>

text \<open>C40: the thread of \<open>AT+WSACONF\<close> on the first proper datagram, whatever others come before: it joins the network
  named, stops listening and gives back its memory and its descriptor.  The name and the password are those sent, each
  with the byte appended that the stack happened to hold behind it, since the NUL is stored one place too far.  For
  the same reason a name of 32 bytes, or a password of 63 or more, is stored behind the end of its array.\<close>

theorem provision_joins:
  assumes "sys_ok (inf (cf_at c))" "ce_malloc e \<noteq> 0" "ce_link e = SYS_EVT_LINK_UP" "0 \<le> ce_socket e" "ce_bind e \<noteq> -1"
    and "length (ce_ssid e) = 33" "length (ce_password e) = 64"
    and "ce_rounds e = idle @ (SYS_EVT_LINK_UP, Some (conf_datagram name key)) # rest" "\<forall>r\<in>set idle. idle_round e r"
    and "0 < length name" "length name \<le> 32" "length key \<le> 64" "0 \<notin> set name" "0 \<notin> set key"
  shows "case SoftApConfThread e c of
      None \<Rightarrow> length name = 32 \<or> 63 \<le> length key
    | Some (c', ended) \<Rightarrow> length name \<le> 31 \<and> length key \<le> 62 \<and> ended
        \<and> held c' = held c \<and> closed (cf_at c') = closed (cf_at c) @ [ce_socket e] \<and> sys_ok (inf (cf_at c'))
        \<and> (let w = wifi_of (cf_at c') in
             cstring (Ssid w) = found (ce_ssid e) name \<and> take (unat (KeyLength w)) (PSK w) = found (ce_password e) key
             \<and> Protocol w = 0 \<and> last (mac_msgs (inf (cf_at c'))) = (MLME_START_ID, []))"
proof -
  let ?d = "conf_datagram name key" let ?f = "found (ce_ssid e) name" and ?g = "found (ce_password e) key"
  obtain s where s: "SoftApConfThread e c = conf_loop e (ce_rounds e) (c\<lparr>held := ce_malloc e # held c, cf_at := s\<rparr>)"
    "sys_ok (inf s)" "closed s = closed (cf_at c)"
    using thread_loop [OF assms(1-3) _ assms(5)] assms(4) by auto
  have r: "conf_recv (ce_ssid e) (ce_password e) ?d =
      do { s \<leftarrow> fill (ce_ssid e) name; p \<leftarrow> fill (ce_password e) key; Some (Network s p) }"
    by (rule conf_recv_datagram [OF assms(10,11,12)])
  have run: "SoftApConfThread e c = conf_loop e ((SYS_EVT_LINK_UP, Some ?d) # rest) (c\<lparr>held := ce_malloc e # held c, cf_at := s\<rparr>)"
    unfolding s(1) assms(8) by (rule conf_loop_idle [OF assms(9)])
  show ?thesis
  proof (cases "length name \<le> 31 \<and> length key \<le> 62")
    case False
    then have "length (ce_ssid e) < length name + 2 \<or> length (ce_password e) < length key + 2"
      using assms(6,7) by linarith
    then have "conf_recv (ce_ssid e) (ce_password e) ?d = None"
      unfolding r using fill_fault by (cases "fill (ce_ssid e) name") auto
    then have "SoftApConfThread e c = None" unfolding run by simp
    then show ?thesis using False assms(11) by auto
  next
    case True
    obtain a b where a: "fill (ce_ssid e) name = Some a" "fill (ce_password e) key = Some b"
      using fill_Some [of name "ce_ssid e"] fill_Some [of key "ce_password e"] True assms(6,7) by auto
    have f: "strlen a = Some (length ?f)" "take (length ?f) a = ?f" "strlen b = Some (length ?g)" "take (length ?g) b = ?g"
      using strlen_fill [OF _ assms(13) a(1)] strlen_fill [OF _ assms(14) a(2)] True assms(6,7) by simp_all
    have "0 < length ?f" "length ?f \<le> 32" "length ?g < 64" using True assms(10) by (auto simp: found_def)
    from join_ok [OF s(2) f(1) this(1,2) f(3) this(3)] obtain s' where j: "join_network a b s = Some s'" "sys_ok (inf s')"
      "closed s' = closed s" "cstring (Ssid (wifi_of s')) = ?f" "take (length ?g) (PSK (wifi_of s')) = ?g"
      "unat (KeyLength (wifi_of s')) = length ?g" "Protocol (wifi_of s') = 0" "last (mac_msgs (inf s')) = (MLME_START_ID, [])"
      unfolding f(2,4) by blast
    have "SoftApConfThread e c = map_option (\<lambda>c. (c, True)) (conf_end (ce_malloc e) (ce_socket e) a b
        (c\<lparr>held := ce_malloc e # held c, cf_at := s'\<rparr>))"
      unfolding run by (simp add: r a j(1))
    also have "\<dots> = Some (c\<lparr>held := held c, cf_at := lwip_close (ce_socket e) s'\<rparr>, True)"
      using assms(2,4) by (simp add: conf_end_def f(1,3) upd_conf_def)
    finally show ?thesis using True j s(3) by (simp add: lwip_close_def Let_def)
  qed
qed

definition conf_env0 :: conf_env where
  "conf_env0 = \<lparr>ce_malloc = 0x10004010, ce_ssid = replicate 33 0, ce_password = replicate 8 0x41 @ replicate 56 0, ce_link = SYS_EVT_LINK_UP,
     ce_socket = 3, ce_bind = 0,
     ce_rounds = [(SYS_EVT_LINK_UP, None)] @ (SYS_EVT_LINK_UP, Some (conf_datagram (ascii ''home'') (ascii ''secret''))) # []\<rparr>"

lemma provision_joins_witness:
  "\<exists>c'. SoftApConfThread conf_env0 \<lparr>cf_at = at_start, cf_scan = 0, held = []\<rparr> = Some (c', True)
    \<and> cstring (Ssid (wifi_of (cf_at c'))) = ascii ''home''
    \<and> take (unat (KeyLength (wifi_of (cf_at c')))) (PSK (wifi_of (cf_at c'))) = ascii ''secretA''"
proof -
  have s: "sys_ok (inf at_start)" "\<not> chip_reset at_start"
    using at_start_ok by (simp_all add: at_ok_def at_start_def)
  let ?c = "\<lparr>cf_at = at_start, cf_scan = 0, held = []\<rparr>"
  have f: "found (ce_ssid conf_env0) (ascii ''home'') = ascii ''home''" "found (ce_password conf_env0) (ascii ''secret'') = ascii ''secretA''"
    by (simp_all add: found_def conf_env0_def ascii_def nth_append)
  have l: "length (ascii ''home'') = 4" "length (ascii ''secret'') = 6" "0 \<notin> set (ascii ''home'')" "0 \<notin> set (ascii ''secret'')"
    by (simp_all add: ascii_def)
  have e: "ce_malloc conf_env0 \<noteq> 0" "ce_link conf_env0 = SYS_EVT_LINK_UP" "0 \<le> ce_socket conf_env0" "ce_bind conf_env0 \<noteq> -1"
    "length (ce_ssid conf_env0) = 33" "length (ce_password conf_env0) = 64" "\<forall>r\<in>set [(SYS_EVT_LINK_UP, None)]. idle_round conf_env0 r"
    "ce_rounds conf_env0 = [(SYS_EVT_LINK_UP, None)] @ (SYS_EVT_LINK_UP, Some (conf_datagram (ascii ''home'') (ascii ''secret''))) # []"
    by (simp_all add: conf_env0_def idle_round_def)
  show ?thesis
    using provision_joins [of ?c conf_env0, OF _ e(1-6) e(8,7)] s(1) l f by (auto simp: Let_def split: option.splits)
qed

text \<open>A thread that gives up early closes descriptor 0, the start value of the variable.\<close>

lemma conf_closes_zero:
  assumes "ce_malloc e = 0" "strlen (ce_ssid e) = Some n" "strlen (ce_password e) = Some k"
  shows "SoftApConfThread e c = Some (upd_conf (lwip_close 0) c, True)"
  using assms by (simp add: SoftApConfThread_def conf_end_def)

text \<open>A scan refused for its argument keeps the table it has allocated.\<close>

lemma scan_leaks:
  assumes "se_malloc e \<noteq> 0" "length argv \<noteq> 2"
  shows "\<exists>c'. responseWSCANAP e c argv = Some c' \<and> held c' = se_malloc e # held c"
  using assms by (simp add: responseWSCANAP_def upd_conf_def)

lemma filter_table:
  "list_all (\<lambda>k. (if 0 < sint (- (of_nat k :: u8)) then 0 else - of_nat k) = (if k \<le> 128 then - of_nat k else (0 :: u8))) [0..<256]"
  by code_simp

text \<open>\<open>AT+WSCANAP=n\<close> on a started link asks for a scan with the signal limit \<open>-(n mod 256)\<close>, or none when that is
  129 or more, since the test against 127 comes after the cut to a signed byte; when the scan ends, the table is
  printed and its memory given back.\<close>

theorem scan_request:
  assumes "se_malloc e \<noteq> 0" "se_done e" "link_started (cf_at c)" "n < 2 ^ 32" "hd (Ssid (wifi_of (cf_at c))) \<noteq> 0"
  shows "\<exists>c'. responseWSCANAP e c [cmd, dec n] = Some c' \<and> held c' = held c
    \<and> mac_msgs (inf (cf_at c')) = mac_msgs (inf (cf_at c))
        @ [(MLME_SCAN_REQUEST_ID, le32 (se_malloc e) @ [if n mod 256 \<le> 128 then - of_nat (n mod 256) else 0, 0])]"
proof -
  let ?m = "of_nat n :: u8"
  have num: "is_num (dec n)" "length (dec n) \<noteq> 0" "atoi (dec n) = int n"
    using assms(4) by (simp_all add: is_num_dec atoi_dec) (subst dec.simps, simp)
  have "unat (of_nat n :: u8) = unat (of_nat (n mod 256) :: u8)" by (simp add: unat_of_nat)
  then have m: "?m = of_nat (n mod 256)" by (simp add: word_unat_eq_iff)
  have lim: "\<not> 127 < sint ?m" using sint_lt [of ?m] by simp
  have filt: "(if 0 < sint (- ?m) then 0 else - ?m) = (if n mod 256 \<le> 128 then - of_nat (n mod 256) else 0)"
  proof -
    have tab: "\<forall>k\<in>{0..<256}. (if 0 < sint (- (of_nat k :: u8)) then 0 else - of_nat k) =
        (if k \<le> 128 then - of_nat k else (0 :: u8))"
      using filter_table by (simp only: list_all_iff set_upt)
    have "(if 0 < sint (- (of_nat (n mod 256) :: u8)) then 0 else - of_nat (n mod 256)) =
        (if n mod 256 \<le> 128 then - of_nat (n mod 256) else (0 :: u8))"
      by (rule bspec [OF tab]) simp
    then show ?thesis by (simp only: m)
  qed
  have scan: "InfScanStart (Some (p, 32)) (- ?m) 0 i =
      (PostTaskMsg MLME_SCAN_REQUEST_ID (le32 p @ [if n mod 256 \<le> 128 then - of_nat (n mod 256) else 0, 0]) i, 0)" for p i
    unfolding InfScanStart_def by (simp add: Let_def filt)
  have "link_started (say f a (cf_at c)) = link_started (cf_at c)" for f a by (simp add: link_started_def say_def)
  then show ?thesis
    using assms num lim
    by (simp add: responseWSCANAP_def Let_def scan) (simp add: PostTaskMsg_def say_def)
qed

definition scan_env0 :: scan_env where
  "scan_env0 = \<lparr>se_malloc = 0x10004010, se_count = 1, se_entries = (\<lambda>_. []), se_done = True\<rparr>"

lemma scan_request_witness:
  "\<exists>c'. responseWSCANAP scan_env0 \<lparr>cf_at = at_start\<lparr>link_status := SYS_EVT_LINK_UP\<rparr>, cf_scan = 0, held = []\<rparr> [ascii ''+WSCANAP'', dec 200] = Some c'
    \<and> mac_msgs (inf (cf_at c')) = [(MLME_SCAN_REQUEST_ID, le32 0x10004010 @ [0, 0])]"
proof -
  let ?c = "\<lparr>cf_at = at_start\<lparr>link_status := SYS_EVT_LINK_UP\<rparr>, cf_scan = 0, held = []\<rparr>"
  have "se_malloc scan_env0 \<noteq> 0" "se_done scan_env0" "link_started (cf_at ?c)" "(200 :: nat) < 2 ^ 31"
    by (simp_all add: scan_env0_def link_started_def)
  moreover have "hd (Ssid (wifi_of (cf_at ?c))) \<noteq> 0" "mac_msgs (inf (cf_at ?c)) = []"
    by (simp_all add: at_start_def InfLoadDefaultParam_def pad_def sys_zero_def)
  ultimately show ?thesis
    using scan_request [of scan_env0 ?c 200 "ascii ''+WSCANAP''"] by (auto simp: scan_env0_def)
qed

end
