(* ===== verification/PrioSet.thy ===== *)
theory PrioSet
  imports Prelude
begin

text \<open>
  The sets of task priorities of the kernel, \<^verbatim>\<open>uCOS-II/os_core.c\<close>: the ready list and the wait lists of the events are
  bitmaps of eight bytes with a ninth that says which of them are not zero, and a table finds the least priority, which
  is the most urgent.  The locale \<open>prio_queue\<close> is what the kernel relies on; it is interpreted on the bitmaps at the end.
\<close>

record prio_set =
  grp :: u8
  tbl :: "u8 list"

text \<open>The fields of a task control block that locate its priority in the bitmaps.\<close>

record tcb =
  OSTCBEventPtr :: "nat option"
  OSTCBMsg :: u32
  OSTCBDly :: u32
  OSTCBStat :: u8
  OSTCBStatPend :: u8
  OSTCBPrio :: u8
  OSTCBX :: u8
  OSTCBY :: u8
  OSTCBBitX :: u8
  OSTCBBitY :: u8

definition OSUnMapTbl :: "u8 list" where
  "OSUnMapTbl = [
     0, 0, 1, 0, 2, 0, 1, 0, 3, 0, 1, 0, 2, 0, 1, 0, 4, 0, 1, 0, 2, 0, 1, 0, 3, 0, 1, 0, 2, 0, 1, 0,
     5, 0, 1, 0, 2, 0, 1, 0, 3, 0, 1, 0, 2, 0, 1, 0, 4, 0, 1, 0, 2, 0, 1, 0, 3, 0, 1, 0, 2, 0, 1, 0,
     6, 0, 1, 0, 2, 0, 1, 0, 3, 0, 1, 0, 2, 0, 1, 0, 4, 0, 1, 0, 2, 0, 1, 0, 3, 0, 1, 0, 2, 0, 1, 0,
     5, 0, 1, 0, 2, 0, 1, 0, 3, 0, 1, 0, 2, 0, 1, 0, 4, 0, 1, 0, 2, 0, 1, 0, 3, 0, 1, 0, 2, 0, 1, 0,
     7, 0, 1, 0, 2, 0, 1, 0, 3, 0, 1, 0, 2, 0, 1, 0, 4, 0, 1, 0, 2, 0, 1, 0, 3, 0, 1, 0, 2, 0, 1, 0,
     5, 0, 1, 0, 2, 0, 1, 0, 3, 0, 1, 0, 2, 0, 1, 0, 4, 0, 1, 0, 2, 0, 1, 0, 3, 0, 1, 0, 2, 0, 1, 0,
     6, 0, 1, 0, 2, 0, 1, 0, 3, 0, 1, 0, 2, 0, 1, 0, 4, 0, 1, 0, 2, 0, 1, 0, 3, 0, 1, 0, 2, 0, 1, 0,
     5, 0, 1, 0, 2, 0, 1, 0, 3, 0, 1, 0, 2, 0, 1, 0, 4, 0, 1, 0, 2, 0, 1, 0, 3, 0, 1, 0, 2, 0, 1, 0]"

definition set_prio :: "u8 \<Rightarrow> tcb \<Rightarrow> tcb" where
  "set_prio prio t =
     (let y = drop_bit 3 prio; x = prio AND 7 in
      t\<lparr>OSTCBPrio := prio, OSTCBY := y, OSTCBX := x, OSTCBBitY := push_bit (unat y) 1, OSTCBBitX := push_bit (unat x) 1\<rparr>)"

text \<open>\<open>OSRdyGrp |= ptcb->OSTCBBitY; OSRdyTbl[y] |= ptcb->OSTCBBitX\<close>\<close>

definition ps_add :: "u8 \<Rightarrow> tcb \<Rightarrow> prio_set \<Rightarrow> prio_set" where
  "ps_add y t q = \<lparr>grp = grp q OR OSTCBBitY t, tbl = (tbl q)[unat y := tbl q ! unat y OR OSTCBBitX t]\<rparr>"

definition ps_remove :: "tcb \<Rightarrow> prio_set \<Rightarrow> prio_set" where
  "ps_remove t q =
     (let y = unat (OSTCBY t); row = tbl q ! y AND NOT (OSTCBBitX t) in
      \<lparr>grp = (if row = 0 then grp q AND NOT (OSTCBBitY t) else grp q), tbl = (tbl q)[y := row]\<rparr>)"

definition ps_row :: "prio_set \<Rightarrow> u8" where
  "ps_row q = OSUnMapTbl ! unat (grp q)"

definition ps_least :: "prio_set \<Rightarrow> u8" where
  "ps_least q = push_bit 3 (ps_row q) + OSUnMapTbl ! unat (tbl q ! unat (ps_row q))"

definition ps_empty :: prio_set where
  "ps_empty = \<lparr>grp = 0, tbl = replicate 8 0\<rparr>"

section \<open>The table\<close>

definition lowest_bit :: "u8 \<Rightarrow> u8 \<Rightarrow> bool" where
  "lowest_bit w x \<longleftrightarrow> x < 8 \<and> bit w (unat x) \<and> list_all (\<lambda>j. \<not> bit w j) [0..<unat x]"

lemma unmap_table: "list_all (\<lambda>n. n = 0 \<or> lowest_bit (of_nat n) (OSUnMapTbl ! n)) [0..<256]"
  by code_simp

lemma unmap_lowest:
  fixes w :: u8
  assumes "w \<noteq> 0"
  shows "unat (OSUnMapTbl ! unat w) < 8" "bit w (unat (OSUnMapTbl ! unat w))"
    "j < unat (OSUnMapTbl ! unat w) \<Longrightarrow> \<not> bit w j"
proof -
  have "unat w < 256" using unsigned_less [of w, where ?'a = nat] by simp
  then have "unat w \<in> set [0..<256]" by simp
  then have "unat w = 0 \<or> lowest_bit (of_nat (unat w)) (OSUnMapTbl ! unat w)"
    using unmap_table unfolding list_all_iff by blast
  moreover have "(of_nat (unat w) :: u8) = w" by (simp add: of_nat_unat)
  ultimately have "lowest_bit w (OSUnMapTbl ! unat w)" using assms by (simp add: unat_eq_0)
  then show "unat (OSUnMapTbl ! unat w) < 8" "bit w (unat (OSUnMapTbl ! unat w))"
    "j < unat (OSUnMapTbl ! unat w) \<Longrightarrow> \<not> bit w j"
    by (auto simp: lowest_bit_def list_all_iff word_less_nat_alt)
qed

section \<open>The set of a bitmap\<close>

definition prios :: "prio_set \<Rightarrow> nat set" where
  "prios q = {p. p < 64 \<and> bit (tbl q ! (p div 8)) (p mod 8)}"

definition ps_ok :: "prio_set \<Rightarrow> bool" where
  "ps_ok q \<longleftrightarrow> length (tbl q) = 8 \<and> (\<forall>y<8. bit (grp q) y \<longleftrightarrow> tbl q ! y \<noteq> 0)"

definition tcb_ok :: "nat \<Rightarrow> tcb \<Rightarrow> bool" where
  "tcb_ok p t \<longleftrightarrow> p < 64 \<and> unat (OSTCBPrio t) = p \<and> unat (OSTCBY t) = p div 8
     \<and> OSTCBBitY t = push_bit (p div 8) 1 \<and> OSTCBBitX t = push_bit (p mod 8) 1"

lemma finite_prios [simp]: "finite (prios q)"
  by (rule finite_subset [of _ "{..<64}"]) (auto simp: prios_def)

lemma prios_less: "p \<in> prios q \<Longrightarrow> p < 64"
  by (simp add: prios_def)

lemma ps_empty_ok [simp]: "ps_ok ps_empty" "prios ps_empty = {}"
proof -
  have "replicate 8 (0 :: u8) ! y = 0" if "y < 8" for y using that by simp
  then show "ps_ok ps_empty" "prios ps_empty = {}"
    by (auto simp: ps_ok_def ps_empty_def prios_def less_mult_imp_div_less)
qed

lemma unat_and7: "unat (p AND 7 :: u8) = unat p mod 8"
proof -
  have a: "p AND 7 = take_bit 3 p" by (simp add: take_bit_eq_mask mask_eq_exp_minus_1)
  show ?thesis unfolding a by (simp only: unsigned_take_bit_eq) (simp add: take_bit_eq_mod)
qed

lemma unat_drop3: "unat (drop_bit 3 p :: u8) = unat p div 8"
proof -
  have "unat p < 2 ^ 8" using unsigned_less [of p, where ?'a = nat] by simp
  then show ?thesis by (simp only: unsigned_drop_bit_eq) (simp add: drop_bit_eq_div take_bit_nat_eq_self)
qed

lemma set_prio_ok: "unat prio < 64 \<Longrightarrow> tcb_ok (unat prio) (set_prio prio t)"
  by (simp add: set_prio_def tcb_ok_def Let_def unat_and7 unat_drop3)

lemma bit_one_row: "n < 8 \<Longrightarrow> bit (2 ^ n :: u8) m \<longleftrightarrow> m = n"
  by (auto simp: bit_simps)

lemma row_nonzero: "(w :: u8) \<noteq> 0 \<longleftrightarrow> (\<exists>x<8. bit w x)"
  by (auto simp: bit_eq_iff dest: bit_imp_le_length)

lemma div_mod_less: "(p :: nat) < 64 \<Longrightarrow> p div 8 < 8 \<and> p mod 8 < 8" by auto

lemma div_mod_eq: "(p :: nat) = r \<longleftrightarrow> p div 8 = r div 8 \<and> p mod 8 = r mod 8"
  by (metis div_mult_mod_eq)

lemma ps_add_ok:
  assumes "ps_ok q" "tcb_ok p t" "unat y = p div 8"
  shows "ps_ok (ps_add y t q)" "prios (ps_add y t q) = insert p (prios q)"
proof -
  have p: "p < 64" "p div 8 < 8" "p mod 8 < 8" using assms(2) by (auto simp: tcb_ok_def)
  have l: "length (tbl q) = 8" using assms(1) by (simp add: ps_ok_def)
  have t: "OSTCBBitY t = push_bit (p div 8) 1" "OSTCBBitX t = push_bit (p mod 8) 1" using assms(2) by (simp_all add: tcb_ok_def)
  have row: "tbl (ps_add y t q) ! z = (if z = p div 8 then tbl q ! z OR push_bit (p mod 8) 1 else tbl q ! z)" if "z < 8" for z
    using that l by (simp add: ps_add_def assms(3) t)
  have nz: "tbl q ! z OR push_bit (p mod 8) 1 \<noteq> 0" for z
    unfolding row_nonzero by (rule exI [of _ "p mod 8"]) (use p in \<open>simp add: bit_or_iff bit_one_row\<close>)
  show "ps_ok (ps_add y t q)"
    unfolding ps_ok_def
  proof (intro conjI allI impI)
    show "length (tbl (ps_add y t q)) = 8" using l by (simp add: ps_add_def)
    fix z :: nat assume z: "z < 8"
    have "bit (grp (ps_add y t q)) z \<longleftrightarrow> bit (grp q) z \<or> z = p div 8"
      using p by (simp add: ps_add_def t bit_or_iff bit_one_row)
    then show "bit (grp (ps_add y t q)) z \<longleftrightarrow> tbl (ps_add y t q) ! z \<noteq> 0"
      using assms(1) z nz by (auto simp: row [OF z] ps_ok_def)
  qed
  show "prios (ps_add y t q) = insert p (prios q)"
  proof (rule set_eqI)
    fix r
    show "r \<in> prios (ps_add y t q) \<longleftrightarrow> r \<in> insert p (prios q)"
    proof (cases "r < 64")
      case True
      then show ?thesis using p div_mod_less [OF True] div_mod_eq [of r p]
        by (auto simp: prios_def row bit_or_iff bit_one_row)
    qed (use p in \<open>auto simp: prios_def\<close>)
  qed
qed

lemma ps_remove_ok:
  assumes "ps_ok q" "tcb_ok p t"
  shows "ps_ok (ps_remove t q)" "prios (ps_remove t q) = prios q - {p}"
proof -
  have p: "p < 64" "p div 8 < 8" "p mod 8 < 8" using assms(2) by (auto simp: tcb_ok_def)
  have l: "length (tbl q) = 8" using assms(1) by (simp add: ps_ok_def)
  have t: "OSTCBBitY t = push_bit (p div 8) 1" "OSTCBBitX t = push_bit (p mod 8) 1" "unat (OSTCBY t) = p div 8"
    using assms(2) by (simp_all add: tcb_ok_def)
  have row: "tbl (ps_remove t q) ! z = (if z = p div 8 then tbl q ! z AND NOT (push_bit (p mod 8) 1) else tbl q ! z)" if "z < 8" for z
    using that l by (simp add: ps_remove_def t Let_def)
  show "ps_ok (ps_remove t q)"
    unfolding ps_ok_def
  proof (intro conjI allI impI)
    show "length (tbl (ps_remove t q)) = 8" using l by (simp add: ps_remove_def Let_def)
    fix z :: nat assume z: "z < 8"
    have "bit (grp (ps_remove t q)) z \<longleftrightarrow> bit (grp q) z \<and> \<not> (z = p div 8 \<and> tbl q ! (p div 8) AND NOT (push_bit (p mod 8) 1) = 0)"
      using p z by (auto simp: ps_remove_def t Let_def bit_and_iff bit_not_iff bit_one_row)
    then show "bit (grp (ps_remove t q)) z \<longleftrightarrow> tbl (ps_remove t q) ! z \<noteq> 0"
      using assms(1) z by (auto simp: row [OF z] ps_ok_def)
  qed
  show "prios (ps_remove t q) = prios q - {p}"
  proof (rule set_eqI)
    fix r
    show "r \<in> prios (ps_remove t q) \<longleftrightarrow> r \<in> prios q - {p}"
    proof (cases "r < 64")
      case True
      then show ?thesis using p div_mod_less [OF True] div_mod_eq [of r p]
        by (auto simp: prios_def row bit_and_iff bit_not_iff bit_one_row)
    qed (use p in \<open>auto simp: prios_def\<close>)
  qed
qed

lemma prios_empty_iff: "ps_ok q \<Longrightarrow> prios q = {} \<longleftrightarrow> grp q = 0"
proof -
  assume q: "ps_ok q"
  have "p \<in> prios q \<Longrightarrow> bit (grp q) (p div 8)" for p
    using q div_mod_less [of p] row_nonzero [of "tbl q ! (p div 8)"] by (auto simp: prios_def ps_ok_def)
  moreover have "\<exists>p. p \<in> prios q" if "bit (grp q) y" for y
  proof -
    have y: "y < 8" using bit_imp_le_length [OF that] by simp
    have "tbl q ! y \<noteq> 0" using q that y by (simp add: ps_ok_def)
    then obtain x where x: "x < 8" "bit (tbl q ! y) x" using row_nonzero by blast
    then have "8 * y + x \<in> prios q" using y by (simp add: prios_def)
    then show ?thesis by blast
  qed
  ultimately show ?thesis by (auto simp: bit_eq_iff dest: bit_imp_le_length) (meson div_mod_less prios_less)
qed

lemma ps_least_ok:
  assumes "ps_ok q" "prios q \<noteq> {}"
  shows "unat (ps_least q) = Min (prios q)" "unat (ps_row q) = Min (prios q) div 8"
proof -
  let ?y = "unat (ps_row q)" let ?x = "unat (OSUnMapTbl ! unat (tbl q ! ?y))"
  have g: "grp q \<noteq> 0" using assms prios_empty_iff by blast
  have y: "?y < 8" "bit (grp q) ?y" "\<And>j. j < ?y \<Longrightarrow> \<not> bit (grp q) j"
    using unmap_lowest [OF g] by (auto simp: ps_row_def)
  then have nz: "tbl q ! ?y \<noteq> 0" using assms(1) by (auto simp: ps_ok_def)
  have x: "?x < 8" "bit (tbl q ! ?y) ?x" "\<And>j. j < ?x \<Longrightarrow> \<not> bit (tbl q ! ?y) j"
    using unmap_lowest [OF nz] by auto
  have v: "unat (ps_least q) = 8 * ?y + ?x"
  proof -
    have "unat (push_bit 3 (ps_row q)) = 8 * ?y"
      using y(1) by (simp only: unsigned_push_bit_eq) (simp add: take_bit_eq_mod push_bit_eq_mult)
    then show ?thesis unfolding ps_least_def using x(1) y(1) by (subst unat_add_small) simp_all
  qed
  have m: "8 * ?y + ?x \<in> prios q" using y(1) x(1,2) by (simp add: prios_def)
  have le: "8 * ?y + ?x \<le> r" if "r \<in> prios q" for r
  proof -
    have r: "r < 64" "bit (tbl q ! (r div 8)) (r mod 8)" "r div 8 < 8" using that div_mod_less by (auto simp: prios_def)
    then have "tbl q ! (r div 8) \<noteq> 0" using div_mod_less [OF r(1)] row_nonzero by blast
    then have "bit (grp q) (r div 8)" using assms(1) r(3) by (simp add: ps_ok_def)
    then have "?y \<le> r div 8" using y(3) not_le by blast
    moreover have "r div 8 = ?y \<Longrightarrow> ?x \<le> r mod 8" using x(3) r(2) not_le by metis
    moreover have "r = 8 * (r div 8) + r mod 8" by simp
    ultimately show ?thesis using x(1) by (cases "r div 8 = ?y") linarith+
  qed
  have "Min (prios q) = 8 * ?y + ?x" by (rule Min_eqI) (use m le in auto)
  then show "unat (ps_least q) = Min (prios q)" "?y = Min (prios q) div 8" using v x(1) by simp_all
qed

section \<open>The contract\<close>

text \<open>A set of priorities that is served from the most urgent on.\<close>

locale prio_queue =
  fixes add :: "nat \<Rightarrow> 'q \<Rightarrow> 'q" and del :: "nat \<Rightarrow> 'q \<Rightarrow> 'q" and least :: "'q \<Rightarrow> nat"
    and ok :: "'q \<Rightarrow> bool" and elems :: "'q \<Rightarrow> nat set" and top :: nat
  assumes finite_elems: "finite (elems q)"
    and add_law: "ok q \<Longrightarrow> p < top \<Longrightarrow> ok (add p q) \<and> elems (add p q) = insert p (elems q)"
    and del_law: "ok q \<Longrightarrow> p < top \<Longrightarrow> ok (del p q) \<and> elems (del p q) = elems q - {p}"
    and least_law: "ok q \<Longrightarrow> elems q \<noteq> {} \<Longrightarrow> least q = Min (elems q)"
    and bound: "ok q \<Longrightarrow> p \<in> elems q \<Longrightarrow> p < top"

text \<open>Taking the least element and removing it, again and again.\<close>

fun drain :: "('q \<Rightarrow> nat) \<Rightarrow> (nat \<Rightarrow> 'q \<Rightarrow> 'q) \<Rightarrow> nat \<Rightarrow> 'q \<Rightarrow> nat list" where
  "drain least del 0 q = []"
| "drain least del (Suc n) q = least q # drain least del n (del (least q) q)"

context prio_queue begin

lemma least_in: "ok q \<Longrightarrow> elems q \<noteq> {} \<Longrightarrow> least q \<in> elems q"
  by (simp add: least_law finite_elems)

lemma add_all: "ok q \<Longrightarrow> \<forall>p\<in>set ps. p < top \<Longrightarrow> ok (fold add ps q) \<and> elems (fold add ps q) = elems q \<union> set ps"
proof (induction ps arbitrary: q)
  case (Cons p ps)
  then show ?case using add_law [of q p] Cons.IH [of "add p q"] by auto
qed simp

lemma drain_sorted: "ok q \<Longrightarrow> drain least del (card (elems q)) q = sorted_list_of_set (elems q)"
proof (induction "card (elems q)" arbitrary: q)
  case 0
  then show ?case by (simp add: finite_elems)
next
  case (Suc n)
  then have ne: "elems q \<noteq> {}" by auto
  have l: "least q = Min (elems q)" "least q < top" using Suc.prems ne least_law least_in bound by auto
  have d: "ok (del (least q) q)" "elems (del (least q) q) = elems q - {least q}" using del_law [OF Suc.prems l(2)] by auto
  have n: "n = card (elems (del (least q) q))"
    unfolding d(2) using Suc.hyps(2) least_in [OF Suc.prems ne] by simp
  have "drain least del (card (elems q)) q = least q # drain least del n (del (least q) q)"
    by (simp flip: Suc.hyps(2))
  also have "\<dots> = Min (elems q) # sorted_list_of_set (elems q - {Min (elems q)})"
    using Suc.hyps(1) [OF n d(1)] n d(2) l(1) by simp
  also have "\<dots> = sorted_list_of_set (elems q)"
    by (rule sorted_list_of_set_nonempty [symmetric]) (use ne finite_elems in auto)
  finally show ?case .
qed

end

text \<open>The bitmaps with the control block of a task of the priority.\<close>

definition tcb0 :: tcb where
  "tcb0 = \<lparr>OSTCBEventPtr = None, OSTCBMsg = 0, OSTCBDly = 0, OSTCBStat = 0, OSTCBStatPend = 0, OSTCBPrio = 0,
     OSTCBX = 0, OSTCBY = 0, OSTCBBitX = 0, OSTCBBitY = 0\<rparr>"

definition tcb_of :: "nat \<Rightarrow> tcb" where
  "tcb_of p = set_prio (of_nat p) tcb0"

lemma tcb_of_ok: "p < 64 \<Longrightarrow> tcb_ok p (tcb_of p)"
  using set_prio_ok [of "of_nat p" tcb0] by (simp add: tcb_of_def unat_of_nat)

interpretation rdy: prio_queue "\<lambda>p. ps_add (OSTCBY (tcb_of p)) (tcb_of p)" "\<lambda>p. ps_remove (tcb_of p)" "\<lambda>q. unat (ps_least q)"
    ps_ok prios 64
proof unfold_locales
  fix q p
  assume q: "ps_ok q" and p: "p < (64 :: nat)"
  note t = tcb_of_ok [OF p]
  show "ps_ok (ps_add (OSTCBY (tcb_of p)) (tcb_of p) q) \<and> prios (ps_add (OSTCBY (tcb_of p)) (tcb_of p) q) = insert p (prios q)"
    using ps_add_ok [OF q t] t by (simp add: tcb_ok_def)
  show "ps_ok (ps_remove (tcb_of p) q) \<and> prios (ps_remove (tcb_of p) q) = prios q - {p}"
    using ps_remove_ok [OF q t] by simp
qed (simp_all add: ps_least_ok prios_less)

section \<open>Properties\<close>

text \<open>C27: the ready list is a priority queue: entering any priorities and taking the least until none is left gives them
  once each, the most urgent first, through the bitmaps and the table of 256 entries.\<close>

theorem ready_list_sorted:
  assumes "\<forall>p\<in>set ps. p < 64"
  shows "drain (\<lambda>q. unat (ps_least q)) (\<lambda>p. ps_remove (tcb_of p)) (card (set ps))
      (fold (\<lambda>p. ps_add (OSTCBY (tcb_of p)) (tcb_of p)) ps ps_empty) = sorted_list_of_set (set ps)"
proof -
  let ?q = "fold (\<lambda>p. ps_add (OSTCBY (tcb_of p)) (tcb_of p)) ps ps_empty"
  have q: "ps_ok ?q" "prios ?q = set ps" using rdy.add_all [OF ps_empty_ok(1) assms] by simp_all
  show ?thesis using rdy.drain_sorted [OF q(1)] unfolding q(2) .
qed

lemma ready_list_sorted_witness:
  "drain (\<lambda>q. unat (ps_least q)) (\<lambda>p. ps_remove (tcb_of p)) 4
      (fold (\<lambda>p. ps_add (OSTCBY (tcb_of p)) (tcb_of p)) [63, 7, 12, 8, 7] ps_empty) = [7, 8, 12, 63]"
proof -
  let ?ps = "[63, 7, 12, 8, 7] :: nat list"
  have r: "remdups ?ps = [63, 12, 8, 7]" by simp
  have c: "card (set ?ps) = 4" unfolding length_remdups_card_conv [symmetric] r by simp
  have l: "sorted_list_of_set (set ?ps) = [7, 8, 12, 63]" unfolding sorted_list_of_set_sort_remdups r by simp
  have "\<forall>p\<in>set ?ps. p < 64" by simp
  from ready_list_sorted [OF this] show ?thesis unfolding c l .
qed

end
