(* ===== verification/Kernel.thy ===== *)
theory Kernel
  imports PrioSet
begin

text \<open>
  The parts of the kernel \<^verbatim>\<open>uCOS-II\<close> the tasks of the firmware rely on: the scheduler and the wait lists (\<^verbatim>\<open>os_core.c\<close>),
  semaphores (\<^verbatim>\<open>os_sem.c\<close>), delays and the clock tick (\<^verbatim>\<open>os_time.c\<close>, \<open>OSTimeTick\<close>), mutexes (\<^verbatim>\<open>os_mutex.c\<close>) and the locks
  built on them (\<^verbatim>\<open>Sys/util.c\<close>), in the configuration of \<^verbatim>\<open>os_cfg.h\<close>: 64 priorities and no argument checks.

  Tasks and event control blocks are known by their number in the table, \<open>OSTCBCur\<close> is the running task.  A call that
  makes its task wait is split: the call up to the switch, and what the task does when it runs again
  (\<open>OSSemPend_rest\<close>).  The context switch itself, in assembler, is that the most urgent task becomes the current one.
  \<^term>\<open>None\<close> is to follow the null pointer or \<open>OS_TCB_RESERVED\<close>.  Nobody steps the clock (\<open>OSTickStepState\<close>), no task waits
  for several events at once (\<open>OSEventPendMulti\<close> is not used), and the stacks, names, hooks and run-time statistics of the
  tasks are left out.
\<close>

section \<open>State\<close>

datatype tcb_ref = Null | Reserved | Task nat
datatype ev_ptr = No_ptr | Next_free "nat option" | Owner nat

record event =
  OSEventType :: u8
  OSEventPtr :: ev_ptr
  OSEventCnt :: u16
  ev_wait :: prio_set

record os =
  OSRdy :: prio_set
  OSTCBPrioTbl :: "nat \<Rightarrow> tcb_ref"
  OSTCBTbl :: "nat \<Rightarrow> tcb"
  OSTCBList :: "nat list"
  OSTCBFreeList :: "nat list"
  OSTCBCur :: nat
  OSPrioCur :: u8
  OSPrioHighRdy :: u8
  OSRunning :: bool
  OSIntNesting :: u8
  OSLockNesting :: u8
  OSEventTbl :: "nat \<Rightarrow> event"
  OSEventFreeList :: "nat option"
  OSTime :: u32

definition upd_tcb :: "nat \<Rightarrow> (tcb \<Rightarrow> tcb) \<Rightarrow> os \<Rightarrow> os" where
  "upd_tcb i f s = s\<lparr>OSTCBTbl := (OSTCBTbl s)(i := f (OSTCBTbl s i))\<rparr>"

definition upd_event :: "nat \<Rightarrow> (event \<Rightarrow> event) \<Rightarrow> os \<Rightarrow> os" where
  "upd_event e f s = s\<lparr>OSEventTbl := (OSEventTbl s)(e := f (OSEventTbl s e))\<rparr>"

definition upd_rdy :: "(prio_set \<Rightarrow> prio_set) \<Rightarrow> os \<Rightarrow> os" where
  "upd_rdy f s = s\<lparr>OSRdy := f (OSRdy s)\<rparr>"

abbreviation cur_tcb :: "os \<Rightarrow> tcb" where
  "cur_tcb s \<equiv> OSTCBTbl s (OSTCBCur s)"

section \<open>Scheduler\<close>

definition OS_SchedNew :: "os \<Rightarrow> os" where
  "OS_SchedNew s = s\<lparr>OSPrioHighRdy := ps_least (OSRdy s)\<rparr>"

definition OS_TASK_SW :: "os \<Rightarrow> os option" where
  "OS_TASK_SW s =
     (case OSTCBPrioTbl s (unat (OSPrioHighRdy s)) of
        Task i \<Rightarrow> Some (s\<lparr>OSPrioCur := OSPrioHighRdy s, OSTCBCur := i\<rparr>)
      | _ \<Rightarrow> None)"

definition OS_Sched :: "os \<Rightarrow> os option" where
  "OS_Sched s =
     (if OSIntNesting s = 0 \<and> OSLockNesting s = 0 then
        let s = OS_SchedNew s in if OSPrioHighRdy s \<noteq> OSPrioCur s then OS_TASK_SW s else Some s
      else Some s)"

definition OSIntEnter :: "os \<Rightarrow> os" where
  "OSIntEnter s = (if OSRunning s \<and> OSIntNesting s < 255 then s\<lparr>OSIntNesting := OSIntNesting s + 1\<rparr> else s)"

definition OSIntExit :: "os \<Rightarrow> os option" where
  "OSIntExit s =
     (if \<not> OSRunning s then Some s
      else let s = (if OSIntNesting s > 0 then s\<lparr>OSIntNesting := OSIntNesting s - 1\<rparr> else s) in
      if OSIntNesting s = 0 then
        if OSLockNesting s = 0 then
          let s = OS_SchedNew s in if OSPrioHighRdy s \<noteq> OSPrioCur s then OS_TASK_SW s else Some s
        else Some s
      else Some s)"

definition OSSchedLock :: "os \<Rightarrow> os" where
  "OSSchedLock s = (if OSRunning s \<and> OSIntNesting s = 0 \<and> OSLockNesting s < 255 then s\<lparr>OSLockNesting := OSLockNesting s + 1\<rparr> else s)"

definition OSSchedUnlock :: "os \<Rightarrow> os option" where
  "OSSchedUnlock s =
     (if OSRunning s \<and> OSLockNesting s > 0 then
        let s = s\<lparr>OSLockNesting := OSLockNesting s - 1\<rparr> in
        if OSLockNesting s = 0 \<and> OSIntNesting s = 0 then OS_Sched s else Some s
      else Some s)"

section \<open>Wait lists\<close>

definition OS_EventTaskWait :: "nat \<Rightarrow> os \<Rightarrow> os" where
  "OS_EventTaskWait e s =
     (let t = cur_tcb s;
          s = upd_tcb (OSTCBCur s) (\<lambda>t. t\<lparr>OSTCBEventPtr := Some e\<rparr>) s;
          s = upd_event e (\<lambda>v. v\<lparr>ev_wait := ps_add (OSTCBY t) t (ev_wait v)\<rparr>) s
      in upd_rdy (ps_remove t) s)"

definition OS_EventTaskRemove :: "tcb \<Rightarrow> nat \<Rightarrow> os \<Rightarrow> os" where
  "OS_EventTaskRemove t e = upd_event e (\<lambda>v. v\<lparr>ev_wait := ps_remove t (ev_wait v)\<rparr>)"

definition OS_EventTaskRdy :: "nat \<Rightarrow> u32 \<Rightarrow> u8 \<Rightarrow> u8 \<Rightarrow> os \<Rightarrow> (os \<times> u8) option" where
  "OS_EventTaskRdy e pmsg msk pend_stat s =
     (let y = ps_row (ev_wait (OSEventTbl s e)); prio = ps_least (ev_wait (OSEventTbl s e)) in
      case OSTCBPrioTbl s (unat prio) of
        Task i \<Rightarrow>
          let s = upd_tcb i (\<lambda>t. t\<lparr>OSTCBDly := 0, OSTCBMsg := pmsg, OSTCBStat := OSTCBStat t AND NOT msk,
                    OSTCBStatPend := pend_stat\<rparr>) s;
              t = OSTCBTbl s i;
              s = (if OSTCBStat t AND 8 = 0 then upd_rdy (ps_add y t) s else s)
          in Some (OS_EventTaskRemove t e s, prio)
      | _ \<Rightarrow> None)"

definition OS_EventWaitListInit :: "event \<Rightarrow> event" where
  "OS_EventWaitListInit v = v\<lparr>ev_wait := ps_empty\<rparr>"

section \<open>Semaphores\<close>

datatype pend = Done u8 | Waits

definition OSSemCreate :: "u16 \<Rightarrow> os \<Rightarrow> os \<times> nat option" where
  "OSSemCreate cnt s =
     (if OSIntNesting s > 0 then (s, None)
      else case OSEventFreeList s of
        None \<Rightarrow> (s, None)
      | Some e \<Rightarrow>
          let s = s\<lparr>OSEventFreeList := (case OSEventPtr (OSEventTbl s e) of Next_free n \<Rightarrow> n | _ \<Rightarrow> None)\<rparr>
          in (upd_event e (\<lambda>v. OS_EventWaitListInit (v\<lparr>OSEventType := 3, OSEventCnt := cnt, OSEventPtr := No_ptr\<rparr>)) s, Some e))"

definition OSSemAccept :: "nat \<Rightarrow> os \<Rightarrow> os \<times> u16" where
  "OSSemAccept e s =
     (let v = OSEventTbl s e in
      if OSEventType v \<noteq> 3 then (s, 0)
      else (if OSEventCnt v > 0 then upd_event e (\<lambda>v. v\<lparr>OSEventCnt := OSEventCnt v - 1\<rparr>) s else s, OSEventCnt v))"

definition OSSemPend :: "nat \<Rightarrow> u32 \<Rightarrow> os \<Rightarrow> (os \<times> pend) option" where
  "OSSemPend e timeout s =
     (let v = OSEventTbl s e in
      if OSEventType v \<noteq> 3 then Some (s, Done 1)
      else if OSIntNesting s > 0 then Some (s, Done 2)
      else if OSLockNesting s > 0 then Some (s, Done 13)
      else if OSEventCnt v > 0 then Some (upd_event e (\<lambda>v. v\<lparr>OSEventCnt := OSEventCnt v - 1\<rparr>) s, Done 0)
      else
        let s = upd_tcb (OSTCBCur s) (\<lambda>t. t\<lparr>OSTCBStat := OSTCBStat t OR 1, OSTCBStatPend := 0, OSTCBDly := timeout\<rparr>) s;
            s = OS_EventTaskWait e s
        in map_option (\<lambda>s. (s, Waits)) (OS_Sched s))"

text \<open>When the task that waited runs again; the result is the error code.\<close>

definition OSSemPend_rest :: "nat \<Rightarrow> os \<Rightarrow> os \<times> u8" where
  "OSSemPend_rest e s =
     (let st = OSTCBStatPend (cur_tcb s);
          (s, err) = (if st = 0 then (s, 0) else if st = 2 then (s, 14) else (OS_EventTaskRemove (cur_tcb s) e s, 10))
      in (upd_tcb (OSTCBCur s) (\<lambda>t. t\<lparr>OSTCBStat := 0, OSTCBStatPend := 0, OSTCBEventPtr := None\<rparr>) s, err))"

definition OSSemPost :: "nat \<Rightarrow> os \<Rightarrow> (os \<times> u8) option" where
  "OSSemPost e s =
     (let v = OSEventTbl s e in
      if OSEventType v \<noteq> 3 then Some (s, 1)
      else if grp (ev_wait v) \<noteq> 0 then do {
        (s, _) \<leftarrow> OS_EventTaskRdy e 0 1 0 s;
        s \<leftarrow> OS_Sched s;
        Some (s, 0) }
      else if OSEventCnt v < 65535 then Some (upd_event e (\<lambda>v. v\<lparr>OSEventCnt := OSEventCnt v + 1\<rparr>) s, 0)
      else Some (s, 51))"

text \<open>All tasks that wait for the event are made ready; the second result is their number.\<close>

partial_function (option) ready_all :: "nat \<Rightarrow> u8 \<Rightarrow> os \<Rightarrow> (os \<times> nat) option" where
  "ready_all e pend_stat s =
     (if grp (ev_wait (OSEventTbl s e)) = 0 then Some (s, 0)
      else do {
        (s, _) \<leftarrow> OS_EventTaskRdy e 0 1 pend_stat s;
        (s, n) \<leftarrow> ready_all e pend_stat s;
        Some (s, n + 1) })"

definition OSSemPendAbort :: "nat \<Rightarrow> bool \<Rightarrow> os \<Rightarrow> (os \<times> nat \<times> u8) option" where
  "OSSemPendAbort e broadcast s =
     (let v = OSEventTbl s e in
      if OSEventType v \<noteq> 3 then Some (s, 0, 1)
      else if grp (ev_wait v) \<noteq> 0 then do {
        (s, n) \<leftarrow> (if broadcast then ready_all e 2 s
                 else map_option (\<lambda>(s, _). (s, 1)) (OS_EventTaskRdy e 0 1 2 s));
        s \<leftarrow> OS_Sched s;
        Some (s, n, 14) }
      else Some (s, 0, 0))"

definition OSSemSet :: "nat \<Rightarrow> u16 \<Rightarrow> os \<Rightarrow> os \<times> u8" where
  "OSSemSet e cnt s =
     (let v = OSEventTbl s e in
      if OSEventType v \<noteq> 3 then (s, 1)
      else if OSEventCnt v > 0 \<or> grp (ev_wait v) = 0 then (upd_event e (\<lambda>v. v\<lparr>OSEventCnt := cnt\<rparr>) s, 0)
      else (s, 73))"

text \<open>The options are \<open>OS_DEL_NO_PEND\<close> (0) and \<open>OS_DEL_ALWAYS\<close> (1); the flag is that the semaphore is deleted.\<close>

definition free_event :: "nat \<Rightarrow> os \<Rightarrow> os" where
  "free_event e s =
     (upd_event e (\<lambda>v. v\<lparr>OSEventType := 0, OSEventPtr := Next_free (OSEventFreeList s), OSEventCnt := 0\<rparr>) s)\<lparr>OSEventFreeList := Some e\<rparr>"

definition OSSemDel :: "nat \<Rightarrow> u8 \<Rightarrow> os \<Rightarrow> (os \<times> bool \<times> u8) option" where
  "OSSemDel e opt s =
     (let v = OSEventTbl s e; tasks_waiting = grp (ev_wait v) \<noteq> 0 in
      if OSEventType v \<noteq> 3 then Some (s, False, 1)
      else if OSIntNesting s > 0 then Some (s, False, 15)
      else if opt = 0 then
        if tasks_waiting then Some (s, False, 73) else Some (free_event e s, True, 0)
      else if opt = 1 then do {
        (s, _) \<leftarrow> ready_all e 0 s;
        let s = free_event e s;
        s \<leftarrow> (if tasks_waiting then OS_Sched s else Some s);
        Some (s, True, 0) }
      else Some (s, False, 7))"

section \<open>Time\<close>

definition OSTimeDly :: "u32 \<Rightarrow> os \<Rightarrow> os option" where
  "OSTimeDly ticks s =
     (if OSIntNesting s > 0 \<or> OSLockNesting s > 0 then Some s
      else if ticks > 0 then
        OS_Sched (upd_tcb (OSTCBCur s) (\<lambda>t. t\<lparr>OSTCBDly := ticks\<rparr>) (upd_rdy (ps_remove (cur_tcb s)) s))
      else Some s)"

text \<open>The end of a delay or of the wait of a task, in \<open>OSTimeTick\<close> and \<open>OSTimeDlyResume\<close>.\<close>

definition end_delay :: "nat \<Rightarrow> os \<Rightarrow> os" where
  "end_delay i s =
     (let s = upd_tcb i (\<lambda>t. if OSTCBStat t AND 0x37 \<noteq> 0
                then t\<lparr>OSTCBStat := OSTCBStat t AND NOT 0x37, OSTCBStatPend := 1\<rparr> else t\<lparr>OSTCBStatPend := 0\<rparr>) s;
          t = OSTCBTbl s i
      in if OSTCBStat t AND 8 = 0 then upd_rdy (ps_add (OSTCBY t) t) s else s)"

definition tick_task :: "nat \<Rightarrow> os \<Rightarrow> os" where
  "tick_task i s =
     (if OSTCBDly (OSTCBTbl s i) \<noteq> 0 then
        let s = upd_tcb i (\<lambda>t. t\<lparr>OSTCBDly := OSTCBDly t - 1\<rparr>) s in
        if OSTCBDly (OSTCBTbl s i) = 0 then end_delay i s else s
      else s)"

text \<open>The list ends with the idle task, which was created first.\<close>

fun tick_tasks :: "nat list \<Rightarrow> os \<Rightarrow> os" where
  "tick_tasks [] s = s"
| "tick_tasks (i # is) s = (if OSTCBPrio (OSTCBTbl s i) = 63 then s else tick_tasks is (tick_task i s))"

definition OSTimeTick :: "os \<Rightarrow> os" where
  "OSTimeTick s =
     (let s = s\<lparr>OSTime := OSTime s + 1\<rparr> in if OSRunning s then tick_tasks (OSTCBList s) s else s)"

definition OSTimeDlyResume :: "u8 \<Rightarrow> os \<Rightarrow> (os \<times> u8) option" where
  "OSTimeDlyResume prio s =
     (if 63 \<le> prio then Some (s, 42)
      else case OSTCBPrioTbl s (unat prio) of
        Task i \<Rightarrow>
          if OSTCBDly (OSTCBTbl s i) = 0 then Some (s, 80)
          else
            let s = end_delay i (upd_tcb i (\<lambda>t. t\<lparr>OSTCBDly := 0\<rparr>) s) in
            map_option (\<lambda>s. (s, 0)) (if OSTCBStat (OSTCBTbl s i) AND 8 = 0 then OS_Sched s else Some s)
      | _ \<Rightarrow> Some (s, 67))"

section \<open>Tasks and the start\<close>

definition OS_TCBInit :: "u8 \<Rightarrow> os \<Rightarrow> os \<times> u8" where
  "OS_TCBInit prio s =
     (case OSTCBFreeList s of
        [] \<Rightarrow> (s, 66)
      | i # free \<Rightarrow>
          let s = upd_tcb i (\<lambda>t. set_prio prio (t\<lparr>OSTCBStat := 0, OSTCBStatPend := 0, OSTCBDly := 0, OSTCBEventPtr := None,
                    OSTCBMsg := 0\<rparr>)) (s\<lparr>OSTCBFreeList := free\<rparr>);
              t = OSTCBTbl s i;
              s = s\<lparr>OSTCBPrioTbl := (OSTCBPrioTbl s)(unat prio := Task i), OSTCBList := i # OSTCBList s\<rparr>
          in (upd_rdy (ps_add (OSTCBY t) t) s, 0))"

definition OSTaskCreate :: "u8 \<Rightarrow> os \<Rightarrow> (os \<times> u8) option" where
  "OSTaskCreate prio s =
     (if OSIntNesting s > 0 then Some (s, 60)
      else if OSTCBPrioTbl s (unat prio) = Null then
        let s = s\<lparr>OSTCBPrioTbl := (OSTCBPrioTbl s)(unat prio := Reserved)\<rparr>;
            (s, err) = OS_TCBInit prio s
        in if err = 0 then map_option (\<lambda>s. (s, err)) (if OSRunning s then OS_Sched s else Some s)
           else Some (s\<lparr>OSTCBPrioTbl := (OSTCBPrioTbl s)(unat prio := Null)\<rparr>, err)
      else Some (s, 40))"

text \<open>
  The variables after \<open>OS_InitMisc\<close>, \<open>OS_InitRdyList\<close>, \<open>OS_InitTCBList\<close> and \<open>OS_InitEventList\<close>: 22 task and 20 event
  control blocks.  \<open>OSTCBCur\<close> is not a task yet.
\<close>

definition os_clear :: os where
  "os_clear = \<lparr>OSRdy = ps_empty, OSTCBPrioTbl = (\<lambda>_. Null), OSTCBTbl = (\<lambda>_. tcb0), OSTCBList = [], OSTCBFreeList = [0..<22],
     OSTCBCur = 22, OSPrioCur = 0, OSPrioHighRdy = 0, OSRunning = False, OSIntNesting = 0, OSLockNesting = 0,
     OSEventTbl = (\<lambda>e. \<lparr>OSEventType = 0, OSEventPtr = Next_free (if e < 19 then Some (e + 1) else None), OSEventCnt = 0,
       ev_wait = ps_empty\<rparr>),
     OSEventFreeList = Some 0, OSTime = 0\<rparr>"

text \<open>The idle and the statistics task, the two semaphores and the task of the timers (\<open>OSTmr_Init\<close>).\<close>

definition OS_TASK_TMR_PRIO :: u8 where
  "OS_TASK_TMR_PRIO = 25"

definition OSInit :: "os option" where
  "OSInit = do {
     (s, _) \<leftarrow> OSTaskCreate 63 os_clear;
     (s, _) \<leftarrow> OSTaskCreate 62 s;
     let (s, _) = OSSemCreate 1 s;
     let (s, _) = OSSemCreate 0 s;
     (s, _) \<leftarrow> OSTaskCreate OS_TASK_TMR_PRIO s;
     Some s }"

definition OSStart :: "os \<Rightarrow> os option" where
  "OSStart s =
     (if OSRunning s then Some s
      else let s = OS_SchedNew s; s = s\<lparr>OSPrioCur := OSPrioHighRdy s\<rparr> in
        case OSTCBPrioTbl s (unat (OSPrioHighRdy s)) of
          Task i \<Rightarrow> Some (s\<lparr>OSTCBCur := i, OSRunning := True\<rparr>)
        | _ \<Rightarrow> None)"

section \<open>Mutexes\<close>

text \<open>The low byte of \<open>OSEventCnt\<close> is the priority of the owner or 0xFF, the high byte the priority it inherits.\<close>

definition OSMutexCreate :: "u8 \<Rightarrow> os \<Rightarrow> os \<times> nat option" where
  "OSMutexCreate prio s =
     (if OSIntNesting s > 0 then (s, None)
      else if OSTCBPrioTbl s (unat prio) \<noteq> Null then (s, None)
      else
        let s = s\<lparr>OSTCBPrioTbl := (OSTCBPrioTbl s)(unat prio := Reserved)\<rparr> in
        case OSEventFreeList s of
          None \<Rightarrow> (s\<lparr>OSTCBPrioTbl := (OSTCBPrioTbl s)(unat prio := Null)\<rparr>, None)
        | Some e \<Rightarrow>
            let s = s\<lparr>OSEventFreeList := (case OSEventPtr (OSEventTbl s e) of Next_free n \<Rightarrow> n | _ \<Rightarrow> None)\<rparr>
            in (upd_event e (\<lambda>v. OS_EventWaitListInit (v\<lparr>OSEventType := 4, OSEventCnt := push_bit 8 (ucast prio) OR 0xFF,
                  OSEventPtr := No_ptr\<rparr>)) s, Some e))"

text \<open>The owner gets the priority \<open>pip\<close>, in the ready list or in the wait list it is in.\<close>

definition promote :: "u8 \<Rightarrow> nat \<Rightarrow> os \<Rightarrow> os" where
  "promote pip i s =
     (let t = OSTCBTbl s i;
          rdy = (tbl (OSRdy s) ! unat (OSTCBY t) AND OSTCBBitX t \<noteq> 0);
          s = (if rdy then upd_rdy (ps_remove t) s
               else case OSTCBEventPtr t of Some e2 \<Rightarrow> OS_EventTaskRemove t e2 s | None \<Rightarrow> s);
          s = upd_tcb i (set_prio pip) s;
          t = OSTCBTbl s i;
          s = (if rdy then upd_rdy (ps_add (OSTCBY t) t) s
               else case OSTCBEventPtr t of
                 Some e2 \<Rightarrow> upd_event e2 (\<lambda>v. v\<lparr>ev_wait := ps_add (OSTCBY t) t (ev_wait v)\<rparr>) s | None \<Rightarrow> s)
      in s\<lparr>OSTCBPrioTbl := (OSTCBPrioTbl s)(unat pip := Task i)\<rparr>)"

definition OSMutexPend :: "nat \<Rightarrow> u32 \<Rightarrow> os \<Rightarrow> (os \<times> pend) option" where
  "OSMutexPend e timeout s =
     (let v = OSEventTbl s e; prio = OSTCBPrio (cur_tcb s); pip = ucast (drop_bit 8 (OSEventCnt v)); mprio = ucast (OSEventCnt v) in
      if OSEventType v \<noteq> 4 then Some (s, Done 1)
      else if OSIntNesting s > 0 then Some (s, Done 2)
      else if OSLockNesting s > 0 then Some (s, Done 13)
      else if mprio = 0xFF then
        Some (upd_event e (\<lambda>v. v\<lparr>OSEventCnt := (OSEventCnt v AND 0xFF00) OR ucast prio, OSEventPtr := Owner (OSTCBCur s)\<rparr>) s,
          Done (if prio \<le> pip then 120 else 0))
      else case OSEventPtr v of
        Owner i \<Rightarrow>
          let s = (if OSTCBPrio (OSTCBTbl s i) > pip \<and> mprio > prio then promote pip i s else s);
              s = upd_tcb (OSTCBCur s) (\<lambda>t. t\<lparr>OSTCBStat := OSTCBStat t OR 0x10, OSTCBStatPend := 0, OSTCBDly := timeout\<rparr>) s
          in map_option (\<lambda>s. (s, Waits)) (OS_Sched (OS_EventTaskWait e s))
      | _ \<Rightarrow> None)"

definition OSMutex_RdyAtPrio :: "nat \<Rightarrow> u8 \<Rightarrow> os \<Rightarrow> os" where
  "OSMutex_RdyAtPrio i prio s =
     (let s = upd_rdy (ps_remove (OSTCBTbl s i)) s;
          y = drop_bit 3 prio AND 7;
          s = upd_tcb i (\<lambda>t. (set_prio prio t)\<lparr>OSTCBY := y, OSTCBBitY := push_bit (unat y) 1\<rparr>) (s\<lparr>OSPrioCur := prio\<rparr>);
          t = OSTCBTbl s i;
          s = upd_rdy (ps_add (OSTCBY t) t) s
      in s\<lparr>OSTCBPrioTbl := (OSTCBPrioTbl s)(unat prio := Task i)\<rparr>)"

definition OSMutexPost :: "nat \<Rightarrow> os \<Rightarrow> (os \<times> u8) option" where
  "OSMutexPost e s =
     (let v = OSEventTbl s e; pip = ucast (drop_bit 8 (OSEventCnt v)); prio = ucast (OSEventCnt v) in
      if OSIntNesting s > 0 then Some (s, 5)
      else if OSEventType v \<noteq> 4 then Some (s, 1)
      else if OSEventPtr v \<noteq> Owner (OSTCBCur s) then Some (s, 100)
      else
        let s = (if OSTCBPrio (cur_tcb s) = pip then OSMutex_RdyAtPrio (OSTCBCur s) prio s else s);
            s = s\<lparr>OSTCBPrioTbl := (OSTCBPrioTbl s)(unat pip := Reserved)\<rparr>
        in if grp (ev_wait v) \<noteq> 0 then do {
             (s, prio) \<leftarrow> OS_EventTaskRdy e 0 0x10 0 s;
             let s = upd_event e (\<lambda>v. v\<lparr>OSEventCnt := (OSEventCnt v AND 0xFF00) OR ucast prio,
                       OSEventPtr := (case OSTCBPrioTbl s (unat prio) of Task i \<Rightarrow> Owner i | _ \<Rightarrow> No_ptr)\<rparr>) s;
             s \<leftarrow> OS_Sched s;
             Some (s, if prio \<le> pip then 120 else 0) }
           else Some (upd_event e (\<lambda>v. v\<lparr>OSEventCnt := OSEventCnt v OR 0xFF, OSEventPtr := No_ptr\<rparr>) s, 0))"

text \<open>
  The locks of \<^verbatim>\<open>Sys/util.c\<close>.  The type of the event the null pointer points to is the byte at address 0, an argument; the
  result is the error the lock drops.
\<close>

definition NST_ALLOC_LOCK :: "os \<Rightarrow> os \<times> nat option" where
  "NST_ALLOC_LOCK s = OSMutexCreate 63 s"

definition NST_AQUIRE_LOCK :: "u8 \<Rightarrow> nat option \<Rightarrow> os \<Rightarrow> (os \<times> pend) option" where
  "NST_AQUIRE_LOCK low lock s =
     (case lock of
        Some e \<Rightarrow> OSMutexPend e 0 s
      | None \<Rightarrow> if low \<noteq> 4 then Some (s, Done 1) else None)"

definition NST_RELEASE_LOCK :: "u8 \<Rightarrow> nat option \<Rightarrow> os \<Rightarrow> (os \<times> u8) option" where
  "NST_RELEASE_LOCK low lock s =
     (case lock of
        Some e \<Rightarrow> OSMutexPost e s
      | None \<Rightarrow> if OSIntNesting s > 0 then Some (s, 5) else if low \<noteq> 4 then Some (s, 1) else None)"

end
