(* ===== verification/KernelSafety.thy ===== *)
theory KernelSafety
  imports Kernel
begin

text \<open>
  The invariant of the kernel: the ready list and the wait lists agree with the states of the tasks, the task table, the
  list of the control blocks and the free lists agree, and the running task is the most urgent of the tasks that can run;
  and how the steps the calls are made of keep it.
\<close>

section \<open>The state of a task\<close>

abbreviation ready :: "os \<Rightarrow> nat set" where
  "ready s \<equiv> prios (OSRdy s)"

abbreviation waits :: "os \<Rightarrow> nat \<Rightarrow> nat set" where
  "waits s e \<equiv> prios (ev_wait (OSEventTbl s e))"

text \<open>
  A task can run, waits for its delay, or is inside \<open>OSSemPend\<close> of the event of its control block, where it waits, has
  been given the unit (no longer in the wait list), or was woken by the clock (still in the wait list).
\<close>

definition task_rel :: "nat \<Rightarrow> tcb \<Rightarrow> bool \<Rightarrow> nat set \<Rightarrow> (nat \<Rightarrow> u8) \<Rightarrow> bool" where
  "task_rel p t rdy on typ \<longleftrightarrow> tcb_ok p t \<and> (OSTCBStat t = 0 \<or> OSTCBStat t = 1)
     \<and> (rdy \<longleftrightarrow> OSTCBStat t = 0 \<and> OSTCBDly t = 0)
     \<and> on \<subseteq> set_option (OSTCBEventPtr t)
     \<and> (case OSTCBEventPtr t of
          None \<Rightarrow> OSTCBStat t = 0
        | Some e \<Rightarrow> typ e = 3 \<and> p \<noteq> 63
            \<and> (if e \<in> on then OSTCBStat t = 1 \<or> OSTCBDly t = 0 \<and> OSTCBStatPend t = 1
               else OSTCBStat t = 0 \<and> OSTCBDly t = 0 \<and> (OSTCBStatPend t = 0 \<or> OSTCBStatPend t = 2)))
     \<and> (p = 63 \<longrightarrow> OSTCBDly t = 0)"

definition task_ok :: "os \<Rightarrow> nat \<Rightarrow> tcb \<Rightarrow> bool" where
  "task_ok s p t = task_rel p t (p \<in> ready s) {e. p \<in> waits s e} (\<lambda>e. OSEventType (OSEventTbl s e))"

definition slot_ok :: "os \<Rightarrow> nat \<Rightarrow> bool" where
  "slot_ok s p = (case OSTCBPrioTbl s p of Task i \<Rightarrow> task_ok s p (OSTCBTbl s i) | _ \<Rightarrow> p \<notin> ready s \<and> (\<forall>e. p \<notin> waits s e))"

definition sem_ok :: "event \<Rightarrow> bool" where
  "sem_ok v \<longleftrightarrow> ps_ok (ev_wait v) \<and> (OSEventType v = 3 \<longrightarrow> OSEventCnt v = 0 \<or> prios (ev_wait v) = {})"

text \<open>The list of the control blocks holds the tasks once each, up to the idle task.\<close>

definition list_ok :: "os \<Rightarrow> bool" where
  "list_ok s \<longleftrightarrow> (\<exists>us j vs. OSTCBList s = us @ j # vs \<and> OSTCBPrioTbl s 63 = Task j \<and> distinct us
     \<and> (\<forall>i. i \<in> set us \<longleftrightarrow> (\<exists>p. p \<noteq> 63 \<and> OSTCBPrioTbl s p = Task i)))
     \<and> distinct (OSTCBFreeList s) \<and> (\<forall>i\<in>set (OSTCBFreeList s). \<forall>p. OSTCBPrioTbl s p \<noteq> Task i)"

text \<open>The free event control blocks are linked by \<open>OSEventPtr\<close>.\<close>

fun free_chain :: "(nat \<Rightarrow> event) \<Rightarrow> nat option \<Rightarrow> nat list \<Rightarrow> bool" where
  "free_chain E f [] \<longleftrightarrow> f = None"
| "free_chain E f (e # es) \<longleftrightarrow> f = Some e \<and> OSEventType (E e) = 0 \<and> (\<exists>n. OSEventPtr (E e) = Next_free n \<and> free_chain E n es)"

definition free_ok :: "os \<Rightarrow> bool" where
  "free_ok s \<longleftrightarrow> (\<exists>es. distinct es \<and> free_chain (OSEventTbl s) (OSEventFreeList s) es)"

lemma free_chain_cong:
  assumes "\<And>e. e \<in> set es \<Longrightarrow> OSEventType (E' e) = OSEventType (E e) \<and> OSEventPtr (E' e) = OSEventPtr (E e)"
  shows "free_chain E' f es = free_chain E f es"
  using assms by (induction es arbitrary: f) simp_all

definition kcore :: "os \<Rightarrow> bool" where
  "kcore s \<longleftrightarrow> ps_ok (OSRdy s) \<and> (\<forall>e. sem_ok (OSEventTbl s e)) \<and> (\<forall>p. slot_ok s p) \<and> list_ok s \<and> free_ok s"

lemma kcoreD:
  assumes "kcore s"
  shows "ps_ok (OSRdy s)" "sem_ok (OSEventTbl s e)" "ps_ok (ev_wait (OSEventTbl s e))" "slot_ok s p" "list_ok s" "free_ok s"
  using assms unfolding kcore_def sem_ok_def by blast+

lemma kcore_task:
  assumes "kcore s" "OSTCBPrioTbl s p = Task i"
  shows "task_ok s p (OSTCBTbl s i)" "tcb_ok p (OSTCBTbl s i)"
  using kcoreD(4) [OF assms(1), of p] assms(2) by (simp_all add: slot_ok_def task_ok_def task_rel_def)

lemma ready_task: "kcore s \<Longrightarrow> p \<in> ready s \<Longrightarrow> \<exists>i. OSTCBPrioTbl s p = Task i"
  using kcoreD(4) [of s p] by (auto simp: slot_ok_def split: tcb_ref.splits)

lemma waiting_task: "kcore s \<Longrightarrow> p \<in> waits s e \<Longrightarrow> \<exists>i. OSTCBPrioTbl s p = Task i"
  using kcoreD(4) [of s p] by (auto simp: slot_ok_def split: tcb_ref.splits)

lemma idle_ready: "kcore s \<Longrightarrow> 63 \<in> ready s"
proof -
  assume k: "kcore s"
  then obtain i where i: "OSTCBPrioTbl s 63 = Task i" by (auto simp: kcore_def list_ok_def)
  then show ?thesis using kcore_task(1) [OF k i] by (auto simp: task_ok_def task_rel_def split: option.splits)
qed

lemma task_unique: "kcore s \<Longrightarrow> OSTCBPrioTbl s p = Task i \<Longrightarrow> OSTCBPrioTbl s q = Task i \<Longrightarrow> p = q"
  using kcore_task(2) [of s p i] kcore_task(2) [of s q i] by (auto simp: tcb_ok_def)

text \<open>A change of one task, of its membership in the lists and of the events.\<close>

lemma kcore_change:
  assumes k: "kcore s" and p: "OSTCBPrioTbl s p = Task i"
    and same: "OSTCBPrioTbl s' = OSTCBPrioTbl s" "OSTCBList s' = OSTCBList s" "OSTCBFreeList s' = OSTCBFreeList s"
      "\<And>j. j \<noteq> i \<Longrightarrow> OSTCBTbl s' j = OSTCBTbl s j"
    and rdy: "ps_ok (OSRdy s')" "\<And>q. q \<noteq> p \<Longrightarrow> q \<in> ready s' \<longleftrightarrow> q \<in> ready s"
    and free: "OSEventFreeList s' = OSEventFreeList s" "\<And>e. OSEventPtr (OSEventTbl s' e) = OSEventPtr (OSEventTbl s e)"
    and ev: "\<And>e. sem_ok (OSEventTbl s' e)" "\<And>e. OSEventType (OSEventTbl s' e) = OSEventType (OSEventTbl s e)"
      "\<And>e q. q \<noteq> p \<Longrightarrow> q \<in> waits s' e \<longleftrightarrow> q \<in> waits s e"
    and t: "task_ok s' p (OSTCBTbl s' i)"
  shows "kcore s'"
proof -
  have "slot_ok s' q" for q
  proof (cases "q = p")
    case True
    then show ?thesis using t p by (simp add: slot_ok_def same)
  next
    case False
    have j: "OSTCBPrioTbl s q = Task j \<Longrightarrow> OSTCBTbl s' j = OSTCBTbl s j" for j
      using task_unique [OF k p, of q] False same(4) [of j] by metis
    show ?thesis using kcoreD(4) [OF k, of q]
      by (simp add: slot_ok_def same(1) task_ok_def rdy(2) [OF False] ev(2) ev(3) [OF False] j split: tcb_ref.splits)
  qed
  moreover have "list_ok s'" using kcoreD(5) [OF k] by (simp add: list_ok_def same)
  moreover have "free_ok s'"
    using kcoreD(6) [OF k] unfolding free_ok_def free by (simp add: free_chain_cong [of _ "OSEventTbl s'" "OSEventTbl s"] free ev(2))
  ultimately show ?thesis using rdy(1) ev(1) by (simp add: kcore_def)
qed

lemma kcore_cong:
  assumes "kcore s" "OSRdy s' = OSRdy s" "OSTCBPrioTbl s' = OSTCBPrioTbl s" "OSTCBTbl s' = OSTCBTbl s"
    "OSTCBList s' = OSTCBList s" "OSTCBFreeList s' = OSTCBFreeList s" "OSEventTbl s' = OSEventTbl s"
    "OSEventFreeList s' = OSEventFreeList s"
  shows "kcore s'"
proof -
  have "slot_ok s' p = slot_ok s p" for p unfolding slot_ok_def task_ok_def assms(2-) by (rule refl)
  moreover have "list_ok s' = list_ok s" "free_ok s' = free_ok s" by (simp_all add: list_ok_def free_ok_def assms)
  ultimately show ?thesis using assms by (simp add: kcore_def)
qed

section \<open>The scheduler\<close>

definition running :: "os \<Rightarrow> bool" where
  "running s \<longleftrightarrow> OSRunning s \<and> OSTCBPrioTbl s (unat (OSPrioCur s)) = Task (OSTCBCur s)"

text \<open>
  The running task can run, and unless an interrupt is served or the scheduler is locked it is the most urgent of the tasks
  that can.
\<close>

definition kernel_ok :: "os \<Rightarrow> bool" where
  "kernel_ok s \<longleftrightarrow> kcore s \<and> running s \<and> unat (OSPrioCur s) \<in> ready s
     \<and> (OSIntNesting s = 0 \<and> OSLockNesting s = 0 \<longrightarrow> unat (OSPrioCur s) = Min (ready s))"

text \<open>Two states that differ only in what the scheduler sets.\<close>

definition same_tasks :: "os \<Rightarrow> os \<Rightarrow> bool" where
  "same_tasks s s' \<longleftrightarrow> (\<exists>h c i. s' = s\<lparr>OSPrioHighRdy := h, OSPrioCur := c, OSTCBCur := i\<rparr>)"

lemma same_tasksD:
  assumes "same_tasks s s'"
  shows "OSRdy s' = OSRdy s" "OSTCBPrioTbl s' = OSTCBPrioTbl s" "OSTCBTbl s' = OSTCBTbl s" "OSTCBList s' = OSTCBList s"
    "OSTCBFreeList s' = OSTCBFreeList s" "OSRunning s' = OSRunning s"
    "OSEventTbl s' = OSEventTbl s" "OSIntNesting s' = OSIntNesting s" "OSLockNesting s' = OSLockNesting s"
    "OSTime s' = OSTime s" "OSEventFreeList s' = OSEventFreeList s"
  using assms by (auto simp: same_tasks_def)

lemma same_tasks_refl [simp]: "same_tasks s s"
  unfolding same_tasks_def by (rule exI [of _ "OSPrioHighRdy s"], rule exI [of _ "OSPrioCur s"], rule exI [of _ "OSTCBCur s"]) simp

lemma kcore_same: "same_tasks s s' \<Longrightarrow> kcore s \<Longrightarrow> kcore s'"
  by (rule kcore_cong) (simp_all add: same_tasksD)

lemma switch_ok:
  assumes k: "kcore s" and r: "running s"
  shows "\<exists>s'. (let s = OS_SchedNew s in if OSPrioHighRdy s \<noteq> OSPrioCur s then OS_TASK_SW s else Some s) = Some s'
     \<and> same_tasks s s' \<and> running s' \<and> unat (OSPrioCur s') = Min (ready s)"
proof -
  have ne: "ready s \<noteq> {}" using idle_ready [OF k] by blast
  have m: "unat (ps_least (OSRdy s)) = Min (ready s)" using ps_least_ok(1) [OF kcoreD(1) [OF k] ne] .
  have "Min (ready s) \<in> ready s" using ne by simp
  then obtain i where i: "OSTCBPrioTbl s (Min (ready s)) = Task i" using ready_task [OF k] by blast
  let ?s = "OS_SchedNew s"
  show ?thesis
  proof (cases "ps_least (OSRdy s) = OSPrioCur s")
    case True
    have "same_tasks s ?s"
      unfolding same_tasks_def OS_SchedNew_def
      by (rule exI [of _ "ps_least (OSRdy s)"], rule exI [of _ "OSPrioCur s"], rule exI [of _ "OSTCBCur s"]) simp
    then show ?thesis using True r m by (simp add: Let_def OS_SchedNew_def running_def flip: m)
  next
    case False
    then show ?thesis using i m r by (auto simp: Let_def OS_SchedNew_def OS_TASK_SW_def running_def same_tasks_def)
  qed
qed

lemma OS_Sched_ok:
  assumes "kcore s" "running s" "OSIntNesting s \<noteq> 0 \<or> OSLockNesting s \<noteq> 0 \<longrightarrow> unat (OSPrioCur s) \<in> ready s"
  shows "\<exists>s'. OS_Sched s = Some s' \<and> same_tasks s s' \<and> kernel_ok s'"
proof (cases "OSIntNesting s = 0 \<and> OSLockNesting s = 0")
  case True
  obtain s' where s': "OS_Sched s = Some s'" "same_tasks s s'" "running s'" "unat (OSPrioCur s') = Min (ready s)"
    using switch_ok [OF assms(1,2)] True by (auto simp: OS_Sched_def)
  have "Min (ready s) \<in> ready s" using idle_ready [OF assms(1)] by (intro Min_in) auto
  then show ?thesis using s' kcore_same [OF s'(2) assms(1)] by (simp add: kernel_ok_def same_tasksD(1) [OF s'(2)])
next
  case False
  then have "OS_Sched s = Some s" by (auto simp: OS_Sched_def)
  then show ?thesis using assms False by (auto simp: kernel_ok_def)
qed

section \<open>The steps on the tasks\<close>



lemma tcb_ok_upd [simp]:
  "tcb_ok p (t\<lparr>OSTCBDly := d\<rparr>) = tcb_ok p t" "tcb_ok p (t\<lparr>OSTCBStat := x\<rparr>) = tcb_ok p t"
  "tcb_ok p (t\<lparr>OSTCBStatPend := x\<rparr>) = tcb_ok p t" "tcb_ok p (t\<lparr>OSTCBMsg := m\<rparr>) = tcb_ok p t"
  "tcb_ok p (t\<lparr>OSTCBEventPtr := e\<rparr>) = tcb_ok p t"
  by (simp_all add: tcb_ok_def)

lemma ps_add_upd [simp]:
  "ps_add y (t\<lparr>OSTCBDly := d\<rparr>) q = ps_add y t q" "ps_add y (t\<lparr>OSTCBStat := x\<rparr>) q = ps_add y t q"
  "ps_add y (t\<lparr>OSTCBStatPend := x\<rparr>) q = ps_add y t q" "ps_add y (t\<lparr>OSTCBMsg := m\<rparr>) q = ps_add y t q"
  "ps_add y (t\<lparr>OSTCBEventPtr := e\<rparr>) q = ps_add y t q"
  by (simp_all add: ps_add_def)

lemma ps_remove_upd [simp]:
  "ps_remove (t\<lparr>OSTCBDly := d\<rparr>) q = ps_remove t q" "ps_remove (t\<lparr>OSTCBStat := x\<rparr>) q = ps_remove t q"
  "ps_remove (t\<lparr>OSTCBStatPend := x\<rparr>) q = ps_remove t q" "ps_remove (t\<lparr>OSTCBMsg := m\<rparr>) q = ps_remove t q"
  "ps_remove (t\<lparr>OSTCBEventPtr := e\<rparr>) q = ps_remove t q"
  by (simp_all add: ps_remove_def Let_def)

lemma stat_cases: "(x = 0 \<or> x = (1 :: u8)) \<Longrightarrow> x AND - 2 = 0 \<and> x AND 8 = 0 \<and> x OR 1 = 1 \<and> x AND - 56 = 0 \<and> (x AND 0x37 = 0 \<longleftrightarrow> x = 0)"
  by auto

lemma kcore_upd_event:
  assumes k: "kcore s" and e: "sem_ok (f (OSEventTbl s e))" "OSEventType (f (OSEventTbl s e)) = OSEventType (OSEventTbl s e)"
    "prios (ev_wait (f (OSEventTbl s e))) = waits s e" "OSEventPtr (f (OSEventTbl s e)) = OSEventPtr (OSEventTbl s e)"
  shows "kcore (upd_event e f s)"
proof -
  have "slot_ok (upd_event e f s) p = slot_ok s p" for p
  proof -
    have "{x. p \<in> waits (upd_event e f s) x} = {x. p \<in> waits s x}"
      "(\<lambda>x. OSEventType (OSEventTbl (upd_event e f s) x)) = (\<lambda>x. OSEventType (OSEventTbl s x))"
      using e(2,3) by (auto simp: upd_event_def)
    then have "task_ok (upd_event e f s) p t = task_ok s p t" for t unfolding task_ok_def by (simp only:) (simp add: upd_event_def)
    then show ?thesis using e(3) by (auto simp: slot_ok_def upd_event_def split: tcb_ref.splits)
  qed
  moreover have "free_ok (upd_event e f s)"
  proof -
    have "free_chain (OSEventTbl (upd_event e f s)) n es = free_chain (OSEventTbl s) n es" for n es
      by (rule free_chain_cong) (use e(2,4) in \<open>simp add: upd_event_def\<close>)
    then show ?thesis using kcoreD(6) [OF k] by (simp add: free_ok_def) (simp add: upd_event_def)
  qed
  ultimately show ?thesis using k e(1) by (simp add: kcore_def list_ok_def) (simp add: upd_event_def)
qed

text \<open>The most urgent task that waits for the event is given it.\<close>

lemma task_rdy_ok:
  assumes k: "kcore s" and e: "waits s e \<noteq> {}" and st: "st = 0 \<or> st = 2"
  defines "p \<equiv> Min (waits s e)"
  shows "\<exists>i s'. OSTCBPrioTbl s p = Task i \<and> OS_EventTaskRdy e m 1 st s = Some (s', of_nat p) \<and> kcore s'
     \<and> ready s' = insert p (ready s) \<and> (\<forall>x. waits s' x = (if x = e then waits s e - {p} else waits s x))
     \<and> OSTCBTbl s' = (OSTCBTbl s)(i := (OSTCBTbl s i)\<lparr>OSTCBDly := 0, OSTCBMsg := m, OSTCBStat := 0, OSTCBStatPend := st\<rparr>)
     \<and> (\<exists>r x v. s' = s\<lparr>OSRdy := r, OSTCBTbl := x, OSEventTbl := (OSEventTbl s)(e := (OSEventTbl s e)\<lparr>ev_wait := v\<rparr>)\<rparr>)"
proof -
  have p: "p \<in> waits s e" unfolding p_def using e by simp
  then obtain i where i: "OSTCBPrioTbl s p = Task i" using waiting_task [OF k] by blast
  let ?q = "ev_wait (OSEventTbl s e)" and ?t = "OSTCBTbl s i"
  let ?u = "?t\<lparr>OSTCBDly := 0, OSTCBMsg := m, OSTCBStat := 0, OSTCBStatPend := st\<rparr>"
  have q: "ps_ok ?q" and sem: "sem_ok (OSEventTbl s e)" using kcoreD(2) [OF k] by (simp_all add: sem_ok_def)
  have l: "unat (ps_least ?q) = p" "unat (ps_row ?q) = p div 8" using ps_least_ok [OF q e] by (simp_all add: p_def)
  have t: "tcb_ok p ?t" "task_ok s p ?t" using kcore_task [OF k i] by simp_all
  have stat: "OSTCBStat ?t AND - 2 = 0"
    using t(2) stat_cases [of "OSTCBStat ?t"] by (auto simp: task_ok_def task_rel_def)
  have prio: "ps_least ?q = of_nat p" using l(1) by (simp add: of_nat_unat flip: l(1))
  define s' where "s' = s\<lparr>OSRdy := ps_add (ps_row ?q) ?t (OSRdy s), OSTCBTbl := (OSTCBTbl s)(i := ?u),
     OSEventTbl := (OSEventTbl s)(e := (OSEventTbl s e)\<lparr>ev_wait := ps_remove ?t ?q\<rparr>)\<rparr>"
  have eq: "OS_EventTaskRdy e m 1 st s = Some (s', of_nat p)"
    by (simp add: OS_EventTaskRdy_def Let_def l(1) i stat upd_tcb_def upd_event_def upd_rdy_def OS_EventTaskRemove_def s'_def flip: prio)
  have rdy: "ps_ok (OSRdy s')" "ready s' = insert p (ready s)"
    using ps_add_ok [OF kcoreD(1) [OF k] t(1) l(2)] by (simp_all add: s'_def)
  have w: "ps_ok (ps_remove ?t ?q)" "prios (ps_remove ?t ?q) = waits s e - {p}" using ps_remove_ok [OF q t(1)] by simp_all
  have waits: "waits s' x = (if x = e then waits s e - {p} else waits s x)" for x by (simp add: s'_def w(2))
  have "kcore s'"
  proof (rule kcore_change [OF k i])
    show "sem_ok (OSEventTbl s' x)" for x
      using kcoreD(2) [OF k, of x] sem w by (auto simp: s'_def sem_ok_def)
    show "task_ok s' p (OSTCBTbl s' i)"
    proof -
      have ptr: "OSTCBEventPtr ?t = Some e" using t(2) p by (auto simp: task_ok_def task_rel_def)
      have no: "p \<notin> waits s' x" for x using t(2) ptr waits by (auto simp: task_ok_def task_rel_def)
      show ?thesis using t ptr st by (simp add: task_ok_def task_rel_def no rdy(2)) (simp add: s'_def)
    qed
  qed (use rdy waits in \<open>auto simp: s'_def\<close>)
  moreover have "OSTCBTbl s' = (OSTCBTbl s)(i := ?u)" by (simp add: s'_def)
  moreover have "\<exists>r x v. s' = s\<lparr>OSRdy := r, OSTCBTbl := x, OSEventTbl := (OSEventTbl s)(e := (OSEventTbl s e)\<lparr>ev_wait := v\<rparr>)\<rparr>"
    unfolding s'_def by blast
  ultimately show ?thesis using i eq rdy(2) waits by blast
qed

text \<open>A change of one task only, of its state and of whether it can run.\<close>

lemma kcore_task_change:
  assumes k: "kcore s" and p: "OSTCBPrioTbl s p = Task i" and r: "ps_ok r" "prios r - {p} = ready s - {p}"
    and t: "task_rel p t (p \<in> prios r) {e. p \<in> waits s e} (\<lambda>e. OSEventType (OSEventTbl s e))"
  shows "kcore (s\<lparr>OSRdy := r, OSTCBTbl := (OSTCBTbl s)(i := t)\<rparr>)"
proof (rule kcore_change [OF k p])
  show "q \<in> ready (s\<lparr>OSRdy := r, OSTCBTbl := (OSTCBTbl s)(i := t)\<rparr>) \<longleftrightarrow> q \<in> ready s" if "q \<noteq> p" for q
    using r(2) that by auto
qed (use r(1) t kcoreD(2) [OF k] in \<open>simp_all add: task_ok_def\<close>)

lemma cur_task:
  assumes "kernel_ok s"
  shows "kcore s" "running s" "OSTCBPrioTbl s (unat (OSPrioCur s)) = Task (OSTCBCur s)"
    "task_ok s (unat (OSPrioCur s)) (cur_tcb s)" "tcb_ok (unat (OSPrioCur s)) (cur_tcb s)"
    "unat (OSPrioCur s) \<in> ready s" "OSTCBStat (cur_tcb s) = 0" "OSTCBDly (cur_tcb s) = 0"
proof -
  show k: "kcore s" and r: "running s" and i: "OSTCBPrioTbl s (unat (OSPrioCur s)) = Task (OSTCBCur s)"
    and m: "unat (OSPrioCur s) \<in> ready s"
    using assms by (simp_all add: kernel_ok_def running_def)
  show t: "task_ok s (unat (OSPrioCur s)) (cur_tcb s)" "tcb_ok (unat (OSPrioCur s)) (cur_tcb s)"
    using kcore_task [OF k i] by simp_all
  show "OSTCBStat (cur_tcb s) = 0" "OSTCBDly (cur_tcb s) = 0" using t(1) m by (simp_all add: task_ok_def task_rel_def)
qed

text \<open>The running task begins to wait for the event.\<close>

definition block_on :: "nat \<Rightarrow> u32 \<Rightarrow> os \<Rightarrow> os" where
  "block_on e timeout s =
     OS_EventTaskWait e (upd_tcb (OSTCBCur s) (\<lambda>t. t\<lparr>OSTCBStat := OSTCBStat t OR 1, OSTCBStatPend := 0, OSTCBDly := timeout\<rparr>) s)"

lemma block_ok:
  assumes k: "kernel_ok s" and e: "OSEventType (OSEventTbl s e) = 3" "OSEventCnt (OSEventTbl s e) = 0"
    and idle: "unat (OSPrioCur s) \<noteq> 63" and out: "OSTCBEventPtr (cur_tcb s) = None"
  shows "kcore (block_on e timeout s)" "running (block_on e timeout s)"
    "OSTCBTbl (block_on e timeout s) = (OSTCBTbl s)(OSTCBCur s :=
       (cur_tcb s)\<lparr>OSTCBStat := 1, OSTCBStatPend := 0, OSTCBDly := timeout, OSTCBEventPtr := Some e\<rparr>)"
    "waits (block_on e timeout s) x = (if x = e then insert (unat (OSPrioCur s)) (waits s x) else waits s x)"
    "OSEventTbl (block_on e timeout s) =
       (OSEventTbl s)(e := (OSEventTbl s e)\<lparr>ev_wait := ev_wait (OSEventTbl (block_on e timeout s) e)\<rparr>)"
    "OSIntNesting (block_on e timeout s) = OSIntNesting s" "OSLockNesting (block_on e timeout s) = OSLockNesting s"
proof -
  let ?p = "unat (OSPrioCur s)" and ?i = "OSTCBCur s" and ?t = "cur_tcb s" and ?q = "ev_wait (OSEventTbl s e)"
  let ?u = "?t\<lparr>OSTCBStat := 1, OSTCBStatPend := 0, OSTCBDly := timeout, OSTCBEventPtr := Some e\<rparr>"
  note c = cur_task [OF k]
  define s' where "s' = s\<lparr>OSRdy := ps_remove ?t (OSRdy s), OSTCBTbl := (OSTCBTbl s)(?i := ?u),
     OSEventTbl := (OSEventTbl s)(e := (OSEventTbl s e)\<lparr>ev_wait := ps_add (OSTCBY ?t) ?t ?q\<rparr>)\<rparr>"
  have eq: "block_on e timeout s = s'"
    by (simp add: block_on_def OS_EventTaskWait_def Let_def upd_tcb_def upd_event_def upd_rdy_def s'_def c(7))
  have q: "ps_ok ?q" using kcoreD(3) [OF c(1)] .
  have a: "ps_ok (ps_add (OSTCBY ?t) ?t ?q)" "prios (ps_add (OSTCBY ?t) ?t ?q) = insert ?p (waits s e)"
    using ps_add_ok [OF q c(5)] c(5) by (simp_all add: tcb_ok_def)
  have d: "ps_ok (OSRdy s')" "ready s' = ready s - {?p}"
    using ps_remove_ok [OF kcoreD(1) [OF c(1)] c(5)] by (simp_all add: s'_def)
  have w: "waits s' x = (if x = e then insert ?p (waits s x) else waits s x)" for x by (simp add: s'_def a)
  have no: "?p \<notin> waits s x" for x using c(4) out by (auto simp: task_ok_def task_rel_def)
  have ty: "(\<lambda>x. OSEventType (OSEventTbl s' x)) = (\<lambda>x. OSEventType (OSEventTbl s x))" by (auto simp: s'_def)
  have "kcore s'"
  proof (rule kcore_change [OF c(1,3)])
    show "sem_ok (OSEventTbl s' x)" for x using kcoreD(2) [OF c(1), of x] a e by (simp add: s'_def sem_ok_def)
    show "task_ok s' ?p (OSTCBTbl s' ?i)"
      using c(5) e idle no unfolding task_ok_def ty by (simp add: task_rel_def w d(2)) (simp add: s'_def)
  qed (use d w in \<open>auto simp: s'_def\<close>)
  then show "kcore (block_on e timeout s)" by (simp add: eq)
  show "running (block_on e timeout s)" using c(2) by (simp add: eq s'_def running_def)
  show "waits (block_on e timeout s) x = (if x = e then insert (unat (OSPrioCur s)) (waits s x) else waits s x)"
    unfolding eq by (rule w)
qed (simp_all add: block_on_def OS_EventTaskWait_def Let_def upd_tcb_def upd_event_def upd_rdy_def cur_task(7) [OF k])

text \<open>The running task leaves \<open>OSSemPend\<close>.\<close>

lemma pend_rest_ok:
  assumes k: "kernel_ok s" and e: "OSTCBEventPtr (cur_tcb s) = Some e" and eq: "OSSemPend_rest e s = (s', err)"
  shows "kernel_ok s'" "ready s' = ready s" "OSPrioCur s' = OSPrioCur s" "OSTCBPrioTbl s' = OSTCBPrioTbl s"
    "OSTCBTbl s' = (OSTCBTbl s)(OSTCBCur s := (cur_tcb s)\<lparr>OSTCBStat := 0, OSTCBStatPend := 0, OSTCBEventPtr := None\<rparr>)"
    "waits s' x = waits s x - {unat (OSPrioCur s)}"
    "OSEventTbl s' x = (OSEventTbl s x)\<lparr>ev_wait := ev_wait (OSEventTbl s' x)\<rparr>"
    "err = (if unat (OSPrioCur s) \<in> waits s e then 10 else if OSTCBStatPend (cur_tcb s) = 0 then 0 else 14)"
    "OSIntNesting s' = OSIntNesting s" "OSLockNesting s' = OSLockNesting s" "OSTCBCur s' = OSTCBCur s"
proof -
  let ?p = "unat (OSPrioCur s)" and ?i = "OSTCBCur s" and ?t = "cur_tcb s" and ?q = "ev_wait (OSEventTbl s e)"
  let ?u = "?t\<lparr>OSTCBStat := 0, OSTCBStatPend := 0, OSTCBEventPtr := None\<rparr>"
  note c = cur_task [OF k]
  let ?to = "?p \<in> waits s e"
  have st: "if ?to then OSTCBStatPend ?t = 1 else OSTCBStatPend ?t = 0 \<or> OSTCBStatPend ?t = 2"
    using c(4,7) e by (cases ?to) (simp_all add: task_ok_def task_rel_def)
  define s1 where "s1 = s\<lparr>OSTCBTbl := (OSTCBTbl s)(?i := ?u),
     OSEventTbl := (OSEventTbl s)(e := (OSEventTbl s e)\<lparr>ev_wait := if ?to then ps_remove ?t ?q else ?q\<rparr>)\<rparr>"
  have r: "OSSemPend_rest e s = (s1, if ?to then 10 else if OSTCBStatPend ?t = 0 then 0 else 14)"
  proof (cases ?to)
    case True
    then show ?thesis using st by (simp add: OSSemPend_rest_def s1_def OS_EventTaskRemove_def upd_tcb_def upd_event_def)
  next
    case False
    then have "OSTCBStatPend ?t = 0 \<or> OSTCBStatPend ?t = 2" using st by simp
    then show ?thesis using False by (elim disjE) (simp_all add: OSSemPend_rest_def s1_def upd_tcb_def)
  qed
  have s': "s' = s1" and err: "err = (if ?to then 10 else if OSTCBStatPend ?t = 0 then 0 else 14)" using r eq by simp_all
  have q: "ps_ok ?q" using kcoreD(3) [OF c(1)] .
  have a: "ps_ok (ps_remove ?t ?q)" "prios (ps_remove ?t ?q) = waits s e - {?p}"
    using ps_remove_ok [OF q c(5)] by simp_all
  have no: "?p \<notin> waits s y" if "y \<noteq> e" for y using c(4) e that by (auto simp: task_ok_def task_rel_def)
  have w: "waits s1 y = waits s y - {?p}" for y using no [of y] by (auto simp: s1_def a)
  have ty: "(\<lambda>y. OSEventType (OSEventTbl s1 y)) = (\<lambda>y. OSEventType (OSEventTbl s y))" by (auto simp: s1_def)
  have "kcore s1"
  proof (rule kcore_change [OF c(1,3)])
    show "sem_ok (OSEventTbl s1 y)" for y using kcoreD(2) [OF c(1), of y] a by (auto simp: s1_def sem_ok_def)
    show "task_ok s1 ?p (OSTCBTbl s1 ?i)"
      using c(5,6,8) unfolding task_ok_def ty by (simp add: task_rel_def w) (simp add: s1_def)
  qed (use kcoreD(1) [OF c(1)] w in \<open>auto simp: s1_def\<close>)
  then show "kernel_ok s'" using k by (simp add: s' s1_def kernel_ok_def running_def)
  show "waits s' x = waits s x - {?p}" unfolding s' by (rule w)
  show "err = (if ?p \<in> waits s e then 10 else if OSTCBStatPend ?t = 0 then 0 else 14)" by (rule err)
  show "ready s' = ready s" "OSPrioCur s' = OSPrioCur s" "OSTCBPrioTbl s' = OSTCBPrioTbl s"
    "OSTCBTbl s' = (OSTCBTbl s)(OSTCBCur s := ?u)"
    "OSEventTbl s' x = (OSEventTbl s x)\<lparr>ev_wait := ev_wait (OSEventTbl s' x)\<rparr>"
    "OSIntNesting s' = OSIntNesting s" "OSLockNesting s' = OSLockNesting s" "OSTCBCur s' = OSTCBCur s"
    by (simp_all add: s' s1_def)
qed

text \<open>The running task begins a delay.\<close>

lemma delay_ok:
  assumes k: "kernel_ok s" and n: "ticks \<noteq> 0" and idle: "unat (OSPrioCur s) \<noteq> 63" and out: "OSTCBEventPtr (cur_tcb s) = None"
  defines "s1 \<equiv> upd_tcb (OSTCBCur s) (\<lambda>t. t\<lparr>OSTCBDly := ticks\<rparr>) (upd_rdy (ps_remove (cur_tcb s)) s)"
  shows "kcore s1" "running s1" "OSTCBTbl s1 = (OSTCBTbl s)(OSTCBCur s := (cur_tcb s)\<lparr>OSTCBDly := ticks\<rparr>)"
    "OSEventTbl s1 = OSEventTbl s" "OSIntNesting s1 = OSIntNesting s" "OSLockNesting s1 = OSLockNesting s"
    "OSTCBPrioTbl s1 = OSTCBPrioTbl s"
proof -
  note c = cur_task [OF k]
  let ?p = "unat (OSPrioCur s)" and ?i = "OSTCBCur s" and ?t = "cur_tcb s"
  have d: "ps_ok (ps_remove ?t (OSRdy s))" "prios (ps_remove ?t (OSRdy s)) = ready s - {?p}"
    using ps_remove_ok [OF kcoreD(1) [OF c(1)] c(5)] by simp_all
  have eq: "s1 = s\<lparr>OSRdy := ps_remove ?t (OSRdy s), OSTCBTbl := (OSTCBTbl s)(?i := ?t\<lparr>OSTCBDly := ticks\<rparr>)\<rparr>"
    by (simp add: s1_def upd_tcb_def upd_rdy_def)
  show "kcore s1" unfolding eq
  proof (rule kcore_task_change [OF c(1,3) d(1)])
    show "task_rel ?p (?t\<lparr>OSTCBDly := ticks\<rparr>) (?p \<in> prios (ps_remove ?t (OSRdy s))) {e. ?p \<in> waits s e}
        (\<lambda>e. OSEventType (OSEventTbl s e))"
      using c(4) n idle out by (auto simp: task_ok_def task_rel_def d(2))
  qed (simp add: d(2))
  show "running s1" using c(2) by (simp add: eq running_def)
qed (simp_all add: s1_def upd_tcb_def upd_rdy_def)

section \<open>The clock\<close>

text \<open>What a tick does to a control block.\<close>

definition ticked :: "tcb \<Rightarrow> tcb" where
  "ticked t =
     (if OSTCBDly t = 0 then t
      else if OSTCBDly t = 1 then
        if OSTCBStat t = 0 then t\<lparr>OSTCBDly := 0, OSTCBStatPend := 0\<rparr> else t\<lparr>OSTCBDly := 0, OSTCBStat := 0, OSTCBStatPend := 1\<rparr>
      else t\<lparr>OSTCBDly := OSTCBDly t - 1\<rparr>)"

lemma rel_tick:
  assumes "task_rel p t rdy w ty" "OSTCBDly t \<noteq> 0" "OSTCBDly t \<noteq> 1"
  shows "task_rel p (t\<lparr>OSTCBDly := OSTCBDly t - 1\<rparr>) rdy w ty"
proof -
  define d where "d = OSTCBDly t - 1"
  have "d \<noteq> 0" using assms(3) by (simp add: d_def)
  then show ?thesis using assms(1,2) unfolding d_def [symmetric]
    by (cases "OSTCBEventPtr t") (simp_all add: task_rel_def split: if_splits)
qed

lemma rel_expire:
  assumes "task_rel p t rdy w ty" "OSTCBDly t \<noteq> 0"
  shows "task_rel p (if OSTCBStat t = 0 then t\<lparr>OSTCBDly := 0, OSTCBStatPend := 0\<rparr>
      else t\<lparr>OSTCBDly := 0, OSTCBStat := 0, OSTCBStatPend := 1\<rparr>) True w ty"
  using assms by (cases "OSTCBEventPtr t") (simp_all add: task_rel_def split: if_splits)

lemma tick_task_ok:
  assumes k: "kcore s" and i: "OSTCBPrioTbl s p = Task i"
  shows "kcore (tick_task i s)" "ready s \<subseteq> ready (tick_task i s)" "OSEventTbl (tick_task i s) = OSEventTbl s"
    "OSTCBTbl (tick_task i s) = (OSTCBTbl s)(i := ticked (OSTCBTbl s i))"
    "\<exists>r x. tick_task i s = s\<lparr>OSRdy := r, OSTCBTbl := x\<rparr>"
proof -
  let ?t = "OSTCBTbl s i"
  note t = kcore_task [OF k i]
  have st: "OSTCBStat ?t = 0 \<or> OSTCBStat ?t = 1" using t(1) by (simp add: task_ok_def task_rel_def)
  let ?u = "ticked ?t"
  define r where "r = (if OSTCBDly ?t = 1 then ps_add (OSTCBY ?t) ?t (OSRdy s) else OSRdy s)"
  have eq: "tick_task i s = (if OSTCBDly ?t = 0 then s else s\<lparr>OSRdy := r, OSTCBTbl := (OSTCBTbl s)(i := ?u)\<rparr>)"
    using st by (auto simp: tick_task_def end_delay_def Let_def upd_tcb_def upd_rdy_def ticked_def r_def)
  have a: "ps_ok (ps_add (OSTCBY ?t) ?t (OSRdy s))" "prios (ps_add (OSTCBY ?t) ?t (OSRdy s)) = insert p (ready s)"
    using ps_add_ok [OF kcoreD(1) [OF k] t(2)] t(2) by (simp_all add: tcb_ok_def)
  have r: "ps_ok r" "prios r = (if OSTCBDly ?t = 1 then insert p (ready s) else ready s)"
    using a kcoreD(1) [OF k] by (simp_all add: r_def)
  have "kcore (s\<lparr>OSRdy := r, OSTCBTbl := (OSTCBTbl s)(i := ?u)\<rparr>)" if d: "OSTCBDly ?t \<noteq> 0"
  proof (rule kcore_task_change [OF k i r(1)])
    show "task_rel p ?u (p \<in> prios r) {e. p \<in> waits s e} (\<lambda>e. OSEventType (OSEventTbl s e))"
    proof (cases "OSTCBDly ?t = 1")
      case True
      then show ?thesis using d rel_expire [OF t(1) [unfolded task_ok_def] d] by (simp add: ticked_def Let_def r(2))
    next
      case False
      then show ?thesis using d rel_tick [OF t(1) [unfolded task_ok_def] d False] by (simp add: ticked_def Let_def r(2))
    qed
  qed (auto simp: r(2))
  then show "kcore (tick_task i s)" using k by (simp add: eq)
  show "ready s \<subseteq> ready (tick_task i s)" using r(2) by (auto simp: eq)
  show "OSTCBTbl (tick_task i s) = (OSTCBTbl s)(i := ticked (OSTCBTbl s i))"
    by (simp add: eq ticked_def)
  show "OSEventTbl (tick_task i s) = OSEventTbl s" by (simp add: eq)
  show "\<exists>r x. tick_task i s = s\<lparr>OSRdy := r, OSTCBTbl := x\<rparr>"
  proof (cases "OSTCBDly ?t = 0")
    case True
    then have "tick_task i s = s\<lparr>OSRdy := OSRdy s, OSTCBTbl := OSTCBTbl s\<rparr>" by (simp add: eq)
    then show ?thesis by blast
  qed (auto simp: eq)
qed

lemma tick_tasks_fold:
  assumes "\<And>i. i \<in> set us \<Longrightarrow> OSTCBPrio (OSTCBTbl s i) \<noteq> 63" "OSTCBPrio (OSTCBTbl s j) = 63"
  shows "tick_tasks (us @ j # vs) s = fold tick_task us s"
  using assms
proof (induction us arbitrary: s)
  case (Cons i us)
  have "OSTCBPrio (OSTCBTbl (tick_task i s) k) = OSTCBPrio (OSTCBTbl s k)" for k
    by (simp add: tick_task_def end_delay_def Let_def upd_tcb_def upd_rdy_def)
  then show ?case using Cons by simp
qed simp

lemma tick_fold_ok:
  assumes "kcore s" "\<And>i. i \<in> set us \<Longrightarrow> \<exists>p. OSTCBPrioTbl s p = Task i" "distinct us"
  shows "kcore (fold tick_task us s)" "ready s \<subseteq> ready (fold tick_task us s)"
    "OSTCBTbl (fold tick_task us s) = (\<lambda>i. if i \<in> set us then ticked (OSTCBTbl s i) else OSTCBTbl s i)"
    "\<exists>r x. fold tick_task us s = s\<lparr>OSRdy := r, OSTCBTbl := x\<rparr>"
proof -
  have "kcore (fold tick_task us s) \<and> ready s \<subseteq> ready (fold tick_task us s)
    \<and> OSTCBTbl (fold tick_task us s) = (\<lambda>i. if i \<in> set us then ticked (OSTCBTbl s i) else OSTCBTbl s i)
    \<and> (\<exists>r x. fold tick_task us s = s\<lparr>OSRdy := r, OSTCBTbl := x\<rparr>)"
    using assms
  proof (induction us arbitrary: s)
    case Nil
    have "s = s\<lparr>OSRdy := OSRdy s, OSTCBTbl := OSTCBTbl s\<rparr>" by simp
    then have "\<exists>r x. s = s\<lparr>OSRdy := r, OSTCBTbl := x\<rparr>" by blast
    then show ?case using Nil by simp
  next
    case (Cons i us)
    obtain p where p: "OSTCBPrioTbl s p = Task i" using Cons.prems(2) by auto
    note k = tick_task_ok [OF Cons.prems(1) p]
    obtain r x where e: "tick_task i s = s\<lparr>OSRdy := r, OSTCBTbl := x\<rparr>" using k(5) by blast
    have same: "OSTCBPrioTbl (tick_task i s) = OSTCBPrioTbl s" by (simp add: e)
    have "\<exists>p. OSTCBPrioTbl (tick_task i s) p = Task j" if "j \<in> set us" for j
      unfolding same using Cons.prems(2) [of j] that by simp
    note ih = Cons.IH [OF k(1) this]
    obtain r' x' where e': "fold tick_task us (tick_task i s) = (tick_task i s)\<lparr>OSRdy := r', OSTCBTbl := x'\<rparr>"
      using ih Cons.prems(3) by fastforce
    have "fold tick_task us (tick_task i s) = s\<lparr>OSRdy := r', OSTCBTbl := x'\<rparr>" unfolding e' by (simp add: e)
    moreover have "OSTCBTbl (fold tick_task us (tick_task i s))
        = (\<lambda>j. if j \<in> set (i # us) then ticked (OSTCBTbl s j) else OSTCBTbl s j)"
      using ih k(4) Cons.prems(3) by (auto simp: fun_eq_iff)
    moreover have "kcore (fold tick_task us (tick_task i s))" "ready s \<subseteq> ready (fold tick_task us (tick_task i s))"
      using ih k(2) Cons.prems(3) by auto
    ultimately show ?case by auto
  qed
  then show "kcore (fold tick_task us s)" "ready s \<subseteq> ready (fold tick_task us s)"
    "OSTCBTbl (fold tick_task us s) = (\<lambda>i. if i \<in> set us then ticked (OSTCBTbl s i) else OSTCBTbl s i)"
    "\<exists>r x. fold tick_task us s = s\<lparr>OSRdy := r, OSTCBTbl := x\<rparr>" by blast+
qed

lemma time_tick_ok:
  assumes k: "kcore s" and run: "OSRunning s"
  shows "kcore (OSTimeTick s)" "ready s \<subseteq> ready (OSTimeTick s)"
    "OSTCBPrioTbl s p = Task i \<Longrightarrow> OSTCBTbl (OSTimeTick s) i = (if p = 63 then OSTCBTbl s i else ticked (OSTCBTbl s i))"
    "\<exists>r x. OSTimeTick s = s\<lparr>OSTime := OSTime s + 1, OSRdy := r, OSTCBTbl := x\<rparr>"
proof -
  obtain us j vs where l: "OSTCBList s = us @ j # vs" "OSTCBPrioTbl s 63 = Task j" "distinct us"
    "\<And>i. i \<in> set us \<longleftrightarrow> (\<exists>p. p \<noteq> 63 \<and> OSTCBPrioTbl s p = Task i)"
    using kcoreD(5) [OF k] unfolding list_ok_def by blast
  let ?s = "s\<lparr>OSTime := OSTime s + 1\<rparr>"
  have k1: "kcore ?s" by (rule kcore_cong [OF k]) simp_all
  have n63: "OSTCBPrio (OSTCBTbl ?s i) \<noteq> 63" if "i \<in> set us" for i
    using l(4) [of i] that kcore_task(2) [OF k] by (fastforce simp: tcb_ok_def)
  have j63: "OSTCBPrio (OSTCBTbl ?s j) = 63"
  proof -
    have "unat (OSTCBPrio (OSTCBTbl s j)) = 63" using kcore_task(2) [OF k l(2)] by (simp add: tcb_ok_def)
    then have "of_nat (unat (OSTCBPrio (OSTCBTbl s j))) = (of_nat 63 :: u8)" by simp
    then show ?thesis by (simp add: of_nat_unat)
  qed
  have eq: "OSTimeTick s = fold tick_task us ?s"
    using tick_tasks_fold [OF n63 j63, where vs = vs] by (simp add: OSTimeTick_def l(1) run)
  have tasks: "\<exists>p. OSTCBPrioTbl ?s p = Task i" if "i \<in> set us" for i using l(4) [of i] that by auto
  note f = tick_fold_ok [OF k1 tasks l(3)]
  show "kcore (OSTimeTick s)" "ready s \<subseteq> ready (OSTimeTick s)"
    "\<exists>r x. OSTimeTick s = s\<lparr>OSTime := OSTime s + 1, OSRdy := r, OSTCBTbl := x\<rparr>"
    using f(1,2,4) by (simp_all add: eq)
  show "OSTCBTbl (OSTimeTick s) i = (if p = 63 then OSTCBTbl s i else ticked (OSTCBTbl s i))" if "OSTCBPrioTbl s p = Task i"
  proof -
    have "i \<in> set us \<longleftrightarrow> p \<noteq> 63" unfolding l(4) using that task_unique [OF k that] by metis
    then show ?thesis by (simp add: eq f(3))
  qed
qed

section \<open>New tasks and semaphores\<close>

lemma sem_create_ok:
  assumes k: "kcore s" and eq: "OSSemCreate cnt s = (s', r)"
  shows "kcore s'" "OSRdy s' = OSRdy s" "OSTCBTbl s' = OSTCBTbl s" "OSTCBPrioTbl s' = OSTCBPrioTbl s"
    "case r of None \<Rightarrow> s' = s
     | Some e \<Rightarrow> OSEventType (OSEventTbl s e) = 0
         \<and> OSEventTbl s' = (OSEventTbl s)(e := \<lparr>OSEventType = 3, OSEventPtr = No_ptr, OSEventCnt = cnt, ev_wait = ps_empty\<rparr>)"
    "\<exists>x y. s' = s\<lparr>OSEventTbl := x, OSEventFreeList := y\<rparr>"
proof -
  have "kcore s' \<and> (case r of None \<Rightarrow> s' = s
     | Some e \<Rightarrow> OSEventType (OSEventTbl s e) = 0
         \<and> OSEventTbl s' = (OSEventTbl s)(e := \<lparr>OSEventType = 3, OSEventPtr = No_ptr, OSEventCnt = cnt, ev_wait = ps_empty\<rparr>))
     \<and> (\<exists>x y. s' = s\<lparr>OSEventTbl := x, OSEventFreeList := y\<rparr>)"
  proof (cases "OSIntNesting s > 0 \<or> OSEventFreeList s = None")
    case True
    then have "s' = s" "r = None" using eq by (auto simp: OSSemCreate_def split: if_splits)
    moreover have "s = s\<lparr>OSEventTbl := OSEventTbl s, OSEventFreeList := OSEventFreeList s\<rparr>" by simp
    then have "\<exists>x y. s = s\<lparr>OSEventTbl := x, OSEventFreeList := y\<rparr>" by blast
    ultimately show ?thesis using k by simp
  next
    case False
    then obtain e where e: "OSEventFreeList s = Some e" by auto
    obtain es where es: "distinct es" "free_chain (OSEventTbl s) (Some e) es" using kcoreD(6) [OF k] e by (auto simp: free_ok_def)
    then obtain rest n where rest: "es = e # rest" "OSEventType (OSEventTbl s e) = 0" "OSEventPtr (OSEventTbl s e) = Next_free n"
        "free_chain (OSEventTbl s) n rest" by (cases es) auto
    let ?v = "\<lparr>OSEventType = 3, OSEventPtr = No_ptr, OSEventCnt = cnt, ev_wait = ps_empty\<rparr>"
    have new: "v\<lparr>OSEventType := 3, OSEventCnt := cnt, OSEventPtr := No_ptr, ev_wait := ps_empty\<rparr> = ?v" for v :: event
      by (cases v) simp
    have s': "s' = s\<lparr>OSEventFreeList := n, OSEventTbl := (OSEventTbl s)(e := ?v)\<rparr>" and r: "r = Some e"
      using eq False e rest(3) by (auto simp: new OSSemCreate_def Let_def upd_event_def OS_EventWaitListInit_def)
    have slot: "slot_ok s' p" for p
    proof -
      have old: "slot_ok s p" using kcoreD(4) [OF k] .
      have none: "p \<notin> waits s e" for p
      proof
        assume w: "p \<in> waits s e"
        then obtain i where i: "OSTCBPrioTbl s p = Task i" using waiting_task [OF k] by blast
        have "OSTCBEventPtr (OSTCBTbl s i) = Some e" "OSEventType (OSEventTbl s e) = 3"
          using kcore_task(1) [OF k i] w by (auto simp: task_ok_def task_rel_def split: option.splits)
        then show False using rest(2) by simp
      qed
      have w: "waits s' x = waits s x" for x using none by (auto simp: s')
      show ?thesis
      proof (cases "OSTCBPrioTbl s p")
        case (Task i)
        have "task_ok s p (OSTCBTbl s i)" using kcore_task(1) [OF k Task] .
        moreover have "OSTCBEventPtr (OSTCBTbl s i) \<noteq> Some e"
          using kcore_task(1) [OF k Task] rest(2) by (auto simp: task_ok_def task_rel_def)
        ultimately have "task_ok s' p (OSTCBTbl s i)"
          unfolding task_ok_def task_rel_def w by (auto simp: s' split: option.splits)
        then show ?thesis by (simp add: slot_ok_def s' Task)
      qed (use old in \<open>simp_all add: slot_ok_def w\<close>, simp_all add: s')
    qed
    have "free_chain (OSEventTbl s') n rest = free_chain (OSEventTbl s) n rest"
      by (rule free_chain_cong) (use es(1) rest(1) in \<open>auto simp: s'\<close>)
    then have "free_ok s'" unfolding free_ok_def
      by (intro exI [of _ rest]) (use es(1) rest in \<open>simp add: s'\<close>)
    moreover have "list_ok s'" using kcoreD(5) [OF k] by (simp add: list_ok_def s')
    moreover have "sem_ok (OSEventTbl s' x)" for x using kcoreD(2) [OF k, of x] by (simp add: s' sem_ok_def)
    moreover have "s' = s\<lparr>OSEventTbl := (OSEventTbl s)(e := ?v), OSEventFreeList := n\<rparr>" by (simp add: s')
    then have "\<exists>x y. s' = s\<lparr>OSEventTbl := x, OSEventFreeList := y\<rparr>" by blast
    ultimately show ?thesis using slot kcoreD(1) [OF k] rest(2) by (simp add: kcore_def r) (simp add: s')
  qed
  then show "kcore s'" "case r of None \<Rightarrow> s' = s
     | Some e \<Rightarrow> OSEventType (OSEventTbl s e) = 0
         \<and> OSEventTbl s' = (OSEventTbl s)(e := \<lparr>OSEventType = 3, OSEventPtr = No_ptr, OSEventCnt = cnt, ev_wait = ps_empty\<rparr>)"
    "\<exists>x y. s' = s\<lparr>OSEventTbl := x, OSEventFreeList := y\<rparr>" by blast+
  then show "OSRdy s' = OSRdy s" "OSTCBTbl s' = OSTCBTbl s" "OSTCBPrioTbl s' = OSTCBPrioTbl s" by auto
qed

text \<open>What the control block of a new task holds.\<close>

definition fresh_tcb :: "u8 \<Rightarrow> tcb \<Rightarrow> tcb" where
  "fresh_tcb prio t = set_prio prio (t\<lparr>OSTCBStat := 0, OSTCBStatPend := 0, OSTCBDly := 0, OSTCBEventPtr := None, OSTCBMsg := 0\<rparr>)"

lemma fresh_tcb [simp]:
  "OSTCBStat (fresh_tcb prio t) = 0" "OSTCBDly (fresh_tcb prio t) = 0" "OSTCBEventPtr (fresh_tcb prio t) = None"
  "unat prio < 64 \<Longrightarrow> tcb_ok (unat prio) (fresh_tcb prio t)"
  by (simp_all add: fresh_tcb_def set_prio_ok) (simp_all add: set_prio_def Let_def)

lemma tcb_init_ok:
  assumes k: "kcore s" and null: "OSTCBPrioTbl s (unat prio) = Null" and p: "unat prio < 64" and free: "OSTCBFreeList s = i # is"
    and eq: "OS_TCBInit prio (s\<lparr>OSTCBPrioTbl := (OSTCBPrioTbl s)(unat prio := Reserved)\<rparr>) = (s', err)"
  shows "kcore s'" "err = 0" "ready s' = insert (unat prio) (ready s)" "OSEventTbl s' = OSEventTbl s"
    "OSTCBPrioTbl s' = (OSTCBPrioTbl s)(unat prio := Task i)" "OSTCBTbl s' = (OSTCBTbl s)(i := fresh_tcb prio (OSTCBTbl s i))"
    "\<exists>r x y l f. s' = s\<lparr>OSRdy := r, OSTCBPrioTbl := x, OSTCBTbl := y, OSTCBList := l, OSTCBFreeList := f\<rparr>"
proof -
  let ?p = "unat prio" and ?t = "fresh_tcb prio (OSTCBTbl s i)"
  have s': "s' = s\<lparr>OSRdy := ps_add (OSTCBY ?t) ?t (OSRdy s), OSTCBPrioTbl := (OSTCBPrioTbl s)(?p := Task i),
      OSTCBTbl := (OSTCBTbl s)(i := ?t), OSTCBList := i # OSTCBList s, OSTCBFreeList := is\<rparr>" and err: "err = 0"
    using eq by (auto simp: OS_TCBInit_def free Let_def upd_tcb_def upd_rdy_def fresh_tcb_def)
  obtain us j vs where l: "OSTCBList s = us @ j # vs" "OSTCBPrioTbl s 63 = Task j" "distinct us"
    "\<And>i. i \<in> set us \<longleftrightarrow> (\<exists>p. p \<noteq> 63 \<and> OSTCBPrioTbl s p = Task i)"
    and f: "distinct (OSTCBFreeList s)" "\<And>i p. i \<in> set (OSTCBFreeList s) \<Longrightarrow> OSTCBPrioTbl s p \<noteq> Task i"
    using kcoreD(5) [OF k] unfolding list_ok_def by blast
  have p63: "?p \<noteq> 63" using null l(2) by auto
  have new: "OSTCBPrioTbl s q \<noteq> Task i" for q using f(2) free by simp
  have y: "unat (OSTCBY ?t) = ?p div 8" using fresh_tcb(4) [OF p] by (simp add: tcb_ok_def)
  have r: "ps_ok (OSRdy s')" "ready s' = insert ?p (ready s)"
    using ps_add_ok [OF kcoreD(1) [OF k] fresh_tcb(4) [OF p] y] by (simp_all add: s')
  have none: "?p \<notin> ready s" "?p \<notin> waits s e" for e using kcoreD(4) [OF k, of ?p] null by (simp_all add: slot_ok_def)
  have slot: "slot_ok s' q" for q
  proof (cases "q = ?p")
    case True
    have w: "{e. ?p \<in> waits s' e} = {}" using none by (simp add: s')
    have "task_ok s' ?p ?t" unfolding task_ok_def w using r(2) fresh_tcb(4) [OF p] by (simp add: task_rel_def p63)
    moreover have "OSTCBPrioTbl s' ?p = Task i" "OSTCBTbl s' i = ?t" by (simp_all add: s')
    ultimately show ?thesis using True by (simp add: slot_ok_def)
  next
    case False
    have w: "(q \<in> ready s') = (q \<in> ready s)" "{e. q \<in> waits s' e} = {e. q \<in> waits s e}"
      "(\<lambda>e. OSEventType (OSEventTbl s' e)) = (\<lambda>e. OSEventType (OSEventTbl s e))"
      using False by (simp_all add: r(2)) (simp_all add: s')
    have pt: "OSTCBPrioTbl s' q = OSTCBPrioTbl s q" "OSTCBPrioTbl s q = Task j \<Longrightarrow> OSTCBTbl s' j = OSTCBTbl s j" for j
      using False new [of q] by (auto simp: s')
    have ww: "waits s' e = waits s e" for e by (simp add: s')
    show ?thesis using kcoreD(4) [OF k, of q] unfolding slot_ok_def task_ok_def pt(1) w ww
      by (simp add: pt(2) split: tcb_ref.splits)
  qed
  have "list_ok s'" unfolding list_ok_def
  proof (intro conjI, rule exI [of _ "i # us"], rule exI [of _ j], rule exI [of _ vs], intro conjI)
    show "\<forall>k. k \<in> set (i # us) \<longleftrightarrow> (\<exists>p. p \<noteq> 63 \<and> OSTCBPrioTbl s' p = Task k)"
    proof
      fix k
      have "(\<exists>p. p \<noteq> 63 \<and> OSTCBPrioTbl s' p = Task k) \<longleftrightarrow> k = i \<or> (\<exists>p. p \<noteq> 63 \<and> OSTCBPrioTbl s p = Task k)"
      proof
        assume "k = i \<or> (\<exists>p. p \<noteq> 63 \<and> OSTCBPrioTbl s p = Task k)"
        then show "\<exists>p. p \<noteq> 63 \<and> OSTCBPrioTbl s' p = Task k"
        proof
          assume "k = i"
          then show ?thesis using p63 by (intro exI [of _ ?p]) (simp add: s')
        next
          assume "\<exists>p. p \<noteq> 63 \<and> OSTCBPrioTbl s p = Task k"
          then obtain q where "q \<noteq> 63" "OSTCBPrioTbl s q = Task k" by blast
          then show ?thesis using null by (intro exI [of _ q]) (auto simp: s')
        qed
      qed (auto simp: s' split: if_splits)
      then show "k \<in> set (i # us) \<longleftrightarrow> (\<exists>p. p \<noteq> 63 \<and> OSTCBPrioTbl s' p = Task k)" using l(4) [of k] by auto
    qed
    show "distinct (i # us)" using l(3,4) new by auto
  qed (use l f free p63 in \<open>auto simp: s'\<close>)
  moreover have "free_ok s'" using kcoreD(6) [OF k] by (simp add: free_ok_def s')
  moreover have "sem_ok (OSEventTbl s' e)" for e using kcoreD(2) [OF k, of e] by (simp add: s')
  ultimately show "kcore s'" using slot r(1) by (simp add: kcore_def)
  have "OSEventTbl s' = OSEventTbl s" "OSTCBPrioTbl s' = (OSTCBPrioTbl s)(?p := Task i)"
    "OSTCBTbl s' = (OSTCBTbl s)(i := ?t)" by (simp_all add: s')
  then show "OSEventTbl s' = OSEventTbl s" "OSTCBPrioTbl s' = (OSTCBPrioTbl s)(?p := Task i)"
    "OSTCBTbl s' = (OSTCBTbl s)(i := ?t)" .
  show "\<exists>r x y l f. s' = s\<lparr>OSRdy := r, OSTCBPrioTbl := x, OSTCBTbl := y, OSTCBList := l, OSTCBFreeList := f\<rparr>"
    unfolding s' by blast
  show "err = 0" "ready s' = insert (unat prio) (ready s)" by (rule err r(2))+
qed

lemma task_create_cases:
  assumes k: "kcore s" and p: "unat prio < 64"
  obtains (out) err where "OSTaskCreate prio s = Some (s, err)" "err \<noteq> 0"
  | (new) i s' where "OSTCBPrioTbl s (unat prio) = Null" "i \<in> set (OSTCBFreeList s)" "kcore s'" "ready s' = insert (unat prio) (ready s)"
      "OSEventTbl s' = OSEventTbl s" "OSTCBPrioTbl s' = (OSTCBPrioTbl s)(unat prio := Task i)"
      "OSTCBTbl s' = (OSTCBTbl s)(i := fresh_tcb prio (OSTCBTbl s i))"
      "\<exists>r x y l f. s' = s\<lparr>OSRdy := r, OSTCBPrioTbl := x, OSTCBTbl := y, OSTCBList := l, OSTCBFreeList := f\<rparr>"
      "OSTaskCreate prio s = map_option (\<lambda>s. (s, 0)) (if OSRunning s then OS_Sched s' else Some s')"
proof (cases "OSIntNesting s > 0 \<or> OSTCBPrioTbl s (unat prio) \<noteq> Null")
  case True
  then have "OSTaskCreate prio s = Some (s, if OSIntNesting s > 0 then 60 else 40)"
    by (elim disjE) (simp_all add: OSTaskCreate_def)
  then show ?thesis by (rule out) simp
next
  case False
  then have n: "OSIntNesting s = 0" "OSTCBPrioTbl s (unat prio) = Null" by (simp_all add: word_gt_0)
  let ?s = "s\<lparr>OSTCBPrioTbl := (OSTCBPrioTbl s)(unat prio := Reserved)\<rparr>"
  show ?thesis
  proof (cases "OSTCBFreeList s")
    case Nil
    have "OSTaskCreate prio s = Some (s\<lparr>OSTCBPrioTbl := (OSTCBPrioTbl s)(unat prio := Null)\<rparr>, 66)"
      by (simp add: OSTaskCreate_def n OS_TCBInit_def Nil Let_def)
    moreover have "(OSTCBPrioTbl s)(unat prio := Null) = OSTCBPrioTbl s" using n(2) by auto
    ultimately show ?thesis using out by simp
  next
    case (Cons i free)
    obtain s' err where eq: "OS_TCBInit prio ?s = (s', err)" by (cases "OS_TCBInit prio ?s")
    note t = tcb_init_ok [OF k n(2) p Cons eq]
    have run: "OSRunning s' = OSRunning s" using t(7) by auto
    show ?thesis
      by (rule new [of i s']) (use n Cons t eq run in \<open>simp_all add: OSTaskCreate_def\<close>)
  qed
qed

section \<open>The start\<close>

lemma clear_chain: "k < 20 \<Longrightarrow> free_chain (OSEventTbl os_clear) (Some k) [k..<20]"
proof (induction "19 - k" arbitrary: k)
  case 0
  then have "k = 19" by simp
  then show ?case by (simp add: os_clear_def)
next
  case (Suc n)
  then have k: "k < 19" by simp
  have "free_chain (OSEventTbl os_clear) (Some (k + 1)) [k + 1..<20]" by (rule Suc.hyps(1)) (use Suc.hyps(2) k in simp_all)
  then show ?case using k by (subst upt_conv_Cons) (simp_all add: os_clear_def)
qed

text \<open>The first task is the idle task.\<close>

lemma idle_created: "\<exists>s. OSTaskCreate 63 os_clear = Some (s, 0) \<and> kcore s \<and> \<not> OSRunning s \<and> OSIntNesting s = 0
  \<and> OSLockNesting s = 0 \<and> OSTCBPrioTbl s = (\<lambda>_. Null)(63 := Task 0) \<and> OSTCBFreeList s = [1..<22]"
proof -
  let ?t = "fresh_tcb 63 tcb0"
  have u: "unat (63 :: u8) = 63" by simp
  have t: "tcb_ok 63 ?t" using fresh_tcb(4) [of 63 tcb0] by simp
  define s where "s = os_clear\<lparr>OSRdy := ps_add (OSTCBY ?t) ?t ps_empty, OSTCBPrioTbl := (\<lambda>_. Null)(63 := Task 0),
     OSTCBTbl := (\<lambda>_. tcb0)(0 := ?t), OSTCBList := [0], OSTCBFreeList := [1..<22]\<rparr>"
  have l: "[0..<22] = 0 # [1..<22 :: nat]" by (subst upt_conv_Cons) simp_all
  have "OSTaskCreate 63 os_clear = Some (s, 0)"
    by (simp add: OSTaskCreate_def os_clear_def OS_TCBInit_def l Let_def upd_tcb_def upd_rdy_def s_def fresh_tcb_def fun_upd_def
      cong: if_cong)
  moreover have "kcore s"
  proof -
    have r: "ps_ok (OSRdy s)" "ready s = {63}"
      using ps_add_ok [OF ps_empty_ok(1) t, of "OSTCBY ?t"] t by (simp_all add: s_def tcb_ok_def)
    have w: "waits s e = {}" for e by (simp add: s_def os_clear_def)
    have "slot_ok s p" for p
    proof (cases "p = 63")
      case True
      have "task_ok s 63 ?t" using r(2) t w by (simp add: task_ok_def task_rel_def)
      then show ?thesis using True by (simp add: slot_ok_def) (simp add: s_def)
    next
      case False
      then have "OSTCBPrioTbl s p = Null" by (simp add: s_def)
      then show ?thesis using False r(2) w by (simp add: slot_ok_def)
    qed
    moreover have "list_ok s" unfolding list_ok_def
      by (intro conjI, rule exI [of _ "[]"], rule exI [of _ 0], rule exI [of _ "[]"]) (auto simp: s_def split: if_splits)
    moreover have "free_ok s" unfolding free_ok_def
      by (rule exI [of _ "[0..<20]"]) (use clear_chain [of 0] in \<open>simp add: s_def os_clear_def\<close>)
    moreover have "sem_ok (OSEventTbl s e)" for e by (simp add: s_def os_clear_def sem_ok_def)
    ultimately show ?thesis using r(1) by (simp add: kcore_def)
  qed
  ultimately show ?thesis by (simp add: s_def os_clear_def)
qed

end
