(* ===== verification/KernelRun.thy ===== *)
theory KernelRun
  imports KernelSafety
begin

text \<open>
  What the kernel keeps over every sequence of calls of the tasks and of the interrupt handlers: a call never follows a
  bad pointer, the most urgent task that can run is running, a semaphore neither loses nor invents units, and a delay
  ends.
\<close>

section \<open>Calls\<close>

text \<open>
  The calls of the tasks and of the interrupt handlers with what they return.  \<open>Sem_pend_rest e\<close> is what the task that
  waited in \<open>OSSemPend\<close> does when it runs again.
\<close>

datatype call =
    Sem_pend nat u32 | Sem_pend_rest nat | Sem_post nat | Sem_accept nat
  | Sem_create u16 | Sem_abort nat bool | Task_create u8
  | Time_dly u32 | Time_tick | Dly_resume u8 | Int_enter | Int_exit | Sched_lock | Sched_unlock

datatype ret = Err u8 | Units u16 | Made "nat option" | Aborted nat u8 | Blocked | Void

fun kcall :: "call \<Rightarrow> os \<Rightarrow> (os \<times> ret) option" where
  "kcall (Sem_pend e timeout) s = map_option (\<lambda>(s, r). (s, case r of Done err \<Rightarrow> Err err | Waits \<Rightarrow> Blocked)) (OSSemPend e timeout s)"
| "kcall (Sem_pend_rest e) s = Some (map_prod id Err (OSSemPend_rest e s))"
| "kcall (Sem_post e) s = map_option (map_prod id Err) (OSSemPost e s)"
| "kcall (Sem_accept e) s = Some (map_prod id Units (OSSemAccept e s))"
| "kcall (Sem_create cnt) s = Some (map_prod id Made (OSSemCreate cnt s))"
| "kcall (Sem_abort e broadcast) s = map_option (\<lambda>(s, n, err). (s, Aborted n err)) (OSSemPendAbort e broadcast s)"
| "kcall (Task_create prio) s = map_option (map_prod id Err) (OSTaskCreate prio s)"
| "kcall (Dly_resume prio) s = map_option (map_prod id Err) (OSTimeDlyResume prio s)"
| "kcall (Time_dly ticks) s = map_option (\<lambda>s. (s, Void)) (OSTimeDly ticks s)"
| "kcall Time_tick s = Some (OSTimeTick s, Void)"
| "kcall Int_enter s = Some (OSIntEnter s, Void)"
| "kcall Int_exit s = map_option (\<lambda>s. (s, Void)) (OSIntExit s)"
| "kcall Sched_lock s = Some (OSSchedLock s, Void)"
| "kcall Sched_unlock s = map_option (\<lambda>s. (s, Void)) (OSSchedUnlock s)"

text \<open>
  What can happen next: a task that was waiting goes on with the rest of its \<open>OSSemPend\<close>, another calls what it likes but
  the idle task neither waits nor sleeps; the clock ticks inside an interrupt.
\<close>

fun allowed :: "call \<Rightarrow> os \<Rightarrow> bool" where
  "allowed (Sem_pend e timeout) s \<longleftrightarrow> OSIntNesting s = 0 \<longrightarrow> OSTCBEventPtr (cur_tcb s) = None \<and> unat (OSPrioCur s) \<noteq> 63"
| "allowed (Sem_pend_rest e) s \<longleftrightarrow> OSIntNesting s = 0 \<and> OSTCBEventPtr (cur_tcb s) = Some e"
| "allowed (Time_dly ticks) s \<longleftrightarrow> OSIntNesting s = 0 \<longrightarrow> OSTCBEventPtr (cur_tcb s) = None \<and> unat (OSPrioCur s) \<noteq> 63"
| "allowed Time_tick s \<longleftrightarrow> OSIntNesting s > 0"
| "allowed Int_enter s \<longleftrightarrow> True"
| "allowed Int_exit s \<longleftrightarrow> OSIntNesting s > 0"
| "allowed (Task_create prio) s \<longleftrightarrow> unat prio < 64 \<and> (OSIntNesting s = 0 \<longrightarrow> OSTCBEventPtr (cur_tcb s) = None)"
| "allowed c s \<longleftrightarrow> OSIntNesting s = 0 \<longrightarrow> OSTCBEventPtr (cur_tcb s) = None"

section \<open>The units of a semaphore\<close>

text \<open>A unit is in the counter, or is held for a task that has been given it and has not yet returned from \<open>OSSemPend\<close>.\<close>

definition granted :: "os \<Rightarrow> nat \<Rightarrow> nat set" where
  "granted s e = {p. p \<notin> waits s e \<and> (\<exists>i. OSTCBPrioTbl s p = Task i \<and> OSTCBEventPtr (OSTCBTbl s i) = Some e
     \<and> OSTCBStatPend (OSTCBTbl s i) = 0)}"

definition units :: "os \<Rightarrow> nat \<Rightarrow> nat" where
  "units s e = (if OSEventType (OSEventTbl s e) = 3 then unat (OSEventCnt (OSEventTbl s e)) else 0) + card (granted s e)"

fun units_in :: "nat \<Rightarrow> call \<times> ret \<Rightarrow> nat" where
  "units_in e (Sem_post x, Err err) = of_bool (x = e \<and> err = 0)"
| "units_in e (Sem_create cnt, Made x) = (if x = Some e then unat cnt else 0)"
| "units_in e _ = 0"

fun units_out :: "nat \<Rightarrow> call \<times> ret \<Rightarrow> nat" where
  "units_out e (Sem_pend x timeout, Err err) = of_bool (x = e \<and> err = 0)"
| "units_out e (Sem_pend_rest x, Err err) = of_bool (x = e \<and> err = 0)"
| "units_out e (Sem_accept x, Units n) = of_bool (x = e \<and> n > 0)"
| "units_out e _ = 0"

lemma finite_granted [simp]: "kcore s \<Longrightarrow> finite (granted s e)"
proof (rule finite_subset [of _ "{..<64}"])
  assume k: "kcore s"
  show "granted s e \<subseteq> {..<64}" using kcore_task(2) [OF k] by (auto simp: granted_def tcb_ok_def)
qed simp

lemma granted_same:
  assumes "OSTCBPrioTbl s' = OSTCBPrioTbl s" "OSTCBTbl s' = OSTCBTbl s" "waits s' e = waits s e"
  shows "granted s' e = granted s e"
  by (simp add: granted_def assms)

lemma units_same_tasks: "same_tasks s s' \<Longrightarrow> units s' e = units s e"
  by (simp add: units_def granted_def same_tasksD)

text \<open>When one task changes, its state alone decides.\<close>

lemma granted_change:
  assumes k: "kcore s" and p: "OSTCBPrioTbl s p = Task i"
    and "OSTCBPrioTbl s' = OSTCBPrioTbl s" "\<And>j. j \<noteq> i \<Longrightarrow> OSTCBTbl s' j = OSTCBTbl s j"
    and "\<And>q. q \<noteq> p \<Longrightarrow> q \<in> waits s' e \<longleftrightarrow> q \<in> waits s e"
  shows "granted s' e - {p} = granted s e - {p}"
proof -
  have other: "OSTCBTbl s' j = OSTCBTbl s j" if q: "OSTCBPrioTbl s q = Task j" "q \<noteq> p" for q j
  proof (rule assms(4))
    show "j \<noteq> i"
    proof
      assume "j = i"
      then have "p = q" using q(1) task_unique [OF k p] by simp
      then show False using q(2) by simp
    qed
  qed
  have "q \<in> granted s' e \<longleftrightarrow> q \<in> granted s e" if "q \<noteq> p" for q
    using other [OF _ that] assms(5) [OF that] unfolding granted_def mem_Collect_eq assms(3) by metis
  then show ?thesis by blast
qed

lemma card_change:
  assumes "finite A" "A' - {p} = A - {p}"
  shows "card A' + of_bool (p \<in> A) = card A + of_bool (p \<in> A')"
proof -
  have f: "finite A'" using assms finite_Diff2 [of "{p}" A'] by simp
  have "card A = card (A - {p}) + of_bool (p \<in> A)" using card.remove [OF assms(1), of p] by (cases "p \<in> A") simp_all
  moreover have "card A' = card (A' - {p}) + of_bool (p \<in> A')" using card.remove [OF f, of p] by (cases "p \<in> A'") simp_all
  ultimately show ?thesis using assms(2) by simp
qed

text \<open>A task that cannot run and still cannot keeps its delay, but for \<open>n\<close> ticks.\<close>

definition asleep :: "nat \<Rightarrow> os \<Rightarrow> os \<Rightarrow> bool" where
  "asleep n s s' \<longleftrightarrow> (\<forall>p i. OSTCBPrioTbl s p = Task i \<and> p \<notin> ready s \<longrightarrow> p \<in> ready s' \<or>
     OSTCBPrioTbl s' p = Task i \<and> unat (OSTCBDly (OSTCBTbl s' i)) = unat (OSTCBDly (OSTCBTbl s i)) - n
     \<and> (OSTCBDly (OSTCBTbl s' i) = 0 \<longrightarrow> OSTCBDly (OSTCBTbl s i) = 0))"

lemma asleep_cong: "OSTCBPrioTbl s' = OSTCBPrioTbl s \<Longrightarrow> OSTCBTbl s' = OSTCBTbl s \<Longrightarrow> asleep 0 s s'"
  by (simp add: asleep_def)

lemma asleep_refl [simp]: "asleep 0 s s"
  by (rule asleep_cong) simp_all

lemma asleep_same: "asleep n s s1 \<Longrightarrow> same_tasks s1 s' \<Longrightarrow> asleep n s s'"
  by (simp add: asleep_def same_tasksD)

lemma asleep_task:
  assumes k: "kcore s" and q: "OSTCBPrioTbl s q = Task j" "q \<in> ready s \<or> q \<in> ready s'" and pt: "OSTCBPrioTbl s' = OSTCBPrioTbl s"
    and t: "\<And>k. k \<noteq> j \<Longrightarrow> OSTCBTbl s' k = OSTCBTbl s k"
  shows "asleep 0 s s'"
  unfolding asleep_def
proof (intro allI impI)
  fix p i assume p: "OSTCBPrioTbl s p = Task i \<and> p \<notin> ready s"
  show "p \<in> ready s' \<or> OSTCBPrioTbl s' p = Task i \<and> unat (OSTCBDly (OSTCBTbl s' i)) = unat (OSTCBDly (OSTCBTbl s i)) - 0
     \<and> (OSTCBDly (OSTCBTbl s' i) = 0 \<longrightarrow> OSTCBDly (OSTCBTbl s i) = 0)"
  proof (cases "p = q")
    case False
    then have "i \<noteq> j" using task_unique [OF k q(1), of p] p by metis
    then show ?thesis using p t pt by simp
  qed (use p q in auto)
qed

lemma asleep_trans: "asleep 0 s s1 \<Longrightarrow> asleep 0 s1 s2 \<Longrightarrow> ready s1 \<subseteq> ready s2 \<Longrightarrow> asleep 0 s s2"
  unfolding asleep_def by fastforce

text \<open>A call that keeps the kernel in order, the books of all semaphores balanced and the delays of the others.\<close>

definition good_step :: "call \<Rightarrow> os \<Rightarrow> os \<times> ret \<Rightarrow> bool" where
  "good_step c s = (\<lambda>(s', r). kernel_ok s' \<and> (\<forall>e. units s' e + units_out e (c, r) = units s e + units_in e (c, r))
     \<and> asleep (of_bool (c = Time_tick)) s s')"

lemma kernel_upd_event:
  assumes k: "kernel_ok s" and e: "sem_ok (f (OSEventTbl s e))" "OSEventType (f (OSEventTbl s e)) = OSEventType (OSEventTbl s e)"
    "OSEventType (OSEventTbl s e) = 3" "ev_wait (f (OSEventTbl s e)) = ev_wait (OSEventTbl s e)" "OSEventPtr (f (OSEventTbl s e)) = OSEventPtr (OSEventTbl s e)"
  shows "kernel_ok (upd_event e f s)"
    "units (upd_event e f s) x = (if x = e then unat (OSEventCnt (f (OSEventTbl s e))) + card (granted s e) else units s x)"
proof -
  have "kcore (upd_event e f s)" using k e by (intro kcore_upd_event) (simp_all add: kernel_ok_def)
  then show "kernel_ok (upd_event e f s)" using k by (simp add: kernel_ok_def running_def upd_event_def)
  have "granted (upd_event e f s) x = granted s x"
    by (rule granted_same) (use e(4) in \<open>simp_all add: upd_event_def\<close>)
  then show "units (upd_event e f s) x = (if x = e then unat (OSEventCnt (f (OSEventTbl s e))) + card (granted s e) else units s x)"
    by (simp add: units_def) (simp add: upd_event_def e(2,3))
qed

lemma asleep_upd_event [simp]: "asleep 0 s (upd_event e f s)"
  by (rule asleep_cong) (simp_all add: upd_event_def)

lemma take_unit:
  assumes k: "kernel_ok s" and e: "OSEventType (OSEventTbl s e) = 3" "OSEventCnt (OSEventTbl s e) > 0"
  defines "s' \<equiv> upd_event e (\<lambda>v. v\<lparr>OSEventCnt := OSEventCnt v - 1\<rparr>) s"
  shows "kernel_ok s'" "\<forall>x. units s' x + of_bool (e = x) = units s x"
proof -
  have "kcore s" using k by (simp add: kernel_ok_def)
  from kcoreD(2) [OF this, of e] have "sem_ok ((OSEventTbl s e)\<lparr>OSEventCnt := OSEventCnt (OSEventTbl s e) - 1\<rparr>)"
    using e by (auto simp: sem_ok_def)
  note u = kernel_upd_event [OF k, of "\<lambda>v. v\<lparr>OSEventCnt := OSEventCnt v - 1\<rparr>" e, OF this]
  show "kernel_ok s'" unfolding s'_def by (rule u(1)) (simp_all add: e(1))
  have "unat (OSEventCnt (OSEventTbl s e) - 1) + 1 = unat (OSEventCnt (OSEventTbl s e))"
    using e(2) by (simp add: unat_minus_one word_gt_0 unat_gt_0)
  moreover have "units s' x = (if x = e then unat (OSEventCnt (OSEventTbl s e) - 1) + card (granted s e) else units s x)" for x
    unfolding s'_def by (subst u(2)) (simp_all add: e(1))
  ultimately show "\<forall>x. units s' x + of_bool (e = x) = units s x" by (simp add: units_def e(1))
qed

lemma accept_step: "kernel_ok s \<Longrightarrow> \<exists>x. kcall (Sem_accept e) s = Some x \<and> good_step (Sem_accept e) s x"
  using take_unit [of s e] by (simp add: OSSemAccept_def Let_def good_step_def)

lemma pend_step:
  assumes k: "kernel_ok s" and a: "allowed (Sem_pend e timeout) s"
  shows "\<exists>x. kcall (Sem_pend e timeout) s = Some x \<and> good_step (Sem_pend e timeout) s x"
proof -
  let ?v = "OSEventTbl s e"
  consider (out) err where "OSSemPend e timeout s = Some (s, Done err)" "err \<noteq> 0"
    | (unit) "OSEventType ?v = 3" "OSEventCnt ?v > 0"
        "OSSemPend e timeout s = Some (upd_event e (\<lambda>v. v\<lparr>OSEventCnt := OSEventCnt v - 1\<rparr>) s, Done 0)"
    | (wait) "OSEventType ?v = 3" "OSEventCnt ?v = 0" "OSIntNesting s = 0" "OSLockNesting s = 0"
        "OSSemPend e timeout s = map_option (\<lambda>s. (s, Waits)) (OS_Sched (block_on e timeout s))"
    by (cases "OSEventType ?v = 3"; cases "OSIntNesting s = 0"; cases "OSLockNesting s = 0"; cases "OSEventCnt ?v = 0")
      (simp_all add: OSSemPend_def Let_def block_on_def word_gt_0)
  then show ?thesis
  proof cases
    case out
    then show ?thesis using k by (simp add: good_step_def)
  next
    case unit
    then show ?thesis using take_unit [OF k unit(1,2)] by (simp add: good_step_def)
  next
    case wait
    have idle: "unat (OSPrioCur s) \<noteq> 63" "OSTCBEventPtr (cur_tcb s) = None" using a wait(3) by simp_all
    note b = block_ok [OF k wait(1,2) idle, where timeout = timeout]
    obtain s' where s': "OS_Sched (block_on e timeout s) = Some s'" "same_tasks (block_on e timeout s) s'" "kernel_ok s'"
      using OS_Sched_ok [OF b(1,2)] wait(3,4) by (auto simp: b(6,7))
    note c = cur_task [OF k]
    have u: "units (block_on e timeout s) x = units s x" for x
    proof -
      have p: "OSTCBPrioTbl (block_on e timeout s) = OSTCBPrioTbl s"
        by (simp add: block_on_def OS_EventTaskWait_def Let_def upd_tcb_def upd_event_def upd_rdy_def)
      have "granted (block_on e timeout s) x - {unat (OSPrioCur s)} = granted s x - {unat (OSPrioCur s)}"
        by (rule granted_change [OF c(1,3) p]) (simp_all add: b(3,4))
      moreover have "unat (OSPrioCur s) \<notin> granted s x" using c(3) idle(2) by (simp add: granted_def)
      moreover have "unat (OSPrioCur s) \<notin> granted (block_on e timeout s) x"
        using c(3) by (auto simp: granted_def b(3,4) p)
      ultimately have "granted (block_on e timeout s) x = granted s x" by blast
      then show ?thesis using b(5) by (simp add: units_def) (metis fun_upd_apply event.ext_inject event.surjective event.update_convs(4))
    qed
    have "asleep 0 s (block_on e timeout s)"
      by (rule asleep_task [OF c(1,3)]) (use c(6) in \<open>simp_all add: b(3)\<close>,
        simp add: block_on_def OS_EventTaskWait_def Let_def upd_tcb_def upd_event_def upd_rdy_def)
    then show ?thesis using s' wait(5) u by (simp add: good_step_def units_same_tasks [OF s'(2)] asleep_same [OF _ s'(2)])
  qed
qed

lemma pend_rest_step:
  assumes k: "kernel_ok s" and a: "allowed (Sem_pend_rest e) s"
  shows "\<exists>x. kcall (Sem_pend_rest e) s = Some x \<and> good_step (Sem_pend_rest e) s x"
proof -
  obtain s' err where eq: "OSSemPend_rest e s = (s', err)" by (cases "OSSemPend_rest e s")
  have e: "OSTCBEventPtr (cur_tcb s) = Some e" using a by simp
  note r = pend_rest_ok [OF k e eq]
  note c = cur_task [OF k]
  let ?p = "unat (OSPrioCur s)"
  have "units s' x + of_bool (e = x \<and> err = 0) = units s x" for x
  proof -
    have "granted s' x - {?p} = granted s x - {?p}"
      by (rule granted_change [OF c(1,3) r(4)]) (simp_all add: r(5,6))
    then have cc: "card (granted s' x) + of_bool (?p \<in> granted s x) = card (granted s x) + of_bool (?p \<in> granted s' x)"
      by (rule card_change [OF finite_granted [OF c(1)]])
    have "?p \<notin> granted s' x" using c(3) by (auto simp: granted_def r(4,5))
    moreover have "?p \<in> granted s x \<longleftrightarrow> e = x \<and> err = 0"
      using c(3) e r(8) by (auto simp: granted_def split: if_splits)
    moreover have "OSEventCnt (OSEventTbl s' x) = OSEventCnt (OSEventTbl s x)" "OSEventType (OSEventTbl s' x) = OSEventType (OSEventTbl s x)"
      using r(7) [of x] by (metis event.ext_inject event.surjective event.update_convs(4))+
    ultimately show ?thesis using cc by (simp add: units_def)
  qed
  moreover have "asleep 0 s s'" by (rule asleep_task [OF c(1,3)]) (use c(6) in \<open>simp_all add: r(4,5)\<close>)
  ultimately show ?thesis using r(1) by (simp add: eq good_step_def)
qed

text \<open>The most urgent waiting task is made ready, with a unit or because its wait is given up.\<close>

lemma wake_ok:
  assumes k: "kcore s" "running s" "unat (OSPrioCur s) \<in> ready s" and w: "waits s e \<noteq> {}" and st: "st = 0 \<or> st = 2"
  defines "p \<equiv> Min (waits s e)"
  shows "\<exists>s1. OS_EventTaskRdy e 0 1 st s = Some (s1, of_nat p) \<and> kcore s1 \<and> running s1 \<and> unat (OSPrioCur s1) \<in> ready s1
     \<and> ready s1 = insert p (ready s) \<and> (\<forall>x. waits s1 x = (if x = e then waits s e - {p} else waits s x))
     \<and> (\<forall>y. units s1 y = units s y + of_bool (e = y \<and> st = 0)) \<and> asleep 0 s s1"
proof -
  obtain i s1 where i: "OSTCBPrioTbl s p = Task i" "OS_EventTaskRdy e 0 1 st s = Some (s1, of_nat p)" "kcore s1"
      "ready s1 = insert p (ready s)" "\<And>x. waits s1 x = (if x = e then waits s e - {p} else waits s x)"
      "OSTCBTbl s1 = (OSTCBTbl s)(i := (OSTCBTbl s i)\<lparr>OSTCBDly := 0, OSTCBMsg := 0, OSTCBStat := 0, OSTCBStatPend := st\<rparr>)"
      "\<exists>r x v. s1 = s\<lparr>OSRdy := r, OSTCBTbl := x, OSEventTbl := (OSEventTbl s)(e := (OSEventTbl s e)\<lparr>ev_wait := v\<rparr>)\<rparr>"
    using task_rdy_ok [OF k(1) w st, of 0] unfolding p_def by blast
  obtain r x v where s1: "s1 = s\<lparr>OSRdy := r, OSTCBTbl := x, OSEventTbl := (OSEventTbl s)(e := (OSEventTbl s e)\<lparr>ev_wait := v\<rparr>)\<rparr>"
    using i(7) by blast
  have run: "running s1" "unat (OSPrioCur s1) \<in> ready s1" using k(2,3) unfolding i(4) by (simp_all add: s1 running_def)
  have pw: "p \<in> waits s e" unfolding p_def using w by simp
  have ptr: "OSTCBEventPtr (OSTCBTbl s i) = Some e"
    using kcore_task(1) [OF k(1) i(1)] pw by (auto simp: task_ok_def task_rel_def)
  have "units s1 y = units s y + of_bool (e = y \<and> st = 0)" for y
  proof -
    have "granted s1 y - {p} = granted s y - {p}"
      by (rule granted_change [OF k(1) i(1)]) (simp add: s1, simp_all add: i(5,6))
    then have cc: "card (granted s1 y) + of_bool (p \<in> granted s y) = card (granted s y) + of_bool (p \<in> granted s1 y)"
      by (rule card_change [OF finite_granted [OF k(1)]])
    have "p \<notin> granted s y" using i(1) ptr pw by (auto simp: granted_def)
    moreover have "OSTCBPrioTbl s1 p = Task i" using i(1) by (simp add: s1)
    then have "p \<in> granted s1 y \<longleftrightarrow> e = y \<and> st = 0"
      using ptr by (auto simp: granted_def i(5,6))
    moreover have "OSEventCnt (OSEventTbl s1 y) = OSEventCnt (OSEventTbl s y)"
      "OSEventType (OSEventTbl s1 y) = OSEventType (OSEventTbl s y)" by (simp_all add: s1)
    ultimately show ?thesis using cc by (simp add: units_def)
  qed
  moreover have "asleep 0 s s1"
    by (rule asleep_task [OF k(1) i(1)]) (simp_all add: i(4), simp add: s1, simp add: i(6))
  ultimately show ?thesis using i(2-5) run by blast
qed

lemma post_step:
  assumes k: "kernel_ok s"
  shows "\<exists>x. kcall (Sem_post e) s = Some x \<and> good_step (Sem_post e) s x"
proof -
  let ?v = "OSEventTbl s e"
  note c = cur_task [OF k]
  have q: "ps_ok (ev_wait ?v)" using kcoreD(3) [OF c(1)] .
  consider (out) err where "OSSemPost e s = Some (s, err)" "err \<noteq> 0"
    | (count) "OSEventType ?v = 3" "waits s e = {}" "OSEventCnt ?v < 65535"
        "OSSemPost e s = Some (upd_event e (\<lambda>v. v\<lparr>OSEventCnt := OSEventCnt v + 1\<rparr>) s, 0)"
    | (wake) "OSEventType ?v = 3" "waits s e \<noteq> {}"
    using prios_empty_iff [OF q] by (cases "OSEventType ?v = 3"; cases "waits s e = {}"; cases "OSEventCnt ?v < 65535")
      (auto simp: OSSemPost_def Let_def)
  then show ?thesis
  proof cases
    case out
    then show ?thesis using k by (simp add: good_step_def)
  next
    case count
    let ?f = "\<lambda>v. v\<lparr>OSEventCnt := OSEventCnt v + 1\<rparr>"
    have "sem_ok (?f ?v)" using kcoreD(2) [OF c(1), of e] count(2) by (simp add: sem_ok_def)
    note u = kernel_upd_event [OF k, of ?f e, OF this]
    have "unat (OSEventCnt ?v + 1) = unat (OSEventCnt ?v) + 1"
      using count(3) by (subst unat_add_small) (simp_all add: word_less_nat_alt)
    then have "units (upd_event e ?f s) x = units s x + of_bool (e = x)" for x
      by (subst u(2)) (auto simp: units_def count(1))
    then show ?thesis using u(1) count(1,4) by (simp add: good_step_def)
  next
    case wake
    obtain s1 where s1: "OS_EventTaskRdy e 0 1 0 s = Some (s1, of_nat (Min (waits s e)))" "kcore s1" "running s1"
        "unat (OSPrioCur s1) \<in> ready s1" "\<forall>y. units s1 y = units s y + of_bool (e = y)" "asleep 0 s s1"
      using wake_ok [OF c(1,2,6) wake(2), of 0] by auto
    obtain s' where s': "OS_Sched s1 = Some s'" "same_tasks s1 s'" "kernel_ok s'"
      using OS_Sched_ok [OF s1(2,3)] s1(4) by blast
    have "OSSemPost e s = Some (s', 0)"
      using wake prios_empty_iff [OF q] by (simp add: OSSemPost_def Let_def s1(1) s'(1))
    then show ?thesis using s'(3) s1(5,6) by (simp add: good_step_def units_same_tasks [OF s'(2)] asleep_same [OF _ s'(2)])
  qed
qed

text \<open>All waiting tasks: the loop ends, since each round takes one out of the wait list.\<close>

lemma ready_all_ok:
  assumes "kcore s" "running s" "unat (OSPrioCur s) \<in> ready s" "st = 0 \<or> st = 2"
  shows "\<exists>s1. ready_all e st s = Some (s1, card (waits s e)) \<and> kcore s1 \<and> running s1 \<and> unat (OSPrioCur s1) \<in> ready s1
     \<and> ready s1 = ready s \<union> waits s e \<and> waits s1 e = {}
     \<and> (\<forall>y. units s1 y = units s y + (if e = y \<and> st = 0 then card (waits s e) else 0)) \<and> asleep 0 s s1"
  using assms
proof (induction "card (waits s e)" arbitrary: s)
  case 0
  then have w: "waits s e = {}" by simp
  then have "grp (ev_wait (OSEventTbl s e)) = 0" using prios_empty_iff [OF kcoreD(3) [OF 0(2)]] by blast
  then show ?case using 0 w by (simp add: ready_all.simps)
next
  case (Suc n)
  then have w: "waits s e \<noteq> {}" by auto
  then have g: "grp (ev_wait (OSEventTbl s e)) \<noteq> 0" using prios_empty_iff [OF kcoreD(3) [OF Suc.prems(1)]] by blast
  let ?p = "Min (waits s e)"
  have p: "?p \<in> waits s e" using w by simp
  obtain s1 where s1: "OS_EventTaskRdy e 0 1 st s = Some (s1, of_nat ?p)" "kcore s1" "running s1" "unat (OSPrioCur s1) \<in> ready s1"
      "ready s1 = insert ?p (ready s)" "waits s1 e = waits s e - {?p}"
      "\<And>y. units s1 y = units s y + of_bool (e = y \<and> st = 0)" "asleep 0 s s1"
    using wake_ok [OF Suc.prems(1-3) w Suc.prems(4)] by auto
  have c: "card (waits s1 e) = n" using Suc.hyps(2) p by (simp add: s1(6))
  obtain s2 where s2: "ready_all e st s1 = Some (s2, n)" "kcore s2" "running s2" "unat (OSPrioCur s2) \<in> ready s2"
      "ready s2 = ready s1 \<union> waits s1 e" "waits s2 e = {}"
      "\<And>y. units s2 y = units s1 y + (if e = y \<and> st = 0 then n else 0)" "asleep 0 s1 s2"
    using Suc.hyps(1) [OF c [symmetric] s1(2-4) Suc.prems(4)] c by auto
  have "ready_all e st s = Some (s2, card (waits s e))"
    by (subst ready_all.simps) (simp add: g s1(1) s2(1) flip: Suc.hyps(2))
  moreover have "ready s2 = ready s \<union> waits s e" using p by (auto simp: s2(5) s1(5,6))
  moreover have "units s2 y = units s y + (if e = y \<and> st = 0 then card (waits s e) else 0)" for y
    using Suc.hyps(2) by (auto simp: s2(7) s1(7))
  moreover have "asleep 0 s s2" using asleep_trans [OF s1(8) s2(8)] s2(5) by blast
  ultimately show ?case using s2(2-4,6) by blast
qed

lemma units_unchanged:
  assumes k: "kcore s" and p: "OSTCBPrioTbl s p = Task i" "OSTCBPrioTbl s' = OSTCBPrioTbl s" and ev: "OSEventTbl s' = OSEventTbl s"
    and t: "\<And>j. j \<noteq> i \<Longrightarrow> OSTCBTbl s' j = OSTCBTbl s j" "OSTCBEventPtr (OSTCBTbl s i) = None" "OSTCBEventPtr (OSTCBTbl s' i) = None"
  shows "units s' e = units s e"
proof -
  have "granted s' e - {p} = granted s e - {p}" by (rule granted_change [OF k p]) (simp_all add: t ev)
  moreover have "p \<notin> granted s e" "p \<notin> granted s' e" using p t(2,3) by (auto simp: granted_def)
  ultimately have "granted s' e = granted s e" by blast
  then show ?thesis by (simp add: units_def ev)
qed

lemma dly_step:
  assumes k: "kernel_ok s" and a: "allowed (Time_dly ticks) s"
  shows "\<exists>x. kcall (Time_dly ticks) s = Some x \<and> good_step (Time_dly ticks) s x"
proof (cases "OSIntNesting s > 0 \<or> OSLockNesting s > 0 \<or> ticks = 0")
  case True
  then have "OSTimeDly ticks s = Some s" by (auto simp: OSTimeDly_def)
  then show ?thesis using k by (simp add: good_step_def)
next
  case False
  then have n: "OSIntNesting s = 0" "OSLockNesting s = 0" "ticks \<noteq> 0" by (simp_all add: word_gt_0)
  have idle: "unat (OSPrioCur s) \<noteq> 63" "OSTCBEventPtr (cur_tcb s) = None" using a n(1) by simp_all
  let ?s = "upd_tcb (OSTCBCur s) (\<lambda>t. t\<lparr>OSTCBDly := ticks\<rparr>) (upd_rdy (ps_remove (cur_tcb s)) s)"
  note d = delay_ok [OF k n(3) idle]
  note c = cur_task [OF k]
  obtain s' where s': "OS_Sched ?s = Some s'" "same_tasks ?s s'" "kernel_ok s'"
    using OS_Sched_ok [OF d(1,2)] n by (auto simp: d(5,6))
  have "units ?s e = units s e" for e
    by (rule units_unchanged [OF c(1,3) d(7,4)]) (simp_all add: d(3) idle)
  moreover have "OSTimeDly ticks s = Some s'" using n s'(1) by (simp add: OSTimeDly_def word_gt_0)
  moreover have "asleep 0 s ?s" by (rule asleep_task [OF c(1,3)]) (use c(6) in \<open>simp_all add: d(3,7)\<close>)
  ultimately show ?thesis using s'(3) by (simp add: good_step_def units_same_tasks [OF s'(2)] asleep_same [OF _ s'(2)])
qed

lemma ticked_pend:
  assumes "task_ok s p t"
  shows "OSTCBEventPtr (ticked t) = OSTCBEventPtr t"
    "OSTCBEventPtr t = Some e \<Longrightarrow> p \<notin> waits s e \<Longrightarrow> OSTCBStatPend (ticked t) = OSTCBStatPend t"
proof -
  show "OSTCBEventPtr (ticked t) = OSTCBEventPtr t" by (simp add: ticked_def)
  assume "OSTCBEventPtr t = Some e" "p \<notin> waits s e"
  then have "OSTCBDly t = 0" using assms by (simp add: task_ok_def task_rel_def)
  then show "OSTCBStatPend (ticked t) = OSTCBStatPend t" by (simp add: ticked_def)
qed

lemma tick_step:
  assumes k: "kernel_ok s" and a: "allowed Time_tick s"
  shows "\<exists>x. kcall Time_tick s = Some x \<and> good_step Time_tick s x"
proof -
  note c = cur_task [OF k]
  have run: "OSRunning s" using c(2) by (simp add: running_def)
  note t = time_tick_ok [OF c(1) run]
  obtain r x where s': "OSTimeTick s = s\<lparr>OSTime := OSTime s + 1, OSRdy := r, OSTCBTbl := x\<rparr>" using t(4) by blast
  have "kernel_ok (OSTimeTick s)" using t(1,2) c(2,6) a by (auto simp: kernel_ok_def s' running_def)
  moreover have "units (OSTimeTick s) e = units s e" for e
  proof -
    have "p \<in> granted (OSTimeTick s) e \<longleftrightarrow> p \<in> granted s e" for p
    proof (cases "OSTCBPrioTbl s p")
      case (Task i)
      have p: "OSTCBPrioTbl (OSTimeTick s) p = Task i" "waits (OSTimeTick s) e = waits s e" using Task by (simp_all add: s')
      show ?thesis
        using t(3) [OF Task] ticked_pend [OF kcore_task(1) [OF c(1) Task]] by (auto simp: granted_def Task p)
    qed (auto simp: granted_def s')
    then have "granted (OSTimeTick s) e = granted s e" by blast
    then show ?thesis by (simp add: units_def) (simp add: s')
  qed
  moreover have "asleep 1 s (OSTimeTick s)" unfolding asleep_def
  proof (intro allI impI)
    fix p i assume p: "OSTCBPrioTbl s p = Task i \<and> p \<notin> ready s"
    then have "p \<noteq> 63" using idle_ready [OF c(1)] by auto
    then have tk: "OSTCBTbl (OSTimeTick s) i = ticked (OSTCBTbl s i)" using t(3) [of p i] p by simp
    moreover have "unat (OSTCBDly (ticked (OSTCBTbl s i))) = unat (OSTCBDly (OSTCBTbl s i)) - 1"
      by (simp add: ticked_def unat_minus_one)
    moreover have pt: "OSTCBPrioTbl (OSTimeTick s) p = Task i" using p by (simp add: s')
    moreover have "OSTCBDly (OSTCBTbl s i) = 1 \<Longrightarrow> p \<in> ready (OSTimeTick s)"
    proof -
      assume "OSTCBDly (OSTCBTbl s i) = 1"
      then have "OSTCBStat (ticked (OSTCBTbl s i)) = 0" "OSTCBDly (ticked (OSTCBTbl s i)) = 0" by (simp_all add: ticked_def)
      then show ?thesis using kcore_task(1) [OF t(1) pt] by (simp add: task_ok_def task_rel_def tk)
    qed
    moreover have "OSTCBDly (ticked (OSTCBTbl s i)) = 0 \<Longrightarrow> OSTCBDly (OSTCBTbl s i) = 0 \<or> OSTCBDly (OSTCBTbl s i) = 1"
      by (simp add: ticked_def split: if_splits)
    ultimately show "p \<in> ready (OSTimeTick s) \<or> OSTCBPrioTbl (OSTimeTick s) p = Task i
        \<and> unat (OSTCBDly (OSTCBTbl (OSTimeTick s) i)) = unat (OSTCBDly (OSTCBTbl s i)) - 1
        \<and> (OSTCBDly (OSTCBTbl (OSTimeTick s) i) = 0 \<longrightarrow> OSTCBDly (OSTCBTbl s i) = 0)" using tk by auto
  qed
  ultimately show ?thesis by (simp add: good_step_def)
qed

text \<open>Only the counters change, or the scheduler runs.\<close>

lemma nesting_change:
  assumes "kernel_ok s"
  shows "kcore (s\<lparr>OSIntNesting := n, OSLockNesting := l\<rparr>)" "running (s\<lparr>OSIntNesting := n, OSLockNesting := l\<rparr>)"
    "units (s\<lparr>OSIntNesting := n, OSLockNesting := l\<rparr>) e = units s e"
proof -
  show "kcore (s\<lparr>OSIntNesting := n, OSLockNesting := l\<rparr>)"
    by (rule kcore_cong [of s]) (use assms in \<open>simp_all add: kernel_ok_def\<close>)
qed (use assms in \<open>simp_all add: kernel_ok_def running_def units_def granted_def\<close>)

lemma nesting_sched:
  assumes "kernel_ok s"
  shows "\<exists>s'. OS_Sched (s\<lparr>OSIntNesting := n, OSLockNesting := l\<rparr>) = Some s' \<and> kernel_ok s' \<and> (\<forall>e. units s' e = units s e)
    \<and> asleep 0 s s'"
proof -
  let ?s = "s\<lparr>OSIntNesting := n, OSLockNesting := l\<rparr>"
  obtain s' where s': "OS_Sched ?s = Some s'" "same_tasks ?s s'" "kernel_ok s'"
    using OS_Sched_ok [OF nesting_change(1,2) [OF assms]] assms by (fastforce simp: kernel_ok_def)
  have "asleep 0 s ?s" by (rule asleep_cong) simp_all
  from asleep_same [OF this s'(2)] show ?thesis
    using s' nesting_change(3) [OF assms] by (simp add: units_same_tasks [OF s'(2)])
qed

lemma nesting_stay:
  assumes "kernel_ok s" "n \<noteq> 0 \<or> l \<noteq> 0"
  shows "kernel_ok (s\<lparr>OSIntNesting := n, OSLockNesting := l\<rparr>)"
  using nesting_change(1,2) [OF assms(1), where n = n and l = l] assms by (auto simp: kernel_ok_def)

lemma u8_succ: "x < 255 \<Longrightarrow> x + 1 \<noteq> (0 :: u8)"
proof
  assume x: "x < 255" "x + 1 = 0"
  have "x = (x + 1) - 1" by simp
  also have "\<dots> = 255" unfolding x(2) by simp
  finally show False using x(1) by simp
qed

lemma int_enter_step: "kernel_ok s \<Longrightarrow> \<exists>x. kcall Int_enter s = Some x \<and> good_step Int_enter s x"
proof -
  assume k: "kernel_ok s"
  have "OSIntNesting s < 255 \<Longrightarrow> OSIntNesting s + 1 \<noteq> 0"
    by (rule u8_succ)
  moreover have "s\<lparr>OSIntNesting := n\<rparr> = s\<lparr>OSIntNesting := n, OSLockNesting := OSLockNesting s\<rparr>" for n by simp
  ultimately have "kernel_ok (OSIntEnter s) \<and> (\<forall>e. units (OSIntEnter s) e = units s e)"
    using k nesting_stay [OF k, where n = "OSIntNesting s + 1" and l = "OSLockNesting s"]
      nesting_change(3) [OF k, where n = "OSIntNesting s + 1" and l = "OSLockNesting s"] by (simp add: OSIntEnter_def)
  moreover have "asleep 0 s (OSIntEnter s)" by (rule asleep_cong) (simp_all add: OSIntEnter_def)
  ultimately show ?thesis by (simp add: good_step_def)
qed

lemma OSIntExit_sched:
  "OSRunning s \<Longrightarrow> OSIntExit s = OS_Sched (if OSIntNesting s > 0 then s\<lparr>OSIntNesting := OSIntNesting s - 1\<rparr> else s)"
  by (simp add: OSIntExit_def OS_Sched_def Let_def)

lemma int_exit_step: "kernel_ok s \<Longrightarrow> \<exists>x. kcall Int_exit s = Some x \<and> good_step Int_exit s x"
proof -
  assume k: "kernel_ok s"
  let ?n = "if OSIntNesting s > 0 then OSIntNesting s - 1 else OSIntNesting s"
  have e: "(if OSIntNesting s > 0 then s\<lparr>OSIntNesting := OSIntNesting s - 1\<rparr> else s)
      = s\<lparr>OSIntNesting := ?n, OSLockNesting := OSLockNesting s\<rparr>"
    by simp
  obtain s' where "OSIntExit s = Some s'" "kernel_ok s'" "\<forall>e. units s' e = units s e" "asleep 0 s s'"
    using nesting_sched [OF k, where n = ?n and l = "OSLockNesting s"] OSIntExit_sched [of s] k unfolding e by (auto simp: kernel_ok_def running_def)
  then show ?thesis by (simp add: good_step_def)
qed

lemma sched_lock_step: "kernel_ok s \<Longrightarrow> \<exists>x. kcall Sched_lock s = Some x \<and> good_step Sched_lock s x"
proof -
  assume k: "kernel_ok s"
  have "OSLockNesting s < 255 \<Longrightarrow> OSLockNesting s + 1 \<noteq> 0"
    by (rule u8_succ)
  moreover have "s\<lparr>OSLockNesting := n\<rparr> = s\<lparr>OSIntNesting := OSIntNesting s, OSLockNesting := n\<rparr>" for n by simp
  ultimately have "kernel_ok (OSSchedLock s) \<and> (\<forall>e. units (OSSchedLock s) e = units s e)"
    using k nesting_stay [OF k, where n = "OSIntNesting s" and l = "OSLockNesting s + 1"]
      nesting_change(3) [OF k, where n = "OSIntNesting s" and l = "OSLockNesting s + 1"] by (simp add: OSSchedLock_def)
  moreover have "asleep 0 s (OSSchedLock s)" by (rule asleep_cong) (simp_all add: OSSchedLock_def)
  ultimately show ?thesis by (simp add: good_step_def)
qed

lemma sched_unlock_step: "kernel_ok s \<Longrightarrow> \<exists>x. kcall Sched_unlock s = Some x \<and> good_step Sched_unlock s x"
proof -
  assume k: "kernel_ok s"
  let ?s = "s\<lparr>OSLockNesting := OSLockNesting s - 1\<rparr>"
  have e: "?s = s\<lparr>OSIntNesting := OSIntNesting s, OSLockNesting := OSLockNesting s - 1\<rparr>" by simp
  have "OSSchedUnlock s = (if OSLockNesting s = 0 then Some s
      else if OSLockNesting s - 1 = 0 \<and> OSIntNesting s = 0 then OS_Sched ?s else Some ?s)"
    using k by (simp add: OSSchedUnlock_def Let_def word_gt_0 kernel_ok_def running_def)
  then consider "OSLockNesting s = 0" | "OSLockNesting s > 0" "OSSchedUnlock s = OS_Sched ?s" |
    "OSLockNesting s > 0" "OSIntNesting s \<noteq> 0 \<or> OSLockNesting s - 1 \<noteq> 0" "OSSchedUnlock s = Some ?s"
    by (metis word_gt_0)
  then show ?thesis
  proof cases
    case 1
    then show ?thesis using k by (simp add: OSSchedUnlock_def good_step_def)
  next
    case 2
    then show ?thesis using nesting_sched [OF k, where n = "OSIntNesting s" and l = "OSLockNesting s - 1"] by (auto simp: good_step_def)
  next
    case 3
    have "asleep 0 s ?s" by (rule asleep_cong) simp_all
    then show ?thesis using 3(3) nesting_stay [OF k 3(2)] nesting_change(3) [OF k, where n = "OSIntNesting s" and l = "OSLockNesting s - 1"]
      by (simp add: good_step_def)
  qed
qed

lemma sem_create_step: "kernel_ok s \<Longrightarrow> \<exists>x. kcall (Sem_create cnt) s = Some x \<and> good_step (Sem_create cnt) s x"
proof -
  assume k: "kernel_ok s"
  obtain s' r where eq: "OSSemCreate cnt s = (s', r)" by (cases "OSSemCreate cnt s")
  note c = cur_task [OF k]
  note m = sem_create_ok [OF c(1) eq]
  have "kernel_ok s'" using k m(1,6) by (auto simp: kernel_ok_def running_def)
  moreover have "units s' e = units s e + (if r = Some e then unat cnt else 0)" for e
  proof (cases r)
    case None
    then show ?thesis using m(5) by simp
  next
    case (Some x)
    then have E: "OSEventType (OSEventTbl s x) = 0"
      "OSEventTbl s' = (OSEventTbl s)(x := \<lparr>OSEventType = 3, OSEventPtr = No_ptr, OSEventCnt = cnt, ev_wait = ps_empty\<rparr>)"
      using m(5) by simp_all
    have no: "OSTCBEventPtr (OSTCBTbl s i) \<noteq> Some x" if "OSTCBPrioTbl s p = Task i" for p i
      using kcore_task(1) [OF c(1) that] E(1) by (auto simp: task_ok_def task_rel_def)
    then have none: "granted s x = {}" "granted s' x = {}" by (auto simp: granted_def m(3,4))
    show ?thesis
    proof (cases "e = x")
      case True
      then show ?thesis using Some none E by (simp add: units_def)
    next
      case False
      have "granted s' e = granted s e" by (rule granted_same) (use False in \<open>simp_all add: m(3,4) E(2)\<close>)
      then show ?thesis using False Some E(2) by (simp add: units_def)
    qed
  qed
  moreover have "asleep 0 s s'" by (rule asleep_cong) (simp_all add: m(3,4))
  ultimately show ?thesis by (simp add: eq good_step_def)
qed

lemma abort_step: "kernel_ok s \<Longrightarrow> \<exists>x. kcall (Sem_abort e broadcast) s = Some x \<and> good_step (Sem_abort e broadcast) s x"
proof -
  assume k: "kernel_ok s"
  note c = cur_task [OF k]
  have q: "ps_ok (ev_wait (OSEventTbl s e))" using kcoreD(3) [OF c(1)] .
  show ?thesis
  proof (cases "OSEventType (OSEventTbl s e) = 3 \<and> waits s e \<noteq> {}")
    case False
    then have "\<exists>err. OSSemPendAbort e broadcast s = Some (s, 0, err)"
      using prios_empty_iff [OF q] by (auto simp: OSSemPendAbort_def Let_def)
    then show ?thesis using k by (auto simp: good_step_def)
  next
    case True
    have g: "grp (ev_wait (OSEventTbl s e)) \<noteq> 0" using True prios_empty_iff [OF q] by blast
    obtain s1 n where s1: "(if broadcast then ready_all e 2 s else map_option (\<lambda>(s, _). (s, 1)) (OS_EventTaskRdy e 0 1 2 s)) = Some (s1, n)"
        "kcore s1" "running s1" "unat (OSPrioCur s1) \<in> ready s1" "\<forall>y. units s1 y = units s y" "asleep 0 s s1"
    proof (cases broadcast)
      case True
      then show ?thesis using ready_all_ok [OF c(1,2,6), of 2 e] that by auto
    next
      case False
      then show ?thesis using wake_ok [OF c(1,2,6), of e 2] True that by auto
    qed
    obtain s' where s': "OS_Sched s1 = Some s'" "same_tasks s1 s'" "kernel_ok s'"
      using OS_Sched_ok [OF s1(2,3)] s1(4) by blast
    have "OSSemPendAbort e broadcast s = Some (s', n, 14)"
      using True g s1(1) by (simp add: OSSemPendAbort_def Let_def s'(1))
    then show ?thesis using s'(3) s1(5,6) by (simp add: good_step_def units_same_tasks [OF s'(2)] asleep_same [OF _ s'(2)])
  qed
qed

lemma task_create_step:
  assumes k: "kernel_ok s" and a: "allowed (Task_create prio) s"
  shows "\<exists>x. kcall (Task_create prio) s = Some x \<and> good_step (Task_create prio) s x"
proof -
  note c = cur_task [OF k]
  have p: "unat prio < 64" using a by simp
  show ?thesis using c(1) p
  proof (cases rule: task_create_cases)
    case (out err)
    then show ?thesis using k by (simp add: good_step_def)
  next
    case (new i s1)
    obtain r x y l f where s1: "s1 = s\<lparr>OSRdy := r, OSTCBPrioTbl := x, OSTCBTbl := y, OSTCBList := l, OSTCBFreeList := f\<rparr>"
      using new(8) by blast
    have same: "OSPrioCur s1 = OSPrioCur s" "OSTCBCur s1 = OSTCBCur s" "OSRunning s1 = OSRunning s" by (simp_all add: s1)
    have ne: "unat (OSPrioCur s) \<noteq> unat prio" using c(3) new(1) by (metis tcb_ref.distinct(4))
    have run: "running s1" "unat (OSPrioCur s1) \<in> ready s1" "OSRunning s"
      using c(2,6) ne by (simp_all add: running_def same new(4,6))
    obtain s' where s': "OS_Sched s1 = Some s'" "same_tasks s1 s'" "kernel_ok s'"
      using OS_Sched_ok [OF new(3) run(1)] run(2) by blast
    have free: "OSTCBPrioTbl s q \<noteq> Task i" for q using kcoreD(5) [OF c(1)] new(2) by (auto simp: list_ok_def)
    have "granted s1 e = granted s e" for e
    proof -
      have "q \<in> granted s1 e \<longleftrightarrow> q \<in> granted s e" for q
        using free [of q] new(1) by (auto simp: granted_def new(5,6,7))
      then show ?thesis by blast
    qed
    then have "units s1 e = units s e" for e by (simp add: units_def new(5))
    moreover have "asleep 0 s s1" using free new(1) by (auto simp: asleep_def new(6,7))
    ultimately show ?thesis using s' new(9) run(3)
      by (simp add: good_step_def units_same_tasks [OF s'(2)] asleep_same [OF _ s'(2)])
  qed
qed

lemma resume_step:
  assumes k: "kernel_ok s"
  shows "\<exists>x. kcall (Dly_resume prio) s = Some x \<and> good_step (Dly_resume prio) s x"
proof -
  note c = cur_task [OF k]
  show ?thesis
  proof (cases "\<exists>i. \<not> 63 \<le> prio \<and> OSTCBPrioTbl s (unat prio) = Task i \<and> OSTCBDly (OSTCBTbl s i) \<noteq> 0")
    case False
    then have "\<exists>err. OSTimeDlyResume prio s = Some (s, err)"
      by (auto simp: OSTimeDlyResume_def split: tcb_ref.splits)
    then show ?thesis using k by (auto simp: good_step_def)
  next
    case True
    then obtain i where i: "\<not> 63 \<le> prio" "OSTCBPrioTbl s (unat prio) = Task i" "OSTCBDly (OSTCBTbl s i) \<noteq> 0" by blast
    let ?t = "OSTCBTbl s i" and ?p = "unat prio"
    let ?u = "if OSTCBStat ?t = 0 then ?t\<lparr>OSTCBDly := 0, OSTCBStatPend := 0\<rparr>
      else ?t\<lparr>OSTCBDly := 0, OSTCBStat := 0, OSTCBStatPend := 1\<rparr>"
    let ?s = "s\<lparr>OSRdy := ps_add (OSTCBY ?t) ?t (OSRdy s), OSTCBTbl := (OSTCBTbl s)(i := ?u)\<rparr>"
    note t = kcore_task [OF c(1) i(2)]
    have st: "OSTCBStat ?t = 0 \<or> OSTCBStat ?t = 1" using t(1) by (simp add: task_ok_def task_rel_def)
    have e: "end_delay i (upd_tcb i (\<lambda>t. t\<lparr>OSTCBDly := 0\<rparr>) s) = ?s" "OSTCBStat ?u AND 8 = 0"
      using st by (auto simp: end_delay_def Let_def upd_tcb_def upd_rdy_def)
    have a: "ps_ok (ps_add (OSTCBY ?t) ?t (OSRdy s))" "prios (ps_add (OSTCBY ?t) ?t (OSRdy s)) = insert ?p (ready s)"
      using ps_add_ok [OF kcoreD(1) [OF c(1)] t(2)] t(2) by (simp_all add: tcb_ok_def)
    have k1: "kcore ?s"
    proof (rule kcore_task_change [OF c(1) i(2) a(1)])
      show "task_rel ?p ?u (?p \<in> prios (ps_add (OSTCBY ?t) ?t (OSRdy s))) {e. ?p \<in> waits s e} (\<lambda>e. OSEventType (OSEventTbl s e))"
        using rel_expire [OF t(1) [unfolded task_ok_def] i(3)] by (simp add: a(2))
    qed (auto simp: a(2))
    have run: "running ?s" "unat (OSPrioCur ?s) \<in> ready ?s" using c(2,6) by (simp_all add: running_def a(2))
    obtain s' where s': "OS_Sched ?s = Some s'" "same_tasks ?s s'" "kernel_ok s'"
      using OS_Sched_ok [OF k1 run(1)] run(2) by blast
    have "units ?s e = units s e" for e
    proof -
      have "granted ?s e - {?p} = granted s e - {?p}" by (rule granted_change [OF c(1) i(2)]) simp_all
      moreover have "?p \<notin> granted s e" "?p \<notin> granted ?s e"
        using t(1) i(2,3) by (auto simp: granted_def task_ok_def task_rel_def split: if_splits)
      ultimately have "granted ?s e = granted s e" by blast
      then show ?thesis by (simp add: units_def)
    qed
    moreover have "OSTimeDlyResume prio s = Some (s', 0)"
      using i e s'(1) by (simp add: OSTimeDlyResume_def Let_def)
    moreover have "asleep 0 s ?s" by (rule asleep_task [OF c(1) i(2)]) (simp_all add: a(2))
    ultimately show ?thesis using s'(3) by (simp add: good_step_def units_same_tasks [OF s'(2)] asleep_same [OF _ s'(2)])
  qed
qed

lemma kernel_step:
  assumes "kernel_ok s" "allowed c s"
  shows "\<exists>x. kcall c s = Some x \<and> good_step c s x"
  using assms
  by (cases c) (simp_all only: pend_step pend_rest_step post_step accept_step dly_step tick_step int_enter_step int_exit_step
    sched_lock_step sched_unlock_step sem_create_step abort_step task_create_step resume_step)

section \<open>Runs\<close>

text \<open>The firmware's start: the kernel, the tasks and the semaphores made before \<open>OSStart\<close>.\<close>

fun create_tasks :: "u8 list \<Rightarrow> os \<Rightarrow> os option" where
  "create_tasks [] s = Some s"
| "create_tasks (p # ps) s = do { (s, _) \<leftarrow> OSTaskCreate p s; create_tasks ps s }"

definition boot :: "u8 list \<Rightarrow> u16 list \<Rightarrow> os option" where
  "boot ps cnts = do {
     s \<leftarrow> OSInit;
     s \<leftarrow> create_tasks ps s;
     OSStart (fold (\<lambda>n s. fst (OSSemCreate n s)) cnts s) }"

inductive krun :: "os \<Rightarrow> (call \<times> ret) list \<Rightarrow> os \<Rightarrow> bool" for s0 where
  krun_Nil: "krun s0 [] s0"
| krun_step: "krun s0 tr s \<Longrightarrow> allowed c s \<Longrightarrow> kcall c s = Some (s', r) \<Longrightarrow> krun s0 (tr @ [(c, r)]) s'"

definition quiet :: "os \<Rightarrow> bool" where
  "quiet s \<longleftrightarrow> kcore s \<and> \<not> OSRunning s \<and> OSIntNesting s = 0 \<and> OSLockNesting s = 0"

lemma quiet_task: "quiet s \<Longrightarrow> unat p < 64 \<Longrightarrow> \<exists>s' err. OSTaskCreate p s = Some (s', err) \<and> quiet s'"
  using task_create_cases [of s p "\<exists>s' err. OSTaskCreate p s = Some (s', err) \<and> quiet s'"] by (force simp: quiet_def)

lemma quiet_sem: "quiet s \<Longrightarrow> quiet (fst (OSSemCreate n s))"
proof -
  assume q: "quiet s"
  obtain s' r where eq: "OSSemCreate n s = (s', r)" by (cases "OSSemCreate n s")
  have "kcore s" using q by (simp add: quiet_def)
  from sem_create_ok(1,6) [OF this eq] q show ?thesis by (auto simp: eq quiet_def)
qed

lemma quiet_start:
  assumes "quiet s"
  shows "\<exists>s'. OSStart s = Some s' \<and> kernel_ok s'"
proof -
  have k: "kcore s" "\<not> OSRunning s" using assms by (simp_all add: quiet_def)
  have ne: "ready s \<noteq> {}" using idle_ready [OF k(1)] by blast
  have m: "unat (ps_least (OSRdy s)) = Min (ready s)" using ps_least_ok(1) [OF kcoreD(1) [OF k(1)] ne] .
  have in_: "Min (ready s) \<in> ready s" using ne by simp
  then obtain i where i: "OSTCBPrioTbl s (Min (ready s)) = Task i" using ready_task [OF k(1)] by blast
  let ?s = "s\<lparr>OSPrioHighRdy := ps_least (OSRdy s), OSPrioCur := ps_least (OSRdy s), OSTCBCur := i, OSRunning := True\<rparr>"
  have "OSStart s = Some ?s" by (simp add: OSStart_def k(2) Let_def OS_SchedNew_def m i)
  moreover have "kcore ?s" by (rule kcore_cong [OF k(1)]) simp_all
  ultimately show ?thesis using m i in_ by (simp add: kernel_ok_def running_def)
qed

lemma quiet_init: "\<exists>s. OSInit = Some s \<and> quiet s"
proof -
  obtain s1 where s1: "OSTaskCreate 63 os_clear = Some (s1, 0)" "quiet s1" using idle_created by (auto simp: quiet_def)
  obtain s2 e2 where s2: "OSTaskCreate 62 s1 = Some (s2, e2)" "quiet s2" using quiet_task [OF s1(2), of 62] by auto
  obtain s3 r3 where s3: "OSSemCreate 1 s2 = (s3, r3)" by (cases "OSSemCreate 1 s2")
  obtain s4 r4 where s4: "OSSemCreate 0 s3 = (s4, r4)" by (cases "OSSemCreate 0 s3")
  have q: "quiet s4" using quiet_sem [OF quiet_sem [OF s2(2), of 1], of 0] by (simp add: s3 s4)
  obtain s5 e5 where s5: "OSTaskCreate OS_TASK_TMR_PRIO s4 = Some (s5, e5)" "quiet s5"
    using quiet_task [OF q, of OS_TASK_TMR_PRIO] by (auto simp: OS_TASK_TMR_PRIO_def)
  show ?thesis using s1 s2 s3 s4 s5 by (simp add: OSInit_def)
qed

lemma boot_ok:
  assumes "\<forall>p\<in>set ps. unat p < 64"
  shows "\<exists>s. boot ps cnts = Some s \<and> kernel_ok s"
proof -
  have tasks: "\<exists>s'. create_tasks ps s = Some s' \<and> quiet s'" if "quiet s" for s
    using that assms
  proof (induction ps arbitrary: s)
    case (Cons p ps)
    then show ?case using quiet_task [of s p] by fastforce
  qed simp
  have sems: "quiet (fold (\<lambda>n s. fst (OSSemCreate n s)) cnts s)" if "quiet s" for s
    using that by (induction cnts arbitrary: s) (simp_all add: quiet_sem)
  obtain s0 where s0: "OSInit = Some s0" "quiet s0" using quiet_init by blast
  obtain s1 where s1: "create_tasks ps s0 = Some s1" "quiet s1" using tasks [OF s0(2)] by blast
  show ?thesis using quiet_start [OF sems [OF s1(2)]] by (simp add: boot_def s0 s1)
qed

lemma krun_ok:
  assumes "krun s0 tr s" "kernel_ok s0"
  shows "kernel_ok s" "units s e + (\<Sum>x\<leftarrow>tr. units_out e x) = units s0 e + (\<Sum>x\<leftarrow>tr. units_in e x)"
proof -
  have "kernel_ok s \<and> units s e + (\<Sum>x\<leftarrow>tr. units_out e x) = units s0 e + (\<Sum>x\<leftarrow>tr. units_in e x)"
    using assms
  proof (induction rule: krun.induct)
    case (krun_step tr s c s' r)
    then have "good_step c s (s', r)" using kernel_step [of s c] by auto
    then have "kernel_ok s'" "units s' e + units_out e (c, r) = units s e + units_in e (c, r)"
      unfolding good_step_def prod.case by blast+
    then show ?case using krun_step by simp
  qed simp
  then show "kernel_ok s" "units s e + (\<Sum>x\<leftarrow>tr. units_out e x) = units s0 e + (\<Sum>x\<leftarrow>tr. units_in e x)" by blast+
qed

section \<open>Properties\<close>

text \<open>C6: from the start of the firmware with any tasks and semaphores, whatever calls the tasks and the interrupt handlers
  make: the kernel started, every next call returns, the running task can run, and unless an interrupt is served or the
  scheduler is locked it is the most urgent of the tasks that can run.\<close>

theorem most_urgent_runs:
  assumes "\<forall>p\<in>set ps. unat p < 64"
  shows "\<exists>s0. boot ps cnts = Some s0 \<and> (\<forall>tr s. krun s0 tr s \<longrightarrow>
     unat (OSPrioCur s) \<in> ready s \<and> OSTCBPrioTbl s (unat (OSPrioCur s)) = Task (OSTCBCur s)
     \<and> (OSIntNesting s = 0 \<and> OSLockNesting s = 0 \<longrightarrow> unat (OSPrioCur s) = Min (ready s))
     \<and> (\<forall>c. allowed c s \<longrightarrow> kcall c s \<noteq> None))"
proof -
  obtain s0 where s0: "boot ps cnts = Some s0" "kernel_ok s0" using boot_ok [OF assms] by blast
  have "unat (OSPrioCur s) \<in> ready s \<and> OSTCBPrioTbl s (unat (OSPrioCur s)) = Task (OSTCBCur s)
     \<and> (OSIntNesting s = 0 \<and> OSLockNesting s = 0 \<longrightarrow> unat (OSPrioCur s) = Min (ready s))
     \<and> (\<forall>c. allowed c s \<longrightarrow> kcall c s \<noteq> None)" if "krun s0 tr s" for tr s
  proof -
    have "kernel_ok s" using krun_ok(1) [OF that s0(2)] .
    moreover have "kcall c s \<noteq> None" if "allowed c s" for c using kernel_step [OF \<open>kernel_ok s\<close> that] by auto
    ultimately show ?thesis unfolding kernel_ok_def running_def by blast
  qed
  then show ?thesis using s0(1) by blast
qed

lemma most_urgent_runs_witness:
  "\<exists>s0. boot [5, 30] [0, 3] = Some s0 \<and> unat (OSPrioCur s0) \<in> ready s0"
proof -
  have "\<forall>p\<in>set [5, 30]. unat (p :: u8) < 64" by simp
  from most_urgent_runs [OF this, of "[0, 3]"] krun_Nil show ?thesis by blast
qed



text \<open>C26: \<open>OSSemPost\<close> gives the unit to the most urgent of the waiting tasks, and to no other: that task can run and leaves
  the wait list, the counter stays 0, and the task runs at once if it is the most urgent of all.\<close>

theorem post_wakes_most_urgent:
  assumes "kernel_ok s" "OSEventType (OSEventTbl s e) = 3" "waits s e \<noteq> {}" "OSIntNesting s = 0" "OSLockNesting s = 0"
  shows "\<exists>s'. OSSemPost e s = Some (s', 0) \<and> kernel_ok s' \<and> ready s' = insert (Min (waits s e)) (ready s)
     \<and> waits s' e = waits s e - {Min (waits s e)} \<and> OSEventCnt (OSEventTbl s' e) = 0
     \<and> unat (OSPrioCur s') = min (unat (OSPrioCur s)) (Min (waits s e))"
proof -
  note c = cur_task [OF assms(1)]
  have q: "ps_ok (ev_wait (OSEventTbl s e))" using kcoreD(3) [OF c(1)] .
  obtain i s1 where s1: "OS_EventTaskRdy e 0 1 0 s = Some (s1, of_nat (Min (waits s e)))" "kcore s1"
      "ready s1 = insert (Min (waits s e)) (ready s)"
      "\<forall>x. waits s1 x = (if x = e then waits s e - {Min (waits s e)} else waits s x)" "\<exists>r x v. s1 = s\<lparr>OSRdy := r, OSTCBTbl := x, OSEventTbl := (OSEventTbl s)(e := (OSEventTbl s e)\<lparr>ev_wait := v\<rparr>)\<rparr>"
    using task_rdy_ok [OF c(1) assms(3), of 0 0] by blast
  obtain r x v where eq: "s1 = s\<lparr>OSRdy := r, OSTCBTbl := x, OSEventTbl := (OSEventTbl s)(e := (OSEventTbl s e)\<lparr>ev_wait := v\<rparr>)\<rparr>"
    using s1(5) by blast
  have same: "OSPrioCur s1 = OSPrioCur s" "OSIntNesting s1 = 0" "OSLockNesting s1 = 0"
    "OSEventCnt (OSEventTbl s1 e) = OSEventCnt (OSEventTbl s e)" "running s1"
    using c(2) assms(4,5) by (simp_all add: eq running_def)
  obtain s' where s': "OS_Sched s1 = Some s'" "same_tasks s1 s'" "kernel_ok s'"
    using OS_Sched_ok [OF s1(2) same(5)] same(2,3) by auto
  have "OSSemPost e s = Some (s', 0)"
    using assms(2,3) prios_empty_iff [OF q] by (simp add: OSSemPost_def Let_def s1(1) s'(1))
  moreover have "OSEventCnt (OSEventTbl s e) = 0" using kcoreD(2) [OF c(1), of e] assms(2,3) by (simp add: sem_ok_def)
  moreover have "unat (OSPrioCur s') = min (unat (OSPrioCur s)) (Min (waits s e))"
  proof -
    have "unat (OSPrioCur s') = Min (insert (Min (waits s e)) (ready s))"
      using s'(3) same(2,3) by (simp add: kernel_ok_def same_tasksD [OF s'(2)] s1(3))
    also have "\<dots> = min (Min (waits s e)) (Min (ready s))" using c(6) by (subst Min_insert) auto
    finally show ?thesis using assms(1,4,5) by (simp add: kernel_ok_def min.commute)
  qed
  ultimately show ?thesis using s'(3) s1(3,4) same(4) by (auto simp: same_tasksD [OF s'(2)])
qed

lemma post_wakes_most_urgent_witness:
  "\<exists>s s'. Option.bind (boot [5, 30] [0]) (kcall (Sem_pend 2 0)) = Some (s, Blocked) \<and> OSPrioCur s = 25
     \<and> OSSemPost 2 s = Some (s', 0) \<and> waits s' 2 = waits s 2 - {Min (waits s 2)}"
proof -
  have p: "\<forall>p\<in>set [5, 30]. unat (p :: u8) < 64" by simp
  obtain s0 where s0: "boot [5, 30] [0] = Some s0" "kernel_ok s0" using boot_ok [OF p, of "[0]"] by blast
  have "map_option (\<lambda>s. (OSIntNesting s, OSTCBEventPtr (cur_tcb s), OSPrioCur s)) (boot [5, 30] [0]) = Some (0, None, 5)"
    by code_simp
  then have "allowed (Sem_pend 2 0) s0" by (simp add: s0)
  from kernel_step [OF s0(2) this] obtain s r where s: "kcall (Sem_pend 2 0) s0 = Some (s, r)" "kernel_ok s"
    by (auto simp: good_step_def)
  have "map_option (\<lambda>(s, r). (r, OSPrioCur s, OSEventType (OSEventTbl s 2), grp (ev_wait (OSEventTbl s 2)) = 0, OSIntNesting s,
      OSLockNesting s)) (Option.bind (boot [5, 30] [0]) (kcall (Sem_pend 2 0))) = Some (Blocked, 25, 3, False, 0, 0)"
    by code_simp
  then have e: "r = Blocked" "OSPrioCur s = 25" "OSEventType (OSEventTbl s 2) = 3" "grp (ev_wait (OSEventTbl s 2)) \<noteq> 0"
    "OSIntNesting s = 0" "OSLockNesting s = 0" by (simp_all add: s0 s(1) del: kcall.simps)
  have "waits s 2 \<noteq> {}" using e(4) prios_empty_iff [OF kcoreD(3), of s 2] s(2) by (simp add: kernel_ok_def)
  from post_wakes_most_urgent [OF s(2) e(3) this e(5,6)] show ?thesis using s0 s(1) e(1,2) by (auto simp del: kcall.simps)
qed

abbreviation ticks_in :: "(call \<times> ret) list \<Rightarrow> nat" where
  "ticks_in tr \<equiv> length (filter (\<lambda>x. fst x = Time_tick) tr)"

text \<open>Up to some point the task sleeps and its delay is what the clock has left of it.\<close>

lemma asleep_run:
  assumes k: "kernel_ok s0" and run: "krun s0 tr s" and t: "OSTCBPrioTbl s0 p = Task i" "OSTCBDly (OSTCBTbl s0 i) \<noteq> 0"
  shows "(\<exists>tr1 tr2 s1. tr = tr1 @ tr2 \<and> krun s0 tr1 s1 \<and> p \<in> ready s1)
    \<or> p \<notin> ready s \<and> OSTCBPrioTbl s p = Task i \<and> OSTCBDly (OSTCBTbl s i) \<noteq> 0
      \<and> unat (OSTCBDly (OSTCBTbl s i)) = unat (OSTCBDly (OSTCBTbl s0 i)) - ticks_in tr"
  using run
proof (induction rule: krun.induct)
  case krun_Nil
  have "p \<notin> ready s0"
    using kcore_task(1) [of s0 p i] k t by (simp add: kernel_ok_def task_ok_def task_rel_def)
  then show ?case using t by simp
next
  case (krun_step tr s c s' r)
  have run: "krun s0 (tr @ [(c, r)]) s'" using krun.krun_step [OF krun_step(1,2,3)] .
  from krun_step.IH show ?case
  proof
    assume "\<exists>tr1 tr2 s1. tr = tr1 @ tr2 \<and> krun s0 tr1 s1 \<and> p \<in> ready s1"
    then obtain tr1 tr2 s1 where "tr = tr1 @ tr2" "krun s0 tr1 s1" "p \<in> ready s1" by blast
    then show ?thesis by (intro disjI1 exI [of _ tr1] exI [of _ "tr2 @ [(c, r)]"] exI [of _ s1]) simp
  next
    assume old: "p \<notin> ready s \<and> OSTCBPrioTbl s p = Task i \<and> OSTCBDly (OSTCBTbl s i) \<noteq> 0
      \<and> unat (OSTCBDly (OSTCBTbl s i)) = unat (OSTCBDly (OSTCBTbl s0 i)) - ticks_in tr"
    have "asleep (of_bool (c = Time_tick)) s s'"
      using kernel_step [OF krun_ok(1) [OF krun_step(1) k] krun_step(2)] krun_step(3) by (simp add: good_step_def)
    then have "p \<in> ready s' \<or> OSTCBPrioTbl s' p = Task i
        \<and> unat (OSTCBDly (OSTCBTbl s' i)) = unat (OSTCBDly (OSTCBTbl s i)) - of_bool (c = Time_tick)
        \<and> OSTCBDly (OSTCBTbl s' i) \<noteq> 0"
      using old unfolding asleep_def by blast
    then show ?thesis
    proof
      assume "p \<in> ready s'"
      then show ?thesis using run by (intro disjI1 exI [of _ "tr @ [(c, r)]"] exI [of _ "[]"] exI [of _ s']) simp
    next
      assume new: "OSTCBPrioTbl s' p = Task i
        \<and> unat (OSTCBDly (OSTCBTbl s' i)) = unat (OSTCBDly (OSTCBTbl s i)) - of_bool (c = Time_tick)
        \<and> OSTCBDly (OSTCBTbl s' i) \<noteq> 0"
      have "kcore s'" using krun_ok(1) [OF run k] by (simp add: kernel_ok_def)
      then have "p \<notin> ready s'" using kcore_task(1) [of s' p i] new by (simp add: task_ok_def task_rel_def)
      then show ?thesis using old new by simp
    qed
  qed
qed

text \<open>C10: a delay ends: a task that waits for \<open>n\<close> ticks (in \<open>OSTimeDly\<close>, or in \<open>OSSemPend\<close> with a timeout) has been able to
  run by the time the clock has ticked \<open>n\<close> times, whatever the others do.\<close>

theorem delay_ends:
  assumes "kernel_ok s0" "krun s0 tr s" "OSTCBPrioTbl s0 p = Task i" "OSTCBDly (OSTCBTbl s0 i) \<noteq> 0"
    and "unat (OSTCBDly (OSTCBTbl s0 i)) \<le> length (filter (\<lambda>x. fst x = Time_tick) tr)"
  shows "\<exists>tr1 tr2 s1. tr = tr1 @ tr2 \<and> krun s0 tr1 s1 \<and> p \<in> ready s1"
proof -
  have "unat (OSTCBDly (OSTCBTbl s0 i)) - ticks_in tr = 0" using assms(5) by simp
  then show ?thesis using asleep_run [OF assms(1-4)] by (auto simp: unat_eq_0)
qed

lemma delay_ends_witness:
  "\<exists>s0. Option.bind (boot [5, 30] []) (kcall (Time_dly 1)) = Some (s0, Void) \<and> 5 \<notin> ready s0
     \<and> (\<forall>tr s. krun s0 tr s \<longrightarrow> 1 \<le> length (filter (\<lambda>x. fst x = Time_tick) tr) \<longrightarrow>
       (\<exists>tr1 tr2 s1. tr = tr1 @ tr2 \<and> krun s0 tr1 s1 \<and> 5 \<in> ready s1))"
proof -
  have p: "\<forall>p\<in>set [5, 30]. unat (p :: u8) < 64" by simp
  obtain s0 where s0: "boot [5, 30] [] = Some s0" "kernel_ok s0" using boot_ok [OF p, of "[]"] by blast
  have "map_option (\<lambda>s. (OSIntNesting s, OSTCBEventPtr (cur_tcb s), OSPrioCur s)) (boot [5, 30] []) = Some (0, None, 5)"
    by code_simp
  then have "allowed (Time_dly 1) s0" by (simp add: s0)
  from kernel_step [OF s0(2) this] obtain s r where s: "kcall (Time_dly 1) s0 = Some (s, r)" "kernel_ok s"
    by (auto simp: good_step_def)
  have "map_option (\<lambda>(s, r). (r, OSTCBPrioTbl s 5, OSTCBDly (OSTCBTbl s 3)))
      (Option.bind (boot [5, 30] []) (kcall (Time_dly 1))) = Some (Void, Task 3, 1)"
    by code_simp
  then have e: "r = Void" "OSTCBPrioTbl s 5 = Task 3" "OSTCBDly (OSTCBTbl s 3) = 1"
    by (simp_all add: s0 s(1) del: kcall.simps)
  have "5 \<notin> ready s" using kcore_task(1) [of s 5 3] s(2) e by (simp add: kernel_ok_def task_ok_def task_rel_def)
  moreover have "\<exists>tr1 tr2 s1. tr = tr1 @ tr2 \<and> krun s tr1 s1 \<and> 5 \<in> ready s1"
    if "krun s tr s'" "1 \<le> length (filter (\<lambda>x. fst x = Time_tick) tr)" for tr s'
    by (rule delay_ends [OF s(2) that(1) e(2)]) (use e(3) that(2) in simp_all)
  moreover have "Option.bind (boot [5, 30] []) (kcall (Time_dly 1)) = Some (s, Void)" using s0(1) s(1) e(1) by (simp del: kcall.simps)
  ultimately show ?thesis by blast
qed

text \<open>C8: no lock is ever made: the idle task has the priority 63 the lock would reserve, so \<open>NST_ALLOC_LOCK\<close> gives the null
  pointer, after \<open>OSInit\<close> (where \<open>uart_init\<close> calls it) and at any time later, and taking the lock is refused at once and
  leaves everything as it was.\<close>

theorem lock_never_made:
  assumes "\<forall>p\<in>set ps. unat p < 64" "low \<noteq> 4"
  shows "(\<exists>s. OSInit = Some s \<and> NST_ALLOC_LOCK s = (s, None))
    \<and> (\<exists>s0. boot ps cnts = Some s0 \<and> (\<forall>tr s. krun s0 tr s \<longrightarrow>
         NST_ALLOC_LOCK s = (s, None) \<and> NST_AQUIRE_LOCK low None s = Some (s, Done 1)))"
proof -
  have no: "NST_ALLOC_LOCK s = (s, None)" if k: "kcore s" for s
  proof -
    obtain i where "OSTCBPrioTbl s 63 = Task i" using ready_task [OF k idle_ready [OF k]] by blast
    then show ?thesis by (simp add: NST_ALLOC_LOCK_def OSMutexCreate_def)
  qed
  obtain s0 where s0: "boot ps cnts = Some s0" "kernel_ok s0" using boot_ok [OF assms(1)] by blast
  have "kcore s" if "krun s0 tr s" for tr s using krun_ok(1) [OF that s0(2)] by (simp add: kernel_ok_def)
  then have "NST_ALLOC_LOCK s = (s, None) \<and> NST_AQUIRE_LOCK low None s = Some (s, Done 1)" if "krun s0 tr s" for tr s
    using that no assms(2) by (simp add: NST_AQUIRE_LOCK_def)
  moreover have "\<exists>s. OSInit = Some s \<and> NST_ALLOC_LOCK s = (s, None)" using quiet_init no by (auto simp: quiet_def)
  ultimately show ?thesis using s0(1) by blast
qed

lemma lock_never_made_witness:
  "\<exists>s0. boot [5, 30] [0, 3] = Some s0 \<and> NST_ALLOC_LOCK s0 = (s0, None)"
proof -
  have "\<forall>p\<in>set [5, 30]. unat (p :: u8) < 64" by simp
  from lock_never_made [OF this, where low = 32 and cnts = "[0, 3]"] krun_Nil show ?thesis by auto
qed

end
