(* ===== verification/Mutex.thy ===== *)
theory Mutex
  imports KernelRun
begin

text \<open>
  Priority inheritance of the mutexes of \<^verbatim>\<open>uCOS-II/os_mutex.c\<close>: a task that waits for a mutex lends its owner the priority
  of the mutex, and the owner gives it back with the mutex.
\<close>

section \<open>The two bytes of the counter\<close>

definition mutex_cnt :: "u8 \<Rightarrow> u8 \<Rightarrow> u16" where
  "mutex_cnt pip owner = push_bit 8 (ucast pip) OR ucast owner"

lemma mutex_cnt [simp]:
  "(ucast (drop_bit 8 (mutex_cnt pip owner)) :: u8) = pip" "(ucast (mutex_cnt pip owner) :: u8) = owner"
  "(mutex_cnt pip owner AND 0xFF00) OR ucast new = mutex_cnt pip new"
proof -
  show "(ucast (drop_bit 8 (mutex_cnt pip owner)) :: u8) = pip" "(ucast (mutex_cnt pip owner) :: u8) = owner"
    unfolding mutex_cnt_def by (rule bit_word_eqI; auto simp: bit_simps dest: bit_imp_le_length)+
  have m: "bit (0xFF00 :: u16) n \<longleftrightarrow> 8 \<le> n \<and> n < 16" for n
  proof -
    have e: "(0xFF00 :: u16) = push_bit 8 (mask 8)" by (simp add: mask_eq_exp_minus_1)
    show ?thesis unfolding e by (auto simp: bit_push_bit_iff bit_mask_iff dest: bit_imp_le_length)
  qed
  show "(mutex_cnt pip owner AND 0xFF00) OR ucast new = mutex_cnt pip new"
  proof (rule bit_word_eqI)
    fix n assume "n < LENGTH(16)"
    then have n: "n < 16" by simp
    have "bit owner n \<Longrightarrow> n < 8" using bit_imp_le_length [of owner n] by simp
    then show "bit ((mutex_cnt pip owner AND 0xFF00) OR ucast new) n = bit (mutex_cnt pip new) n"
      using n unfolding mutex_cnt_def bit_or_iff bit_and_iff m bit_push_bit_iff bit_unsigned_iff by auto
  qed
qed

section \<open>The owner's priority\<close>

lemma ready_row: "tcb_ok p t \<Longrightarrow> tbl q ! unat (OSTCBY t) AND OSTCBBitX t \<noteq> 0 \<longleftrightarrow> p \<in> prios q"
proof -
  assume t: "tcb_ok p t"
  have "x AND push_bit m 1 \<noteq> 0 \<longleftrightarrow> bit x m" if "m < 8" for x :: u8 and m
    using that by (auto simp: row_nonzero bit_and_iff bit_one_row)
  then show ?thesis using t div_mod_less [of p] by (simp add: tcb_ok_def prios_def)
qed

lemma promote_ready:
  assumes "ps_ok (OSRdy s)" "tcb_ok p (OSTCBTbl s i)" "p \<in> ready s" "unat pip < 64"
  shows "\<exists>r. promote pip i s = s\<lparr>OSRdy := r, OSTCBTbl := (OSTCBTbl s)(i := set_prio pip (OSTCBTbl s i)),
      OSTCBPrioTbl := (OSTCBPrioTbl s)(unat pip := Task i)\<rparr> \<and> ps_ok r \<and> prios r = insert (unat pip) (ready s - {p})"
proof -
  let ?t = "OSTCBTbl s i" and ?u = "set_prio pip (OSTCBTbl s i)"
  let ?r = "ps_add (OSTCBY ?u) ?u (ps_remove ?t (OSRdy s))"
  have "promote pip i s = s\<lparr>OSRdy := ?r, OSTCBTbl := (OSTCBTbl s)(i := ?u), OSTCBPrioTbl := (OSTCBPrioTbl s)(unat pip := Task i)\<rparr>"
    using ready_row [OF assms(2)] assms(3) by (simp add: promote_def Let_def upd_tcb_def upd_rdy_def)
  moreover have u: "tcb_ok (unat pip) ?u" using set_prio_ok [OF assms(4)] .
  have "ps_ok ?r" "prios ?r = insert (unat pip) (ready s - {p})"
    using ps_add_ok [OF ps_remove_ok(1) [OF assms(1,2)] u] ps_remove_ok(2) [OF assms(1,2)] u by (simp_all add: tcb_ok_def)
  ultimately show ?thesis by blast
qed

lemma restored:
  assumes "ps_ok (OSRdy s)" "tcb_ok q (OSTCBTbl s i)" "unat prio < 64"
  shows "\<exists>r. OSMutex_RdyAtPrio i prio s = s\<lparr>OSRdy := r, OSTCBTbl := (OSTCBTbl s)(i := set_prio prio (OSTCBTbl s i)),
      OSPrioCur := prio, OSTCBPrioTbl := (OSTCBPrioTbl s)(unat prio := Task i)\<rparr>
    \<and> ps_ok r \<and> prios r = insert (unat prio) (ready s - {q})"
proof -
  let ?t = "OSTCBTbl s i" and ?u = "set_prio prio (OSTCBTbl s i)"
  let ?r = "ps_add (OSTCBY ?u) ?u (ps_remove ?t (OSRdy s))"
  have "unat (drop_bit 3 prio AND 7) = unat (drop_bit 3 prio)" using assms(3) by (simp add: unat_and7 unat_drop3)
  then have y: "drop_bit 3 prio AND 7 = drop_bit 3 prio" by (simp add: word_unat_eq_iff)
  have same: "(set_prio prio t)\<lparr>OSTCBY := drop_bit 3 prio, OSTCBBitY := push_bit (unat (drop_bit 3 prio)) 1\<rparr> = set_prio prio t" for t
    by (simp add: set_prio_def Let_def)
  have "OSMutex_RdyAtPrio i prio s = s\<lparr>OSRdy := ?r, OSTCBTbl := (OSTCBTbl s)(i := ?u), OSPrioCur := prio,
      OSTCBPrioTbl := (OSTCBPrioTbl s)(unat prio := Task i)\<rparr>"
    unfolding OSMutex_RdyAtPrio_def Let_def y same by (simp add: upd_tcb_def upd_rdy_def)
  moreover have u: "tcb_ok (unat prio) ?u" using set_prio_ok [OF assms(3)] .
  have "ps_ok ?r" "prios ?r = insert (unat prio) (ready s - {q})"
    using ps_add_ok [OF ps_remove_ok(1) [OF assms(1,2)] u] ps_remove_ok(2) [OF assms(1,2)] u by (simp_all add: tcb_ok_def)
  ultimately show ?thesis by blast
qed

lemma set_prio_twice: "OSTCBPrio t = prio \<Longrightarrow> t = set_prio prio t \<Longrightarrow> set_prio prio (set_prio pip t) = t"
  by (simp add: set_prio_def Let_def)

section \<open>Waiting for a mutex and giving it back\<close>

text \<open>The mutex \<open>e\<close> is held by the ready task \<open>i\<close> of priority \<open>p\<close>; the running task \<open>k\<close> of priority \<open>c\<close> is more urgent,
  and the priority \<open>pip\<close> of the mutex is more urgent than both and reserved.\<close>

definition contended :: "nat \<Rightarrow> nat \<Rightarrow> u8 \<Rightarrow> nat \<Rightarrow> u8 \<Rightarrow> u8 \<Rightarrow> os \<Rightarrow> bool" where
  "contended e i p k c pip s \<longleftrightarrow>
     ps_ok (OSRdy s) \<and> ps_ok (ev_wait (OSEventTbl s e)) \<and> waits s e = {}
     \<and> OSIntNesting s = 0 \<and> OSLockNesting s = 0
     \<and> OSEventType (OSEventTbl s e) = 4 \<and> OSEventCnt (OSEventTbl s e) = mutex_cnt pip p \<and> OSEventPtr (OSEventTbl s e) = Owner i
     \<and> OSTCBCur s = k \<and> OSPrioCur s = c \<and> unat c = Min (ready s) \<and> unat c \<in> ready s
     \<and> OSTCBPrioTbl s (unat c) = Task k \<and> tcb_ok (unat c) (OSTCBTbl s k) \<and> OSTCBStat (OSTCBTbl s k) = 0
     \<and> OSTCBPrioTbl s (unat p) = Task i \<and> tcb_ok (unat p) (OSTCBTbl s i) \<and> unat p \<in> ready s \<and> i \<noteq> k
     \<and> OSTCBPrioTbl s (unat pip) = Reserved \<and> pip < c \<and> c < p"

lemma insert_minus: "a \<noteq> c \<Longrightarrow> insert a (R - {p}) - {c} = insert a (R - {p, c})"
  by auto

lemma tcb_prio: "tcb_ok (unat p) t \<Longrightarrow> OSTCBPrio t = p"
  by (simp add: tcb_ok_def word_unat_eq_iff)

text \<open>The state in which the owner has the priority and the other waits.\<close>

definition lent :: "nat \<Rightarrow> nat \<Rightarrow> nat \<Rightarrow> u8 \<Rightarrow> u32 \<Rightarrow> prio_set \<Rightarrow> prio_set \<Rightarrow> u8 \<Rightarrow> os \<Rightarrow> os" where
  "lent e i k pip timeout r v h s =
     s\<lparr>OSRdy := r, OSEventTbl := (OSEventTbl s)(e := (OSEventTbl s e)\<lparr>ev_wait := v\<rparr>),
       OSTCBTbl := (OSTCBTbl s)(i := set_prio pip (OSTCBTbl s i),
         k := (OSTCBTbl s k)\<lparr>OSTCBStat := 0x10, OSTCBStatPend := 0, OSTCBDly := timeout, OSTCBEventPtr := Some e\<rparr>),
       OSTCBPrioTbl := (OSTCBPrioTbl s)(unat pip := Task i), OSPrioHighRdy := h, OSPrioCur := pip, OSTCBCur := i\<rparr>"

lemma contended_wait:
  assumes "contended e i p k c pip s"
  shows "\<exists>r v h. OSMutexPend e timeout s = Some (lent e i k pip timeout r v h s, Waits)
     \<and> ps_ok r \<and> prios r = insert (unat pip) (ready s - {unat p, unat c}) \<and> ps_ok v \<and> prios v = {unat c}"
proof -
  let ?t = "OSTCBTbl s k" and ?q = "ev_wait (OSEventTbl s e)"
  have a: "ps_ok (OSRdy s)" "ps_ok ?q" "waits s e = {}" and n: "OSIntNesting s = 0" "OSLockNesting s = 0"
    and m: "OSEventType (OSEventTbl s e) = 4" "OSEventCnt (OSEventTbl s e) = mutex_cnt pip p" "OSEventPtr (OSEventTbl s e) = Owner i"
    and c: "OSTCBCur s = k" "OSPrioCur s = c" "unat c = Min (ready s)" "unat c \<in> ready s" "tcb_ok (unat c) ?t" "OSTCBStat ?t = 0"
    and o: "tcb_ok (unat p) (OSTCBTbl s i)" "unat p \<in> ready s" "i \<noteq> k" and lt: "pip < c" "c < p"
    using assms unfolding contended_def by blast+
  have nlt: "unat pip < unat c" "unat c < unat p" "unat p < 64" using lt prios_less [OF o(2)] by (simp_all add: word_less_nat_alt)
  obtain r where r: "promote pip i s = s\<lparr>OSRdy := r, OSTCBTbl := (OSTCBTbl s)(i := set_prio pip (OSTCBTbl s i)),
      OSTCBPrioTbl := (OSTCBPrioTbl s)(unat pip := Task i)\<rparr>" "ps_ok r" "prios r = insert (unat pip) (ready s - {unat p})"
    using promote_ready [OF a(1) o(1,2), of pip] nlt by auto
  have tp: "OSTCBPrio (OSTCBTbl s i) = p" "OSTCBPrio ?t = c" using tcb_prio [OF o(1)] tcb_prio [OF c(5)] by simp_all
  have p255: "p \<noteq> 255" using nlt(3) by auto
  let ?r = "ps_remove ?t r" and ?v = "ps_add (OSTCBY ?t) ?t ?q"
  let ?u = "?t\<lparr>OSTCBStat := 0x10, OSTCBStatPend := 0, OSTCBDly := timeout, OSTCBEventPtr := Some e\<rparr>"
  let ?s = "s\<lparr>OSRdy := ?r, OSEventTbl := (OSEventTbl s)(e := (OSEventTbl s e)\<lparr>ev_wait := ?v\<rparr>),
     OSTCBTbl := (OSTCBTbl s)(i := set_prio pip (OSTCBTbl s i), k := ?u), OSTCBPrioTbl := (OSTCBPrioTbl s)(unat pip := Task i)\<rparr>"
  have R: "ps_ok ?r" "prios ?r = insert (unat pip) (ready s - {unat p, unat c})"
  proof -
    show "ps_ok ?r" using ps_remove_ok(1) [OF r(2) c(5)] .
    show "prios ?r = insert (unat pip) (ready s - {unat p, unat c})"
      unfolding ps_remove_ok(2) [OF r(2) c(5)] r(3) by (rule insert_minus [OF less_imp_neq [OF nlt(1)]])
  qed
  have V: "ps_ok ?v" "prios ?v = {unat c}" using ps_add_ok [OF a(2) c(5)] c(5) by (simp_all add: tcb_ok_def a(3))
  have "OSMutexPend e timeout s = map_option (\<lambda>s. (s, Waits)) (OS_Sched ?s)"
    using lt less_trans [OF lt] n m p255 o(3) c(1,6) tp
    by (simp add: OSMutexPend_def Let_def r(1) upd_tcb_def upd_event_def upd_rdy_def OS_EventTaskWait_def)
      (rule arg_cong [where f = "\<lambda>s. map_option (\<lambda>s. (s, Waits)) (OS_Sched s)"], simp)
  moreover have min: "ps_least ?r = pip"
  proof -
    have "unat (ps_least ?r) = Min (insert (unat pip) (ready s - {unat p, unat c}))" using ps_least_ok(1) [OF R(1)] by (simp add: R(2))
    also have "\<dots> = unat pip"
    proof (rule Min_eqI)
      fix y assume "y \<in> insert (unat pip) (ready s - {unat p, unat c})"
      then have "y = unat pip \<or> y \<in> ready s" by blast
      then show "unat pip \<le> y"
      proof
        assume "y \<in> ready s"
        then have "Min (ready s) \<le> y" by simp
        then show ?thesis using nlt(1) c(3) by simp
      qed simp
    qed simp_all
    finally show ?thesis by (simp add: word_unat_eq_iff)
  qed
  have "OS_Sched ?s = Some (?s\<lparr>OSPrioHighRdy := pip, OSPrioCur := pip, OSTCBCur := i\<rparr>)"
    using n lt(1) by (simp add: OS_Sched_def Let_def OS_SchedNew_def min OS_TASK_SW_def c(2))
  ultimately show ?thesis using R V by (intro exI [of _ ?r] exI [of _ ?v] exI [of _ pip]) (simp add: lent_def)
qed

text \<open>What \<open>OSMutexPost\<close> does first: the owner gives the priority back.\<close>

lemma given_back:
  fixes timeout :: u32 and v :: prio_set and h :: u8
  assumes "contended e i p k c pip s" and w: "ps_ok r" "prios r = insert (unat pip) (ready s - {unat p, unat c})"
  defines "s1 \<equiv> lent e i k pip timeout r v h s"
  shows "\<exists>r2. (OSMutex_RdyAtPrio i p s1)\<lparr>OSTCBPrioTbl := (OSTCBPrioTbl (OSMutex_RdyAtPrio i p s1))(unat pip := Reserved)\<rparr>
      = s\<lparr>OSRdy := r2, OSEventTbl := (OSEventTbl s)(e := (OSEventTbl s e)\<lparr>ev_wait := v\<rparr>),
          OSTCBTbl := (OSTCBTbl s)(i := set_prio p (set_prio pip (OSTCBTbl s i)), k := OSTCBTbl s1 k),
          OSPrioHighRdy := h, OSPrioCur := p, OSTCBCur := i\<rparr>
    \<and> ps_ok r2 \<and> prios r2 = ready s - {unat c}"
proof -
  have c: "unat c = Min (ready s)"
    and o: "unat p \<in> ready s" "i \<noteq> k" "OSTCBPrioTbl s (unat p) = Task i"
    and q: "OSTCBPrioTbl s (unat pip) = Reserved" and lt: "pip < c" "c < p"
    using assms(1) unfolding contended_def by blast+
  have nlt: "unat pip < unat c" "unat c < unat p" "unat p < 64" using lt prios_less [OF o(1)] by (simp_all add: word_less_nat_alt)
  have q2: "unat pip \<notin> ready s"
  proof
    assume "unat pip \<in> ready s"
    then have "Min (ready s) \<le> unat pip" by simp
    then show False using nlt(1) c by simp
  qed
  have iok: "tcb_ok (unat pip) (OSTCBTbl s1 i)" using set_prio_ok [of pip] nlt o(2) by (simp add: s1_def lent_def)
  obtain r2 where r2: "OSMutex_RdyAtPrio i p s1 = s1\<lparr>OSRdy := r2, OSTCBTbl := (OSTCBTbl s1)(i := set_prio p (OSTCBTbl s1 i)),
      OSPrioCur := p, OSTCBPrioTbl := (OSTCBPrioTbl s1)(unat p := Task i)\<rparr>" "ps_ok r2"
      "prios r2 = insert (unat p) (ready s1 - {unat pip})"
    using restored [of s1, OF _ iok nlt(3)] w(1) by (auto simp: s1_def lent_def)
  have "prios r2 = ready s - {unat c}"
  proof -
    have "ready s1 = insert (unat pip) (ready s - {unat p, unat c})" using w(2) by (simp add: s1_def lent_def)
    then show ?thesis using r2(3) o(1) q2 less_imp_neq [OF nlt(2)] by auto
  qed
  moreover have "(OSTCBPrioTbl s)(unat pip := Task i, unat p := Task i, unat pip := Reserved) = OSTCBPrioTbl s"
    using o(3) q by (auto simp: fun_eq_iff)
  ultimately show ?thesis using o(2) r2(2) unfolding r2(1)
    by (intro exI [of _ r2]) (simp add: s1_def lent_def fun_upd_twist)
qed

text \<open>And then: the waiting task becomes the owner and runs.\<close>

lemma handed_over:
  fixes h p :: u8
  assumes n: "OSIntNesting s = 0" "OSLockNesting s = 0" and c: "unat c = Min (ready s)" "unat c \<in> ready s" "OSTCBPrioTbl s (unat c) = Task k"
    and w: "tcb_ok (unat c) w" "OSTCBStat w = 0x10" and v: "ps_ok v" "prios v = {unat c}" and r: "ps_ok r" "prios r = ready s - {unat c}"
    and p: "c \<noteq> p" "i \<noteq> k"
  shows "\<exists>s3 s4. OS_EventTaskRdy e 0 0x10 0 (s\<lparr>OSRdy := r, OSEventTbl := (OSEventTbl s)(e := (OSEventTbl s e)\<lparr>ev_wait := v\<rparr>),
        OSTCBTbl := (OSTCBTbl s)(i := t, k := w), OSPrioHighRdy := h, OSPrioCur := p, OSTCBCur := i\<rparr>) = Some (s3, c)
    \<and> OSTCBPrioTbl s3 = OSTCBPrioTbl s \<and> OSEventCnt (OSEventTbl s3 e) = OSEventCnt (OSEventTbl s e)
    \<and> OS_Sched (upd_event e (\<lambda>v. v\<lparr>OSEventCnt := n', OSEventPtr := o'\<rparr>) s3) = Some s4
    \<and> OSTCBCur s4 = k \<and> OSPrioCur s4 = c \<and> ready s4 = ready s \<and> waits s4 e = {} \<and> OSTCBPrioTbl s4 = OSTCBPrioTbl s
    \<and> OSEventPtr (OSEventTbl s4 e) = o' \<and> OSEventCnt (OSEventTbl s4 e) = n' \<and> OSTCBTbl s4 i = t"
proof -
  have vl: "ps_least v = c" "unat (ps_row v) = unat c div 8"
    using ps_least_ok [OF v(1)] by (simp_all add: v(2) word_unat_eq_iff)
  have V: "ps_ok (ps_remove w v)" "prios (ps_remove w v) = {}" using ps_remove_ok [OF v(1) w(1)] by (simp_all add: v(2))
  have R: "ps_ok (ps_add (ps_row v) w r)" "prios (ps_add (ps_row v) w r) = ready s"
    using ps_add_ok [OF r(1) w(1) vl(2)] c(2) by (auto simp: r(2))
  let ?w = "w\<lparr>OSTCBDly := 0, OSTCBMsg := 0, OSTCBStat := 0, OSTCBStatPend := 0\<rparr>"
  let ?s3 = "s\<lparr>OSRdy := ps_add (ps_row v) w r, OSEventTbl := (OSEventTbl s)(e := (OSEventTbl s e)\<lparr>ev_wait := ps_remove w v\<rparr>),
       OSTCBTbl := (OSTCBTbl s)(i := t, k := ?w), OSPrioHighRdy := h, OSPrioCur := p, OSTCBCur := i\<rparr>"
  have rdy: "OS_EventTaskRdy e 0 0x10 0 (s\<lparr>OSRdy := r, OSEventTbl := (OSEventTbl s)(e := (OSEventTbl s e)\<lparr>ev_wait := v\<rparr>),
        OSTCBTbl := (OSTCBTbl s)(i := t, k := w), OSPrioHighRdy := h, OSPrioCur := p, OSTCBCur := i\<rparr>) = Some (?s3, c)"
    using c(3) w(2) by (simp add: OS_EventTaskRdy_def Let_def vl(1) upd_tcb_def upd_rdy_def upd_event_def OS_EventTaskRemove_def)
  let ?s4 = "upd_event e (\<lambda>v. v\<lparr>OSEventCnt := n', OSEventPtr := o'\<rparr>) ?s3"
  have least: "ps_least (ps_add (ps_row v) w r) = c"
  proof -
    have ne: "prios (ps_add (ps_row v) w r) \<noteq> {}" unfolding R(2) using c(2) by blast
    have "unat (ps_least (ps_add (ps_row v) w r)) = unat c" unfolding ps_least_ok(1) [OF R(1) ne] R(2) by (rule c(1) [symmetric])
    then show ?thesis unfolding word_unat_eq_iff .
  qed
  have "OS_Sched ?s4 = Some (?s4\<lparr>OSPrioHighRdy := c, OSPrioCur := c, OSTCBCur := k\<rparr>)"
    using n c(3) p(1) least by (simp add: OS_Sched_def Let_def OS_SchedNew_def OS_TASK_SW_def upd_event_def)
  then show ?thesis
    by (intro exI [of _ ?s3] exI [of _ "?s4\<lparr>OSPrioHighRdy := c, OSPrioCur := c, OSTCBCur := k\<rparr>"])
      (use rdy R(2) V(2) p(2) in \<open>simp add: upd_event_def\<close>)
qed

text \<open>C9: priority inheritance and its end: when a task asks for a mutex a less urgent task holds, the holder at once runs with
  the priority of the mutex, before every task that could delay it, and when it gives the mutex back it has its own
  priority again, the waiting task owns the mutex and runs, and the ready list and the table of the priorities are as they
  were before.\<close>

theorem priority_inheritance:
  assumes "contended e i p k c pip s"
  shows "\<exists>s1 s2. OSMutexPend e timeout s = Some (s1, Waits) \<and> OSTCBCur s1 = i \<and> OSPrioCur s1 = pip
     \<and> OSMutexPost e s1 = Some (s2, 0) \<and> OSTCBCur s2 = k \<and> OSPrioCur s2 = c \<and> ready s2 = ready s \<and> waits s2 e = {}
     \<and> OSEventPtr (OSEventTbl s2 e) = Owner k \<and> OSEventCnt (OSEventTbl s2 e) = mutex_cnt pip c
     \<and> OSTCBPrioTbl s2 = OSTCBPrioTbl s \<and> OSTCBPrio (OSTCBTbl s2 i) = p"
proof -
  let ?k = "(OSTCBTbl s k)\<lparr>OSTCBStat := 0x10, OSTCBStatPend := 0, OSTCBDly := timeout, OSTCBEventPtr := Some e\<rparr>"
  let ?i = "set_prio pip (OSTCBTbl s i)"
  obtain r v h where w: "OSMutexPend e timeout s = Some (lent e i k pip timeout r v h s, Waits)" "ps_ok r"
      "prios r = insert (unat pip) (ready s - {unat p, unat c})" "ps_ok v" "prios v = {unat c}"
    using contended_wait [OF assms] by blast
  let ?s1 = "lent e i k pip timeout r v h s"
  have n: "OSIntNesting s = 0" "OSLockNesting s = 0"
    and m: "OSEventType (OSEventTbl s e) = 4" "OSEventCnt (OSEventTbl s e) = mutex_cnt pip p" "OSEventPtr (OSEventTbl s e) = Owner i"
    and c: "unat c = Min (ready s)" "unat c \<in> ready s" "OSTCBPrioTbl s (unat c) = Task k"
    and o: "tcb_ok (unat c) (OSTCBTbl s k)" "i \<noteq> k" and lt: "pip < c" "c < p"
    using assms unfolding contended_def by blast+
  obtain r2 where s2: "(OSMutex_RdyAtPrio i p ?s1)\<lparr>OSTCBPrioTbl := (OSTCBPrioTbl (OSMutex_RdyAtPrio i p ?s1))(unat pip := Reserved)\<rparr>
      = s\<lparr>OSRdy := r2, OSEventTbl := (OSEventTbl s)(e := (OSEventTbl s e)\<lparr>ev_wait := v\<rparr>),
          OSTCBTbl := (OSTCBTbl s)(i := set_prio p ?i, k := ?k), OSPrioHighRdy := h, OSPrioCur := p, OSTCBCur := i\<rparr>"
      "ps_ok r2" "prios r2 = ready s - {unat c}"
    using given_back [OF assms w(2,3), of timeout v h] by (auto simp: lent_def)
  have wk: "tcb_ok (unat c) ?k" "OSTCBStat ?k = 0x10" "c \<noteq> p" using o(1) lt(2) by simp_all
  obtain s3 s4 where h: "OS_EventTaskRdy e 0 0x10 0 (s\<lparr>OSRdy := r2, OSEventTbl := (OSEventTbl s)(e := (OSEventTbl s e)\<lparr>ev_wait := v\<rparr>),
        OSTCBTbl := (OSTCBTbl s)(i := set_prio p ?i, k := ?k), OSPrioHighRdy := h, OSPrioCur := p, OSTCBCur := i\<rparr>) = Some (s3, c)"
      "OSTCBPrioTbl s3 = OSTCBPrioTbl s" "OSEventCnt (OSEventTbl s3 e) = OSEventCnt (OSEventTbl s e)"
      "OS_Sched (upd_event e (\<lambda>v. v\<lparr>OSEventCnt := mutex_cnt pip c, OSEventPtr := Owner k\<rparr>) s3) = Some s4"
      "OSTCBCur s4 = k" "OSPrioCur s4 = c" "ready s4 = ready s" "waits s4 e = {}" "OSTCBPrioTbl s4 = OSTCBPrioTbl s"
      "OSEventPtr (OSEventTbl s4 e) = Owner k" "OSEventCnt (OSEventTbl s4 e) = mutex_cnt pip c" "OSTCBTbl s4 i = set_prio p ?i"
    using handed_over [OF n c wk(1,2) w(4,5) s2(2,3) wk(3) o(2), where e = e and t = "set_prio p ?i" and h = h
        and n' = "mutex_cnt pip c" and o' = "Owner k"] by blast
  have "upd_event e (\<lambda>v. v\<lparr>OSEventCnt := (OSEventCnt v AND 0xFF00) OR ucast c, OSEventPtr := Owner k\<rparr>) s3
      = upd_event e (\<lambda>v. v\<lparr>OSEventCnt := mutex_cnt pip c, OSEventPtr := Owner k\<rparr>) s3"
    by (simp add: upd_event_def h(3) m(2))
  moreover have "grp v \<noteq> 0" using prios_empty_iff [OF w(4)] w(5) by auto
  moreover have "OSTCBPrio ?i = pip" by (simp add: set_prio_def Let_def)
  ultimately have "OSMutexPost e ?s1 = Some (s4, 0)"
    using n m o(2) lt(1) s2(1) h(1,2,4) c(3) by (simp add: OSMutexPost_def Let_def) (simp add: lent_def)
  then show ?thesis using w(1) h(5-12) by (auto simp: lent_def set_prio_def Let_def)
qed

text \<open>A task of priority 30 holds the mutex of priority 8 when the task of priority 10 asks for it.\<close>

definition mutex_scene :: "os option" where
  "mutex_scene = do {
     s \<leftarrow> boot [10, 30] [];
     (s, _) \<leftarrow> kcall (Time_dly 5) s;
     (s, _) \<leftarrow> kcall (Time_dly 5) s;
     let (s, _) = OSMutexCreate 8 s;
     (s, _) \<leftarrow> OSMutexPend 2 0 s;
     (s, _) \<leftarrow> kcall (Dly_resume 10) s;
     Some s }"

definition ps_check :: "prio_set \<Rightarrow> bool" where
  "ps_check q \<longleftrightarrow> length (tbl q) = 8 \<and> list_all (\<lambda>y. bit (grp q) y \<longleftrightarrow> tbl q ! y \<noteq> 0) [0..<8]"

lemma ps_check: "ps_check q \<longleftrightarrow> ps_ok q"
  by (auto simp: ps_check_def ps_ok_def list_all_iff)

definition contended_check :: "nat \<Rightarrow> nat \<Rightarrow> u8 \<Rightarrow> nat \<Rightarrow> u8 \<Rightarrow> u8 \<Rightarrow> os \<Rightarrow> bool" where
  "contended_check e i p k c pip s \<longleftrightarrow>
     ps_check (OSRdy s) \<and> ps_check (ev_wait (OSEventTbl s e)) \<and> grp (ev_wait (OSEventTbl s e)) = 0
     \<and> OSIntNesting s = 0 \<and> OSLockNesting s = 0
     \<and> OSEventType (OSEventTbl s e) = 4 \<and> OSEventCnt (OSEventTbl s e) = mutex_cnt pip p \<and> OSEventPtr (OSEventTbl s e) = Owner i
     \<and> OSTCBCur s = k \<and> OSPrioCur s = c \<and> c = ps_least (OSRdy s) \<and> grp (OSRdy s) \<noteq> 0
     \<and> OSTCBPrioTbl s (unat c) = Task k \<and> tcb_ok (unat c) (OSTCBTbl s k) \<and> OSTCBStat (OSTCBTbl s k) = 0
     \<and> OSTCBPrioTbl s (unat p) = Task i \<and> tcb_ok (unat p) (OSTCBTbl s i) \<and> bit (tbl (OSRdy s) ! (unat p div 8)) (unat p mod 8)
     \<and> i \<noteq> k \<and> OSTCBPrioTbl s (unat pip) = Reserved \<and> pip < c \<and> c < p"

lemma contended_check: "contended_check e i p k c pip s \<Longrightarrow> contended e i p k c pip s"
proof -
  assume h: "contended_check e i p k c pip s"
  have q: "ps_ok (OSRdy s)" "prios (OSRdy s) \<noteq> {}" "c = ps_least (OSRdy s)" "ps_ok (ev_wait (OSEventTbl s e))"
    "grp (ev_wait (OSEventTbl s e)) = 0" "tcb_ok (unat p) (OSTCBTbl s i)" "bit (tbl (OSRdy s) ! (unat p div 8)) (unat p mod 8)"
    using h prios_empty_iff [of "OSRdy s"] unfolding contended_check_def ps_check by blast+
  have "unat c = Min (ready s)" unfolding q(3) by (rule ps_least_ok(1) [OF q(1,2)])
  moreover have "Min (ready s) \<in> ready s" using q(2) by simp
  moreover have "waits s e = {}" using prios_empty_iff [OF q(4)] q(5) by blast
  moreover have "unat p \<in> ready s" using q(6,7) by (simp add: prios_def tcb_ok_def)
  ultimately show ?thesis using h q(1,4) unfolding contended_check_def contended_def by metis
qed

lemma priority_inheritance_witness:
  "\<exists>s s1 s2. mutex_scene = Some s \<and> OSPrioCur s = 10 \<and> OSMutexPend 2 0 s = Some (s1, Waits) \<and> OSTCBCur s1 = 4 \<and> OSPrioCur s1 = 8
     \<and> OSMutexPost 2 s1 = Some (s2, 0) \<and> OSTCBCur s2 = 3 \<and> OSPrioCur s2 = 10"
proof -
  have "map_option (contended_check 2 4 30 3 10 8) mutex_scene = Some True" by code_simp
  then obtain s where s: "mutex_scene = Some s" "contended_check 2 4 30 3 10 8 s" by auto
  have "OSPrioCur s = 10" using s(2) by (simp add: contended_check_def)
  then show ?thesis using priority_inheritance [OF contended_check [OF s(2)], of 0] s(1) by blast
qed

end
