(* ===== verification/DataSend.thy ===== *)
theory DataSend
  imports RingBuf AtCmd
begin

text \<open>
  The sending tasks of the data mode, \<^verbatim>\<open>App/SerialNet/socketCom.c\<close>: \<open>TCPSendTask\<close> and \<open>UDPSendTask\<close> take what the serial
  line has put into the ring buffer (\<^verbatim>\<open>RingBuf\<close>) and send it, the TCP server to every client.  A task is modelled as
  the passes of its loop.  What a pass finds is a parameter: the mode, the descriptors of the table and the results of
  the socket calls, for the retry loop one observation per round.  The semaphore of the serial receiver has been posted.
  \<open>recv_lock\<close> says whether the lock is held; \<^term>\<open>None\<close> is the null pointer that \<open>NST_ALLOC_LOCK\<close> gives when it fails, and to
  lock and unlock it has no effect (\<^verbatim>\<open>Kernel\<close>).
  \<open>tx_log\<close> is what the stack has accepted on which descriptor.
\<close>

record sender =
  uartrxbuf :: ring_buffer
  recv_lock :: "bool option"
  uart_send_flag :: u8
  rts_high :: bool
  net_sendStart :: u8
  tx_log :: "(int \<times> u8 list) list"

text \<open>One round of the loop that repeats a send: the mode, whether the connection is still there, the descriptor in
  the table now, and the result of \<open>send\<close> for each length.\<close>

record retry_round =
  rt_atMode :: u8
  rt_alive :: bool
  rt_fd :: int
  rt_snd :: "nat \<Rightarrow> int"

record send_env =
  se_atMode :: u8
  se_sockfd :: int
  se_maxfd :: int
  se_slots :: "int list"
  se_first :: "int \<Rightarrow> nat \<Rightarrow> int"
  se_retries :: "int \<Rightarrow> retry_round list"

abbreviation AT_MODE :: u8 where "AT_MODE \<equiv> 0"
abbreviation DATA_MODE :: u8 where "DATA_MODE \<equiv> 1"
abbreviation g_SendBufSize :: int where "g_SendBufSize \<equiv> 2048"

datatype pass = Again | Returned | Blocked

text \<open>Flow control: a stopped line is started again.\<close>

definition flow_on :: "sender \<Rightarrow> sender" where
  "flow_on s = (if uart_send_flag s = 0 then s\<lparr>uart_send_flag := 1, rts_high := True\<rparr> else s)"

definition accepted :: "int \<Rightarrow> u8 list \<Rightarrow> int \<Rightarrow> sender \<Rightarrow> sender" where
  "accepted fd data n s = s\<lparr>tx_log := tx_log s @ [(fd, take (nat n) data)]\<rparr>"

text \<open>The flag is \<open>return\<close>; \<^term>\<open>None\<close> is that it still tries after the last observation.\<close>

fun send_again :: "retry_round list \<Rightarrow> u8 list \<Rightarrow> sender \<Rightarrow> (sender \<times> bool) option" where
  "send_again [] data s = None"
| "send_again (t # ts) data s =
     (if rt_atMode t = AT_MODE \<or> \<not> rt_alive t
      then Some (flow_on (s\<lparr>uartrxbuf := ring_buf_clear (uartrxbuf s)\<rparr>), True)
      else if 0 < rt_snd t (length data)
      then Some (flow_on (accepted (rt_fd t) data (rt_snd t (length data)) s), False)
      else send_again ts data s)"

definition send_one :: "send_env \<Rightarrow> int \<Rightarrow> u8 list \<Rightarrow> sender \<Rightarrow> (sender \<times> bool) option" where
  "send_one e fd data s =
     (if se_first e fd (length data) < 0 then send_again (se_retries e fd) data s
      else Some (flow_on (accepted fd data (se_first e fd (length data)) s), False))"

fun send_all :: "send_env \<Rightarrow> int list \<Rightarrow> u8 list \<Rightarrow> sender \<Rightarrow> (sender \<times> bool) option" where
  "send_all e [] data s = Some (s, False)"
| "send_all e (fd # fds) data s =
     (if 0 \<le> fd then do {
        (s, quit) \<leftarrow> send_one e fd data s;
        if quit then Some (s, True) else send_all e fds data s }
      else send_all e fds data s)"

text \<open>\<open>NST_AQUIRE_LOCK\<close>, where \<^term>\<open>None\<close> is that the task waits, and \<open>NST_RELEASE_LOCK\<close>.\<close>

definition acquire :: "sender \<Rightarrow> sender option" where
  "acquire s = (case recv_lock s of None \<Rightarrow> Some s | Some held \<Rightarrow> if held then None else Some (s\<lparr>recv_lock := Some True\<rparr>))"

definition release :: "sender \<Rightarrow> sender" where
  "release s = s\<lparr>recv_lock := map_option (\<lambda>_. False) (recv_lock s)\<rparr>"

text \<open>The part under the lock.\<close>

definition take_data :: "sender \<Rightarrow> (sender \<times> u8 list) option" where
  "take_data s =
     (let data_len = ring_buf_cnt (uartrxbuf s) in
      map_option (\<lambda>(r, data, _). (s\<lparr>uartrxbuf := r\<rparr>, data))
        (ring_buf_read (uartrxbuf s) (if data_len \<le> g_SendBufSize then data_len else g_SendBufSize)))"

definition TCPSendTask_pass :: "bool \<Rightarrow> send_env \<Rightarrow> sender \<Rightarrow> (sender \<times> pass) option" where
  "TCPSendTask_pass server e s =
     (if se_atMode e \<noteq> DATA_MODE then Some (s, Returned)
      else if se_sockfd e < 0 \<and> se_maxfd e \<le> 0 then Some (s, Again)
      else case acquire s of None \<Rightarrow> Some (s, Blocked)
      | Some s \<Rightarrow>
        if ring_buf_cnt (uartrxbuf s) = 0 then Some (s, Again)
        else do {
          (s, data) \<leftarrow> take_data s;
          let s = (release s)\<lparr>net_sendStart := 0\<rparr>;
          (s, quit) \<leftarrow> (if server then send_all e (se_slots e) data s else send_one e (se_sockfd e) data s);
          Some (s, if quit then Returned else Again) })"

definition UDPSendTask_pass :: "u8 \<Rightarrow> send_env \<Rightarrow> sender \<Rightarrow> (sender \<times> pass) option" where
  "UDPSendTask_pass conn e s =
     (if se_atMode e \<noteq> DATA_MODE then Some (s, Returned)
      else if conn = 0 then Some (s, Again)
      else if ring_buf_cnt (uartrxbuf s) = 0 then Some (s, Again)
      else do {
        (s, data) \<leftarrow> take_data s;
        let s = s\<lparr>net_sendStart := 0\<rparr>;
        let fd = se_sockfd e;
        let n = se_first e fd (length data);
        Some (if n < 0 then s else accepted fd data n s, Again) })"

text \<open>A task makes passes until it returns or blocks; \<open>SendThread\<close> starts the task of the present parameters.\<close>

fun send_passes :: "('e \<Rightarrow> sender \<Rightarrow> (sender \<times> pass) option) \<Rightarrow> 'e list \<Rightarrow> sender \<Rightarrow> (sender \<times> pass) option" where
  "send_passes task [] s = Some (s, Again)"
| "send_passes task (e # es) s = do {
     (s, p) \<leftarrow> task e s;
     if p = Again then send_passes task es s else Some (s, p) }"

definition SendThread_pass :: "sys_evt \<Rightarrow> user_param \<Rightarrow> (u8 \<times> send_env) list \<Rightarrow> sender \<Rightarrow> (sender \<times> pass) option" where
  "SendThread_pass link u es s =
     (if link \<noteq> SYS_EVT_LINK_UP \<or> up_atMode u \<noteq> DATA_MODE then Some (s, Returned)
      else if socketType u \<noteq> 0 \<and> socketType u \<noteq> 1 then Some (s, Returned)
      else if socketProtocol u = 0 then send_passes (\<lambda>(conn, e). UDPSendTask_pass conn e) es s
      else if socketProtocol u = 1 then send_passes (\<lambda>(_, e). TCPSendTask_pass (socketType u = 1) e) es s
      else Some (s, Returned))"

section \<open>One pass\<close>

lemma take_data_ok:
  assumes "ring_ok (uartrxbuf s)"
  shows "\<exists>r. take_data s = Some (s\<lparr>uartrxbuf := r\<rparr>, take 2048 (contents (uartrxbuf s)))
    \<and> ring_ok r \<and> capacity r = capacity (uartrxbuf s) \<and> contents r = drop 2048 (contents (uartrxbuf s))"
proof -
  let ?c = "ring_buf_cnt (uartrxbuf s)" let ?n = "if ?c \<le> g_SendBufSize then ?c else g_SendBufSize"
  obtain r k where r: "ring_buf_read (uartrxbuf s) ?n = Some (r, take k (contents (uartrxbuf s)), int k)" "ring_ok r"
    "capacity r = capacity (uartrxbuf s)" "contents r = drop k (contents (uartrxbuf s))"
    "k = min (nat ?n) (length (contents (uartrxbuf s)))"
    using ring_buf_read_ok [OF assms] by blast
  have "k = min 2048 (length (contents (uartrxbuf s)))"
    unfolding r(5) using cnt_is_length [OF assms] by auto
  then have "take k (contents (uartrxbuf s)) = take 2048 (contents (uartrxbuf s))"
    "drop k (contents (uartrxbuf s)) = drop 2048 (contents (uartrxbuf s))" by (auto simp: min_def)
  then show ?thesis using r(1-4) by (auto simp: take_data_def Let_def)
qed

lemma flow_on_simps [simp]:
  "uartrxbuf (flow_on s) = uartrxbuf s" "recv_lock (flow_on s) = recv_lock s" "tx_log (flow_on s) = tx_log s"
  by (simp_all add: flow_on_def)

lemma accepted_simps [simp]:
  "uartrxbuf (accepted fd d k s) = uartrxbuf s" "recv_lock (accepted fd d k s) = recv_lock s"
  "tx_log (accepted fd d k s) = tx_log s @ [(fd, take (nat k) d)]"
  by (simp_all add: accepted_def)

text \<open>What a descriptor has been sent.\<close>

definition stream :: "int \<Rightarrow> (int \<times> u8 list) list \<Rightarrow> u8 list" where
  "stream fd log = concat (map snd (filter (\<lambda>(d, _). d = fd) log))"

lemma stream_simps [simp]:
  "stream fd [] = []" "stream fd (a @ b) = stream fd a @ stream fd b"
  "stream fd ((d, x) # l) = (if d = fd then x @ stream fd l else stream fd l)"
  by (simp_all add: stream_def)

text \<open>The stack takes all it is given, at once or after some rounds in which it takes nothing.\<close>

definition takes_all :: "retry_round list \<Rightarrow> int \<Rightarrow> nat \<Rightarrow> bool" where
  "takes_all ts fd n \<longleftrightarrow> (\<exists>us t vs. ts = us @ t # vs \<and> (\<forall>u\<in>set (us @ [t]). rt_atMode u \<noteq> AT_MODE \<and> rt_alive u)
     \<and> (\<forall>u\<in>set us. rt_snd u n \<le> 0) \<and> rt_fd t = fd \<and> rt_snd t n = int n)"

lemma send_again_all:
  assumes "takes_all ts fd (length data)" "data \<noteq> []"
  shows "\<exists>s'. send_again ts data s = Some (s', False) \<and> uartrxbuf s' = uartrxbuf s \<and> recv_lock s' = recv_lock s
    \<and> tx_log s' = tx_log s @ [(fd, data)]"
proof -
  obtain us t vs where ts: "ts = us @ t # vs" "\<forall>u\<in>set (us @ [t]). rt_atMode u \<noteq> AT_MODE \<and> rt_alive u"
    "\<forall>u\<in>set us. rt_snd u (length data) \<le> 0" "rt_fd t = fd" "rt_snd t (length data) = int (length data)"
    using assms(1) unfolding takes_all_def by blast
  show ?thesis unfolding ts(1) using ts(2-5) assms(2) by (induction us) auto
qed

definition served :: "send_env \<Rightarrow> int \<Rightarrow> nat \<Rightarrow> bool" where
  "served e fd n \<longleftrightarrow> se_first e fd n = int n \<or> se_first e fd n < 0 \<and> takes_all (se_retries e fd) fd n"

lemma send_one_all:
  assumes "served e fd (length data)" "data \<noteq> []"
  shows "\<exists>s'. send_one e fd data s = Some (s', False) \<and> uartrxbuf s' = uartrxbuf s \<and> recv_lock s' = recv_lock s
    \<and> tx_log s' = tx_log s @ [(fd, data)]"
  using assms send_again_all [of "se_retries e fd" fd data s] by (auto simp: served_def send_one_def)

lemma send_all_all:
  assumes "\<forall>fd\<in>set fds. 0 \<le> fd \<longrightarrow> served e fd (length data)" "data \<noteq> []"
  shows "\<exists>s'. send_all e fds data s = Some (s', False) \<and> uartrxbuf s' = uartrxbuf s \<and> recv_lock s' = recv_lock s
    \<and> tx_log s' = tx_log s @ map (\<lambda>fd. (fd, data)) (filter (\<lambda>fd. 0 \<le> fd) fds)"
  using assms(1)
proof (induction fds arbitrary: s)
  case (Cons fd fds)
  show ?case
  proof (cases "0 \<le> fd")
    case True
    then obtain s1 where s1: "send_one e fd data s = Some (s1, False)" "uartrxbuf s1 = uartrxbuf s" "recv_lock s1 = recv_lock s"
      "tx_log s1 = tx_log s @ [(fd, data)]"
      using send_one_all [of e fd data s] assms(2) Cons.prems by auto
    then show ?thesis using Cons.IH [of s1] Cons.prems True by auto
  next
    case False
    then show ?thesis using Cons.IH [of s] Cons.prems by auto
  qed
qed simp

lemma pass_ok:
  assumes "ring_ok (uartrxbuf s)" "recv_lock s \<noteq> Some True" "contents (uartrxbuf s) \<noteq> []"
    and "se_atMode e = DATA_MODE" "0 \<le> se_sockfd e \<or> 0 < se_maxfd e"
    and "\<forall>fd\<in>set (se_slots e). 0 \<le> fd \<longrightarrow> served e fd (length (take 2048 (contents (uartrxbuf s))))"
  shows "\<exists>s'. TCPSendTask_pass True e s = Some (s', Again) \<and> ring_ok (uartrxbuf s') \<and> recv_lock s' = recv_lock s
    \<and> capacity (uartrxbuf s') = capacity (uartrxbuf s) \<and> contents (uartrxbuf s') = drop 2048 (contents (uartrxbuf s))
    \<and> tx_log s' = tx_log s @ map (\<lambda>fd. (fd, take 2048 (contents (uartrxbuf s)))) (filter (\<lambda>fd. 0 \<le> fd) (se_slots e))"
proof -
  let ?d = "take 2048 (contents (uartrxbuf s))"
  obtain u where u: "acquire s = Some u" "uartrxbuf u = uartrxbuf s" "tx_log u = tx_log s" "recv_lock (release u) = recv_lock s"
    using assms(2) by (cases "recv_lock s") (auto simp: acquire_def release_def)
  obtain r where r: "take_data u = Some (u\<lparr>uartrxbuf := r\<rparr>, ?d)" "ring_ok r" "capacity r = capacity (uartrxbuf s)"
    "contents r = drop 2048 (contents (uartrxbuf s))"
    using take_data_ok [of u] assms(1) u(2) by auto
  have "ring_buf_cnt (uartrxbuf s) \<noteq> 0" using cnt_is_length [OF assms(1)] assms(3) by simp
  moreover have "?d \<noteq> []" using assms(3) by simp
  ultimately show ?thesis
    using send_all_all [OF assms(6), of "(release (u\<lparr>uartrxbuf := r\<rparr>))\<lparr>net_sendStart := 0\<rparr>"] r assms(4,5) u
    by (auto simp: TCPSendTask_pass_def Let_def release_def)
qed

section \<open>Passes\<close>

text \<open>The serial line writes some bytes, of which the buffer takes what fits, and the task makes a pass; and so on.
  The second result is what the buffer has taken.\<close>

fun send_run :: "(u8 list \<times> send_env) list \<Rightarrow> sender \<Rightarrow> (sender \<times> u8 list) option" where
  "send_run [] s = Some (s, [])"
| "send_run ((bytes, e) # xs) s = do {
     (r, k) \<leftarrow> ring_buf_write (uartrxbuf s) bytes (int (length bytes));
     (s, _) \<leftarrow> TCPSendTask_pass True e (s\<lparr>uartrxbuf := r\<rparr>);
     (s, ins) \<leftarrow> send_run xs s;
     Some (s, take (nat k) bytes @ ins) }"

text \<open>A pass in which the client on \<open>fd\<close> has one slot and the stack takes what every client is sent.\<close>

definition stays :: "int \<Rightarrow> send_env \<Rightarrow> bool" where
  "stays fd e \<longleftrightarrow> se_atMode e = DATA_MODE \<and> (0 \<le> se_sockfd e \<or> 0 < se_maxfd e)
     \<and> (\<forall>d\<in>set (se_slots e). 0 \<le> d \<longrightarrow> (\<forall>n>0. served e d n)) \<and> filter (\<lambda>d. d = fd) (se_slots e) = [fd]"

definition good_pass :: "int \<Rightarrow> u8 list \<times> send_env \<Rightarrow> bool" where
  "good_pass fd x \<longleftrightarrow> fst x \<noteq> [] \<and> length (fst x) < 2147483648 \<and> stays fd (snd x)"

lemma stream_slots:
  "0 \<le> fd \<Longrightarrow> stream fd (map (\<lambda>d. (d, data)) (filter (\<lambda>d. 0 \<le> d) slots)) = concat (map (\<lambda>_. data) (filter (\<lambda>d. d = fd) slots))"
  by (induction slots) auto

lemma pass_stays:
  assumes "ring_ok (uartrxbuf s)" "recv_lock s \<noteq> Some True" "contents (uartrxbuf s) \<noteq> []" "0 \<le> fd" "stays fd e"
  shows "\<exists>s'. TCPSendTask_pass True e s = Some (s', Again) \<and> ring_ok (uartrxbuf s') \<and> recv_lock s' = recv_lock s
    \<and> capacity (uartrxbuf s') = capacity (uartrxbuf s) \<and> contents (uartrxbuf s') = drop 2048 (contents (uartrxbuf s))
    \<and> stream fd (tx_log s') = stream fd (tx_log s) @ take 2048 (contents (uartrxbuf s))"
proof -
  let ?d = "take 2048 (contents (uartrxbuf s))"
  have e: "se_atMode e = DATA_MODE" "0 \<le> se_sockfd e \<or> 0 < se_maxfd e" "filter (\<lambda>d. d = fd) (se_slots e) = [fd]"
    using assms(5) by (auto simp: stays_def)
  have "0 < length ?d" using assms(3) by simp
  then have "\<forall>d\<in>set (se_slots e). 0 \<le> d \<longrightarrow> served e d (length ?d)" using assms(5) unfolding stays_def by blast
  from pass_ok [OF assms(1-3) e(1,2) this] show ?thesis by (auto simp: stream_slots [OF assms(4)] e(3))
qed

lemma send_run_ok:
  assumes "ring_ok (uartrxbuf s)" "0 < capacity (uartrxbuf s)" "recv_lock s \<noteq> Some True" "0 \<le> fd" "\<forall>x\<in>set xs. good_pass fd x"
  shows "\<exists>s' ins outs. send_run xs s = Some (s', ins) \<and> stream fd (tx_log s') = stream fd (tx_log s) @ outs
    \<and> contents (uartrxbuf s) @ ins = outs @ contents (uartrxbuf s') \<and> ring_ok (uartrxbuf s') \<and> recv_lock s' = recv_lock s"
  using assms
proof (induction xs arbitrary: s)
  case (Cons x xs)
  obtain bytes e where x: "x = (bytes, e)" by (cases x)
  have g: "bytes \<noteq> []" "length bytes < 2147483648" "stays fd e"
    using Cons.prems(5) by (auto simp: x good_pass_def)
  obtain r k where r: "ring_buf_write (uartrxbuf s) bytes (int (length bytes)) = Some (r, int k)" "ring_ok r"
    "capacity r = capacity (uartrxbuf s)" "contents r = contents (uartrxbuf s) @ take k bytes"
    "k = min (nat (int (length bytes))) (capacity (uartrxbuf s) - length (contents (uartrxbuf s)))"
    using ring_buf_write_ok [OF Cons.prems(1) order_refl g(2)] by blast
  have ne: "contents r \<noteq> []" using Cons.prems(2) g(1) unfolding r(4) by (cases "contents (uartrxbuf s)") (auto simp: r(5))
  let ?s = "s\<lparr>uartrxbuf := r\<rparr>" let ?d = "take 2048 (contents r)"
  from pass_stays [of ?s fd e] ne g(3) r(2) Cons.prems(3,4) obtain s1 where
    s1: "TCPSendTask_pass True e ?s = Some (s1, Again)" "ring_ok (uartrxbuf s1)" "recv_lock s1 = recv_lock s"
      "capacity (uartrxbuf s1) = capacity r" "contents (uartrxbuf s1) = drop 2048 (contents r)"
      "stream fd (tx_log s1) = stream fd (tx_log s) @ ?d" by auto
  obtain s' ins outs where t: "send_run xs s1 = Some (s', ins)" "stream fd (tx_log s') = stream fd (tx_log s1) @ outs"
    "contents (uartrxbuf s1) @ ins = outs @ contents (uartrxbuf s')" "ring_ok (uartrxbuf s')" "recv_lock s' = recv_lock s1"
    using Cons.IH [OF s1(2) _ _ Cons.prems(4)] Cons.prems(2,3,5) s1(3,4) r(3) by auto
  have "contents (uartrxbuf s) @ take k bytes @ ins = ?d @ drop 2048 (contents r) @ ins"
    by (metis append.assoc append_take_drop_id r(4))
  also have "\<dots> = (?d @ outs) @ contents (uartrxbuf s')" using t(3) by (simp add: s1(5))
  finally show ?case
    using t r(1) s1(1,3,6) by (auto simp: x)
qed simp

section \<open>Properties\<close>

text \<open>The TCP server passes the serial line on unchanged: over any number of passes, every client that stays
  connected is sent, in order and each byte once, what was in the buffer and what the buffer took since, up to what it
  still holds, however the buffer wraps, the passes cut the stream, and sends have to be repeated.\<close>

theorem tcp_stream_complete:
  assumes "ring_ok (uartrxbuf s)" "0 < capacity (uartrxbuf s)" "recv_lock s \<noteq> Some True" "0 \<le> fd" "\<forall>x\<in>set xs. good_pass fd x"
  shows "\<exists>s' ins outs. send_run xs s = Some (s', ins) \<and> stream fd (tx_log s') = stream fd (tx_log s) @ outs
    \<and> contents (uartrxbuf s) @ ins = outs @ contents (uartrxbuf s')"
  using send_run_ok [OF assms] by blast

definition sender_example :: sender where
  "sender_example = \<lparr>uartrxbuf = ring_example, recv_lock = Some False, uart_send_flag = 1, rts_high = True, net_sendStart = 0, tx_log = []\<rparr>"

definition env_example :: send_env where
  "env_example = \<lparr>se_atMode = 1, se_sockfd = -1, se_maxfd = 5, se_slots = [4, -1, 5],
     se_first = (\<lambda>fd n. if fd = 5 then -1 else int n),
     se_retries = (\<lambda>fd. [\<lparr>rt_atMode = 1, rt_alive = True, rt_fd = fd, rt_snd = int\<rparr>])\<rparr>"

lemma env_example_stays: "stays 5 env_example"
proof -
  have t: "takes_all (se_retries env_example fd) fd n" if "0 < n" for fd n
    unfolding takes_all_def by (rule exI [of _ "[]"]) (use that in \<open>simp add: env_example_def\<close>)
  have "served env_example fd n" if "0 < n" for fd n
    using t [OF that] by (simp add: served_def) (simp add: env_example_def)
  then show ?thesis by (simp add: stays_def) (simp add: env_example_def)
qed

lemma tcp_stream_complete_witness:
  "\<exists>s' ins. send_run [([7], env_example), ([8, 9], env_example)] sender_example = Some (s', ins)
    \<and> stream 5 (tx_log s') @ contents (uartrxbuf s') = contents ring_example @ ins"
proof -
  have "good_pass 5 ([7], env_example)" "good_pass 5 ([8, 9], env_example)"
    by (simp_all add: good_pass_def env_example_stays)
  moreover have "ring_ok ring_example" "0 < capacity ring_example" by (simp_all add: ring_defs ring_example_def)
  ultimately show ?thesis
    using tcp_stream_complete [of sender_example 5 "[([7], env_example), ([8, 9], env_example)]"]
    by (fastforce simp: sender_example_def)
qed

text \<open>A pass that finds the buffer empty keeps the lock, and every pass after it waits for it.\<close>

lemma empty_pass_keeps_lock:
  assumes "se_atMode e = DATA_MODE" "0 \<le> se_sockfd e" "recv_lock s = Some False" "ring_buf_cnt (uartrxbuf s) = 0"
  shows "\<exists>s'. TCPSendTask_pass server e s = Some (s', Again) \<and> TCPSendTask_pass server e s' = Some (s', Blocked)"
  using assms by (simp add: TCPSendTask_pass_def acquire_def)

text \<open>A datagram that cannot be sent is lost.\<close>

lemma udp_loses_data:
  assumes "ring_ok (uartrxbuf s)" "contents (uartrxbuf s) \<noteq> []" "se_atMode e = DATA_MODE" "conn \<noteq> 0"
    and "\<forall>n. se_first e (se_sockfd e) n < 0"
  shows "\<exists>s'. UDPSendTask_pass conn e s = Some (s', Again) \<and> tx_log s' = tx_log s
    \<and> contents (uartrxbuf s') = drop 2048 (contents (uartrxbuf s))"
proof -
  have "ring_buf_cnt (uartrxbuf s) \<noteq> 0" using cnt_is_length [OF assms(1)] assms(2) by simp
  then show ?thesis using take_data_ok [OF assms(1)] assms(3-) by (auto simp: UDPSendTask_pass_def Let_def)
qed

end
