(* ===== verification/DataRecv.thy ===== *)
theory DataRecv
  imports TcpServer AtCmd
begin

text \<open>
  The receiving tasks, \<^verbatim>\<open>App/SerialNet/socketCom.c\<close>: \<open>UDPRecvTask\<close>, \<open>TCPRecvTask\<close> for a client and as a whole
  (its server is \<^verbatim>\<open>TcpServer\<close>), \<open>RecvThread\<close>, which starts one of them after the other, and the receiver
  and the sender of broadcasts.  As in \<^verbatim>\<open>TcpServer\<close> the socket layer is a parameter, closing a descriptor that is not
  open is the fault \<^term>\<open>None\<close>, and so is to read data through the null pointer that \<open>OSMMalloc\<close> returned (\<open>memset\<close> on it has
  no effect, \<^verbatim>\<open>CLib\<close>).  \<open>bufs\<close> counts the
  blocks of memory in use.
\<close>

record sockaddr_in =
  sin_family :: u8
  sin_port :: u16
  s_addr :: u32

record receiver =
  rc_srv :: srv
  server_addr :: sockaddr_in
  client_addr :: sockaddr_in
  bufs :: nat

text \<open>A round of a receiving loop: the mode it finds, the connection status, and what the socket gives it: a datagram
  and its sender; for TCP the data, where no bytes are the end of the connection.  \<^term>\<open>None\<close> is a negative result.\<close>

type_synonym udp_round = "u8 \<times> (sockaddr_in \<times> u8 list) option"
type_synonym client_round = "u8 \<times> u8 \<times> u8 list option"

record recv_env =
  re_atMode :: u8
  re_malloc :: bool
  re_socket :: int
  re_bind :: int
  re_listen :: int
  re_connect :: int
  re_udp :: "udp_round list"
  re_client :: "client_round list"
  re_server :: "net_round list"

abbreviation g_RecvBufSize :: nat where "g_RecvBufSize \<equiv> 2048"

definition upd_srv :: "(srv \<Rightarrow> srv) \<Rightarrow> receiver \<Rightarrow> receiver" where
  "upd_srv f s = s\<lparr>rc_srv := f (rc_srv s)\<rparr>"

definition put_uart :: "u8 list \<Rightarrow> receiver \<Rightarrow> receiver" where
  "put_uart data = upd_srv (\<lambda>v. v\<lparr>uart_out := uart_out v @ data\<rparr>)"

definition set_conn :: "u8 \<Rightarrow> receiver \<Rightarrow> receiver" where
  "set_conn c = upd_srv (\<lambda>v. v\<lparr>sv_connStatus := c\<rparr>)"

definition get_buf :: "bool \<Rightarrow> receiver \<Rightarrow> receiver" where
  "get_buf got s = (if got then s\<lparr>bufs := bufs s + 1\<rparr> else s)"

definition free_buf :: "bool \<Rightarrow> receiver \<Rightarrow> receiver" where
  "free_buf got s = (if got then s\<lparr>bufs := bufs s - 1\<rparr> else s)"

text \<open>The descriptor that \<open>socket\<close> returned becomes that of the connection.\<close>

definition new_socket :: "int \<Rightarrow> receiver \<Rightarrow> receiver" where
  "new_socket d = upd_srv (\<lambda>v. (if d = -1 then v else sock_open d v)\<lparr>sv_sockfd := d\<rparr>)"

text \<open>The label \<open>END\<close> of \<open>UDPRecvTask\<close>, and of \<open>TCPRecvTask\<close> for a client.\<close>

definition recv_end :: "bool \<Rightarrow> receiver \<Rightarrow> receiver option" where
  "recv_end got s =
     (let s = set_conn 0 s; d = sv_sockfd (rc_srv s) in
      map_option (\<lambda>v. free_buf got (s\<lparr>rc_srv := v\<rparr>))
        (if 0 \<le> d then map_option (\<lambda>v. v\<lparr>sv_sockfd := -1\<rparr>) (sock_close d (rc_srv s)) else Some (rc_srv s)))"

section \<open>UDP\<close>

text \<open>The flag \<open>fresh\<close> is that \<open>count\<close> is still 0.\<close>

definition udp_datagram :: "bool \<Rightarrow> bool \<Rightarrow> sockaddr_in \<times> u8 list \<Rightarrow> bool \<Rightarrow> receiver \<Rightarrow> (receiver \<times> bool) option" where
  "udp_datagram server got x fresh s =
     (let (from, data) = x; data = take g_RecvBufSize data; s = s\<lparr>client_addr := from\<rparr> in
      if data = [] then Some (s, fresh)
      else if \<not> got then None
      else if server \<and> fresh then Some (put_uart data (set_conn 1 s), False)
      else Some (put_uart data s, fresh))"

fun udp_rounds :: "bool \<Rightarrow> bool \<Rightarrow> udp_round list \<Rightarrow> bool \<Rightarrow> receiver \<Rightarrow> receiver option" where
  "udp_rounds server got [] fresh s = Some s"
| "udp_rounds server got ((mode, d) # ds) fresh s =
     (if mode = 1 then
        if sv_sockfd (rc_srv s) \<noteq> -1 then
          (case d of
             None \<Rightarrow> udp_rounds server got ds fresh s
           | Some x \<Rightarrow> do { (s, fresh) \<leftarrow> udp_datagram server got x fresh s; udp_rounds server got ds fresh s })
        else udp_rounds server got ds fresh s
      else if mode = 0 then Some s
      else udp_rounds server got ds fresh s)"

definition UDPRecvTask :: "bool \<Rightarrow> u16 \<Rightarrow> u32 \<Rightarrow> recv_env \<Rightarrow> receiver \<Rightarrow> receiver option" where
  "UDPRecvTask server port remote e s =
     (let s = new_socket (re_socket e) (get_buf (re_malloc e) s) in
      if re_socket e = -1 then recv_end (re_malloc e) s
      else
        let s = s\<lparr>server_addr := \<lparr>sin_family = 2, sin_port = lwip_htons port, s_addr = (if server then 0 else remote)\<rparr>\<rparr> in
        if server \<and> re_bind e = -1 then recv_end (re_malloc e) s
        else
          let s = (if server then s else set_conn 1 s) in
          do { s \<leftarrow> udp_rounds server (re_malloc e) (re_udp e) True s; recv_end (re_malloc e) s })"

section \<open>TCP\<close>

text \<open>The loop of a connected client; the flag is \<open>goto END\<close>.\<close>

fun client_rounds :: "bool \<Rightarrow> client_round list \<Rightarrow> receiver \<Rightarrow> (receiver \<times> bool) option" where
  "client_rounds got [] s = Some (s, False)"
| "client_rounds got ((mode, conn, r) # rs) s =
     (if mode = 0 \<or> conn = 0 then Some (s, True)
      else case r of
        None \<Rightarrow> client_rounds got rs s
      | Some [] \<Rightarrow> Some (s, True)
      | Some (b # bs) \<Rightarrow> if got then client_rounds got rs (put_uart (take g_RecvBufSize (b # bs)) s) else None)"

definition TCPRecvTask :: "bool \<Rightarrow> u16 \<Rightarrow> u32 \<Rightarrow> recv_env \<Rightarrow> receiver \<Rightarrow> receiver option" where
  "TCPRecvTask server port remote e s =
     (let got = re_malloc e; s = get_buf got s in
      if re_atMode e = 1 \<and> server then
        map_option (\<lambda>v. free_buf got (s\<lparr>rc_srv := v\<rparr>))
          (TCPRecvTask_server got (re_socket e) (re_bind e) (re_listen e) (re_server e) (rc_srv s))
      else if re_atMode e = 1 then
        let s = new_socket (re_socket e) s in
        if re_socket e = -1 then recv_end got s
        else
          let s = s\<lparr>server_addr := \<lparr>sin_family = 2, sin_port = lwip_htons port, s_addr = remote\<rparr>\<rparr> in
          if re_connect e = -1 then recv_end got s
          else do { (s, _) \<leftarrow> client_rounds got (re_client e) (set_conn 1 s); recv_end got s }
      else if server then map_option (\<lambda>v. free_buf got (s\<lparr>rc_srv := v\<rparr>)) (server_end (rc_srv s))
      else recv_end got s)"

definition RecvThread_pass :: "sys_evt \<Rightarrow> user_param \<Rightarrow> u16 \<Rightarrow> u32 \<Rightarrow> recv_env \<Rightarrow> receiver \<Rightarrow> receiver option" where
  "RecvThread_pass link u port remote e s =
     (if link \<noteq> SYS_EVT_LINK_UP \<or> up_atMode u \<noteq> 1 then Some s
      else if socketType u \<noteq> 0 \<and> socketType u \<noteq> 1 then Some s
      else if socketProtocol u = 0 then UDPRecvTask (socketType u = 1) port remote e s
      else if socketProtocol u = 1 then TCPRecvTask (socketType u = 1) port remote e s
      else Some s)"

section \<open>Broadcasts\<close>

text \<open>The socket and the option may fail; the result is what is sent, and to whom.\<close>

definition RespondUdpBroadcast :: "int \<Rightarrow> int \<Rightarrow> srv \<Rightarrow> (srv \<times> (sockaddr_in \<times> u8 list) option) option" where
  "RespondUdpBroadcast r_sock r_opt v =
     (if r_sock = -1 then Some (v, None)
      else
        let v = sock_open r_sock v in
        if r_opt = -1 then map_option (\<lambda>v. (v, None)) (sock_close r_sock v)
        else map_option (\<lambda>v. (v, Some (\<lparr>sin_family = 2, sin_port = lwip_htons 60002, s_addr = lwip_htonl 0xffffffff\<rparr>,
               (replicate 24 0)[0 := 0x18, 8 := 0x06, 10 := 0x01]))) (sock_close r_sock v))"

text \<open>One pass of \<open>BCTRecvThread\<close>: \<open>sel\<close> is the result of \<open>select\<close> on a descriptor and \<open>r\<close> what \<open>recvfrom\<close> gives; the
  result is what it prints.  A negative descriptor in \<open>FD_SET\<close> is an access outside of the set.\<close>

definition BCTRecvThread_pass :: "(int \<Rightarrow> int) \<Rightarrow> (int \<Rightarrow> u8 list option) \<Rightarrow> sys_evt \<Rightarrow> broadcast_sts
    \<Rightarrow> (string \<times> at_arg list) list option" where
  "BCTRecvThread_pass sel r link b =
     (if rx_status b = 1 \<and> link = SYS_EVT_LINK_UP then
        if 0 < rx_sockfd b then Some []
        else if rx_sockfd b < 0 then None
        else if sel (rx_sockfd b) < 0 then Some [(''+ERROR=%d'', [I (-49)])]
        else if sel (rx_sockfd b) = 0 then Some []
        else (case r (rx_sockfd b) of
                Some (x # xs) \<Rightarrow> let data = take 256 (x # xs)
                  in Some [(''+BRX:len=%d,%s'', [I (int (length data)), S (takeWhile (\<lambda>c. c \<noteq> 0) data)])]
              | _ \<Rightarrow> Some [])
      else Some [])"

section \<open>What a task leaves behind\<close>

lemma rc_simps [simp]:
  "rc_srv (upd_srv f s) = f (rc_srv s)" "bufs (upd_srv f s) = bufs s"
  "rc_srv (get_buf g s) = rc_srv s" "rc_srv (free_buf g s) = rc_srv s"
  "rc_srv (put_uart d s) = (rc_srv s)\<lparr>uart_out := uart_out (rc_srv s) @ d\<rparr>" "bufs (put_uart d s) = bufs s"
  "rc_srv (set_conn c s) = (rc_srv s)\<lparr>sv_connStatus := c\<rparr>" "bufs (set_conn c s) = bufs s"
  "bufs (new_socket x s) = bufs s" "bufs (free_buf g (get_buf g s)) = bufs s"
  "bufs (get_buf g s) = bufs s + (if g then 1 else 0)" "bufs (free_buf g s) = bufs s - (if g then 1 else 0)"
  by (simp_all add: upd_srv_def get_buf_def free_buf_def put_uart_def set_conn_def new_socket_def)

text \<open>The descriptor of the connection is the only one open beside those of the others.\<close>

definition owns :: "int set \<Rightarrow> srv \<Rightarrow> bool" where
  "owns F v \<longleftrightarrow> (if sv_sockfd v = -1 then open_fds v = F
     else 0 \<le> sv_sockfd v \<and> sv_sockfd v \<notin> F \<and> open_fds v = insert (sv_sockfd v) F)"

lemma owns_upd [simp]: "owns F (v\<lparr>uart_out := u\<rparr>) = owns F v" "owns F (v\<lparr>sv_connStatus := c\<rparr>) = owns F v"
  by (simp_all add: owns_def)

lemma recv_end_ok:
  assumes "owns F (rc_srv s)"
  shows "\<exists>t. recv_end got s = Some t \<and> owns F (rc_srv t) \<and> sv_sockfd (rc_srv t) = -1 \<and> open_fds (rc_srv t) = F
    \<and> sv_connStatus (rc_srv t) = 0 \<and> uart_out (rc_srv t) = uart_out (rc_srv s) \<and> bufs t = bufs s - (if got then 1 else 0)
    \<and> client_addr t = client_addr s"
  using assms
  by (auto simp: recv_end_def Let_def sock_close_def owns_def set_conn_def upd_srv_def free_buf_def split: if_splits)

lemma new_socket_owns: "open_fds (rc_srv s) = F \<Longrightarrow> d = -1 \<or> 0 \<le> d \<and> d \<notin> F \<Longrightarrow> owns F (rc_srv (new_socket d s))"
  by (auto simp: new_socket_def owns_def sock_open_def)

text \<open>The bytes of the rounds before the AT mode is switched on.\<close>

fun udp_bytes :: "udp_round list \<Rightarrow> u8 list" where
  "udp_bytes [] = []"
| "udp_bytes ((mode, d) # ds) = (if mode = 0 then []
     else (if mode = 1 then (case d of None \<Rightarrow> [] | Some (_, data) \<Rightarrow> take g_RecvBufSize data) else []) @ udp_bytes ds)"

lemma datagram_Some:
  "sv_sockfd (rc_srv s) \<noteq> -1 \<Longrightarrow>
    \<exists>s1 fresh1. udp_datagram server True y fresh s = Some (s1, fresh1) \<and> sv_sockfd (rc_srv s1) \<noteq> -1"
  by (cases y; cases "snd y = []"; cases "server \<and> fresh") (auto simp: udp_datagram_def Let_def)

lemma udp_rounds_ok:
  assumes "owns F (rc_srv s)" "sv_sockfd (rc_srv s) \<noteq> -1"
  shows "\<exists>t. udp_rounds server True ds fresh s = Some t \<and> owns F (rc_srv t) \<and> bufs t = bufs s
    \<and> uart_out (rc_srv t) = uart_out (rc_srv s) @ udp_bytes ds"
  using assms
proof (induction ds arbitrary: s fresh)
  case (Cons x ds)
  obtain mode d where x: "x = (mode, d)" by (cases x)
  show ?case
  proof (cases "mode = 1 \<and> d \<noteq> None")
    case True
    then obtain peer data where d: "d = Some (peer, data)" by auto
    have "\<exists>s1 fresh1. udp_datagram server True (peer, data) fresh s = Some (s1, fresh1)
      \<and> owns F (rc_srv s1) \<and> sv_sockfd (rc_srv s1) \<noteq> -1 \<and> bufs s1 = bufs s
      \<and> uart_out (rc_srv s1) = uart_out (rc_srv s) @ take g_RecvBufSize data"
      using Cons.prems by (cases "data = []"; cases "server \<and> fresh") (auto simp: udp_datagram_def Let_def)
    then obtain s1 fresh1 where s1: "udp_datagram server True (peer, data) fresh s = Some (s1, fresh1)"
      "owns F (rc_srv s1)" "sv_sockfd (rc_srv s1) \<noteq> -1" "bufs s1 = bufs s"
      "uart_out (rc_srv s1) = uart_out (rc_srv s) @ take g_RecvBufSize data" by blast
    show ?thesis using Cons.IH [OF s1(2,3), of fresh1] s1 True d Cons.prems by (auto simp: x)
  next
    case False
    then show ?thesis using Cons.IH [OF Cons.prems, of fresh] Cons.prems by (cases d) (auto simp: x)
  qed
qed simp

lemma client_rounds_owns:
  "owns F (rc_srv s) \<Longrightarrow> \<exists>t q. client_rounds True rs s = Some (t, q) \<and> owns F (rc_srv t) \<and> bufs t = bufs s"
proof (induction rs arbitrary: s)
  case (Cons x rs)
  obtain mode conn r where x: "x = (mode, conn, r)" by (cases x)
  show ?case using Cons.IH [OF Cons.prems] Cons.IH [of "put_uart (take g_RecvBufSize (the r)) s"] Cons.prems
    by (cases r; cases "the r") (auto simp: x)
qed auto

text \<open>The socket layer gives a new descriptor that no one has, or fails; for a server it does not fail.\<close>

definition good_env :: "bool \<Rightarrow> int set \<Rightarrow> recv_env \<Rightarrow> bool" where
  "good_env tcp_server F e \<longleftrightarrow> re_atMode e = 1 \<and> re_malloc e \<and> (re_socket e = -1 \<or> 0 \<le> re_socket e \<and> re_socket e \<notin> F)
     \<and> (tcp_server \<longrightarrow> re_socket e \<noteq> -1 \<and> re_bind e = 0 \<and> re_listen e = 0
         \<and> (\<forall>r\<in>set (re_server e). \<forall>G. n_accept r G < 0 \<or> n_accept r G \<notin> G))"

definition at_rest :: "int set \<Rightarrow> receiver \<Rightarrow> bool" where
  "at_rest F s \<longleftrightarrow> open_fds (rc_srv s) = F \<and> sv_sockfd (rc_srv s) < 0"

lemma udp_task_ok:
  assumes "at_rest F s" "good_env False F e"
  shows "\<exists>t. UDPRecvTask server port remote e s = Some t \<and> at_rest F t \<and> bufs t = bufs s
    \<and> uart_out (rc_srv t) = uart_out (rc_srv s)
        @ (if re_socket e = -1 \<or> server \<and> re_bind e = -1 then [] else udp_bytes (re_udp e))"
proof -
  let ?s = "new_socket (re_socket e) (get_buf True s)"
  let ?a = "\<lparr>sin_family = 2, sin_port = lwip_htons port, s_addr = (if server then 0 else remote)\<rparr>"
  have o: "owns F (rc_srv ?s)" using assms by (intro new_socket_owns) (auto simp: at_rest_def good_env_def)
  have g: "re_malloc e" using assms(2) by (simp add: good_env_def)
  have u: "uart_out (rc_srv ?s) = uart_out (rc_srv s)" "sv_sockfd (rc_srv ?s) = re_socket e"
    by (simp_all add: new_socket_def sock_open_def)
  show ?thesis
  proof (cases "re_socket e = -1 \<or> server \<and> re_bind e = -1")
    case True
    then show ?thesis
      using recv_end_ok [of F ?s True] recv_end_ok [of F "?s\<lparr>server_addr := ?a\<rparr>" True] o u g
      by (auto simp: UDPRecvTask_def Let_def at_rest_def)
  next
    case False
    let ?t = "if server then ?s\<lparr>server_addr := ?a\<rparr> else set_conn 1 (?s\<lparr>server_addr := ?a\<rparr>)"
    have t: "owns F (rc_srv ?t)" "sv_sockfd (rc_srv ?t) \<noteq> -1" "uart_out (rc_srv ?t) = uart_out (rc_srv s)"
      "bufs ?t = bufs s + 1" using o u False by simp_all
    obtain v where v: "udp_rounds server True (re_udp e) True ?t = Some v" "owns F (rc_srv v)" "bufs v = bufs s + 1"
      "uart_out (rc_srv v) = uart_out (rc_srv s) @ udp_bytes (re_udp e)"
      using udp_rounds_ok [OF t(1,2), of server "re_udp e" True] t(3,4) by auto
    obtain w where w: "recv_end True v = Some w" "sv_sockfd (rc_srv w) = -1" "open_fds (rc_srv w) = F"
      "uart_out (rc_srv w) = uart_out (rc_srv v)" "bufs w = bufs s" using recv_end_ok [OF v(2), of True] v(3) by auto
    have "UDPRecvTask server port remote e s = do { s \<leftarrow> udp_rounds server True (re_udp e) True ?t; recv_end True s }"
      using False g by (auto simp: UDPRecvTask_def Let_def)
    then show ?thesis using v(1,4) w False by (auto simp: at_rest_def)
  qed
qed

lemma tcp_task_ok:
  assumes "at_rest F s" "good_env server F e" "\<forall>x\<in>F. 0 \<le> x"
  shows "\<exists>t. TCPRecvTask server port remote e s = Some t \<and> at_rest F t \<and> bufs t = bufs s"
proof (cases server)
  case True
  have "F - {sv_sockfd (rc_srv s)} = F" using assms by (auto simp: at_rest_def)
  with server_run_ok [of "re_server e" "re_socket e" "rc_srv s"] assms True
  show ?thesis by (auto simp: good_env_def at_rest_def TCPRecvTask_def Let_def)
next
  case False
  let ?s = "new_socket (re_socket e) (get_buf True s)"
  let ?a = "\<lparr>sin_family = 2, sin_port = lwip_htons port, s_addr = remote\<rparr>"
  let ?t = "?s\<lparr>server_addr := ?a\<rparr>"
  have o: "owns F (rc_srv ?s)" using assms by (intro new_socket_owns) (auto simp: at_rest_def good_env_def)
  obtain u q where c: "client_rounds True (re_client e) (set_conn 1 ?t) = Some (u, q)" "owns F (rc_srv u)" "bufs u = bufs s + 1"
    using client_rounds_owns [of F "set_conn 1 ?t" "re_client e"] o by auto
  show ?thesis
    using recv_end_ok [OF o, of True] recv_end_ok [of F ?t True] recv_end_ok [OF c(2), of True] c(1,3) o assms(2) False
    by (auto simp: TCPRecvTask_def Let_def good_env_def at_rest_def)
qed

lemma pass_rests:
  assumes "at_rest F s" "good_env (socketProtocol u = 1 \<and> socketType u = 1) F e" "\<forall>x\<in>F. 0 \<le> x"
  shows "\<exists>t. RecvThread_pass link u port remote e s = Some t \<and> at_rest F t \<and> bufs t = bufs s"
proof -
  have e: "good_env False F e" "socketProtocol u = 1 \<Longrightarrow> good_env (socketType u = 1) F e"
    using assms(2) by (auto simp: good_env_def)
  show ?thesis
    using udp_task_ok [OF assms(1) e(1), of "socketType u = 1" port remote] tcp_task_ok [OF assms(1) e(2) assms(3), of port remote]
      assms(1)
    by (auto simp: RecvThread_pass_def)
qed

text \<open>\<open>RecvThread\<close>: the passes one after the other, each with the link, the parameters and the results it finds.\<close>

fun RecvThread_run :: "(sys_evt \<times> user_param \<times> u16 \<times> u32 \<times> recv_env) list \<Rightarrow> receiver \<Rightarrow> receiver option" where
  "RecvThread_run [] s = Some s"
| "RecvThread_run ((link, u, port, remote, e) # xs) s = Option.bind (RecvThread_pass link u port remote e s) (RecvThread_run xs)"

lemma run_rests:
  assumes "at_rest F s" "\<forall>(link, u, port, remote, e)\<in>set xs. good_env (socketProtocol u = 1 \<and> socketType u = 1) F e"
    "\<forall>x\<in>F. 0 \<le> x"
  shows "\<exists>t. RecvThread_run xs s = Some t \<and> at_rest F t \<and> bufs t = bufs s"
  using assms
proof (induction xs arbitrary: s)
  case (Cons x xs)
  obtain link u port remote e where x: "x = (link, u, port, remote, e)" by (cases x)
  have "good_env (socketProtocol u = 1 \<and> socketType u = 1) F e" using Cons.prems(2) by (simp add: x)
  from pass_rests [OF Cons.prems(1) this Cons.prems(3), of link port remote] obtain t where
    t: "RecvThread_pass link u port remote e s = Some t" "at_rest F t" "bufs t = bufs s" by blast
  then show ?case using Cons.IH [OF t(2) _ Cons.prems(3)] Cons.prems(2) by (auto simp: x)
qed simp

section \<open>Properties\<close>


definition receiver_example :: receiver where
  "receiver_example = \<lparr>rc_srv = no_server, server_addr = \<lparr>sin_family = 0, sin_port = 0, s_addr = 0\<rparr>,
     client_addr = \<lparr>sin_family = 0, sin_port = 0, s_addr = 0\<rparr>, bufs = 7\<rparr>"

definition recv_env_example :: recv_env where
  "recv_env_example = \<lparr>re_atMode = 1, re_malloc = True, re_socket = 2, re_bind = 0, re_listen = 0, re_connect = 0,
     re_udp = [(1, None), (1, Some (\<lparr>sin_family = 2, sin_port = 99, s_addr = 1\<rparr>, [10, 11])),
       (1, Some (\<lparr>sin_family = 2, sin_port = 77, s_addr = 5\<rparr>, [12])), (0, None)],
     re_client = [(1, 1, Some [20]), (1, 1, None), (1, 1, Some [])],
     re_server = [example_round 3 [2] [], example_round 4 [2, 3] [3]]\<rparr>"

definition user_example :: "u8 \<Rightarrow> u8 \<Rightarrow> user_param" where
  "user_example proto role = zero_user\<lparr>up_atMode := 1, socketProtocol := proto, socketType := role\<rparr>"


text \<open>UDP hands the serial line the bytes of every datagram, in order, the first 2048 of each.\<close>

theorem udp_recv_bytes:
  assumes "sv_sockfd (rc_srv s) < 0" "good_env False (open_fds (rc_srv s)) e"
    and "re_socket e \<noteq> -1" "\<not> server \<or> re_bind e \<noteq> -1"
  shows "\<exists>t. UDPRecvTask server port remote e s = Some t \<and> uart_out (rc_srv t) = uart_out (rc_srv s) @ udp_bytes (re_udp e)"
  using udp_task_ok [of "open_fds (rc_srv s)" s e server port remote] assms by (auto simp: at_rest_def)

text \<open>\<open>client_addr\<close>, to which a server sends, is the sender of the last datagram and not of the first, although the
  comment says that others are filtered.\<close>

theorem udp_server_answers_last:
  assumes "sv_sockfd (rc_srv s) \<noteq> -1" "data \<noteq> []" "\<forall>x\<in>set ds. fst x \<noteq> 0"
  shows "\<exists>t. udp_rounds True True (ds @ [(1, Some (peer, data))]) fresh s = Some t \<and> client_addr t = peer"
  using assms(1,3)
proof (induction ds arbitrary: s fresh)
  case Nil
  then show ?case using assms(2)
    by (cases fresh) (simp_all add: udp_datagram_def Let_def put_uart_def set_conn_def upd_srv_def)
next
  case (Cons x ds)
  obtain mode d where x: "x = (mode, d)" by (cases x)
  obtain s1 fresh1 where "udp_datagram True True (the d) fresh s = Some (s1, fresh1)" "sv_sockfd (rc_srv s1) \<noteq> -1"
    using datagram_Some [OF Cons.prems(1), of True "the d" fresh] by blast
  with Cons.IH [of s1 fresh1] Cons.IH [of s fresh] Cons.prems show ?case
    by (cases "mode = 1"; cases d) (simp_all add: x)
qed

text \<open>A client whose connection has broken, so that every \<open>recv\<close> fails, never ends its loop to connect again.\<close>

theorem tcp_client_never_reconnects:
  assumes "\<forall>(mode, conn, r)\<in>set rs. mode \<noteq> 0 \<and> conn \<noteq> 0 \<and> r = None"
  shows "client_rounds got rs s = Some (s, False)"
  using assms by (induction rs) auto

text \<open>The broadcast receiver never receives on the descriptor that \<open>AT+BCTRXSTART\<close> has opened, unless it is 0.\<close>

theorem broadcast_never_received:
  assumes "0 < rx_sockfd b"
  shows "BCTRecvThread_pass sel r link b = Some []"
  using assms by (simp add: BCTRecvThread_pass_def)

text \<open>The answer to the smart configuration is broadcast once and leaves no descriptor.\<close>

theorem respond_broadcast_once:
  assumes "r_sock = -1 \<or> r_sock \<notin> open_fds v"
  shows "\<exists>w msg. RespondUdpBroadcast r_sock r_opt v = Some (w, msg) \<and> open_fds w = open_fds v
    \<and> (msg \<noteq> None \<longleftrightarrow> r_sock \<noteq> -1 \<and> r_opt \<noteq> -1)"
  using assms by (auto simp: RespondUdpBroadcast_def Let_def sock_open_def sock_close_def)

end
