(* ===== verification/DataPath.thy ===== *)
theory DataPath
  imports UartRx DataSend
begin

text \<open>
  The way of the data from the serial line to the network: the receiver (\<^verbatim>\<open>UartRx\<close>), the frame timer and the sending
  task of the TCP server (\<^verbatim>\<open>DataSend\<close>), which share the ring buffer, the flags and the semaphore, in any order of their
  steps.  The receiver and the timer run in interrupts, where the lock is without effect; a pass of the task, which the
  code makes under the lock, is one step.
\<close>

record path =
  p_uart :: uart
  p_lock :: "bool option"
  p_log :: "(int \<times> u8 list) list"

definition sender_of :: "path \<Rightarrow> sender" where
  "sender_of p = \<lparr>uartrxbuf = uart.uartrxbuf (p_uart p), recv_lock = p_lock p, uart_send_flag = uart.uart_send_flag (p_uart p),
     rts_high = rts_level (p_uart p), net_sendStart = uart.net_sendStart (p_uart p), tx_log = p_log p\<rparr>"

definition put_sender :: "sender \<Rightarrow> path \<Rightarrow> path" where
  "put_sender s p = \<lparr>p_uart = (p_uart p)\<lparr>uart.uartrxbuf := uartrxbuf s, uart.uart_send_flag := uart_send_flag s,
       rts_level := rts_high s, uart.net_sendStart := net_sendStart s\<rparr>, p_lock = recv_lock s, p_log = tx_log s\<rparr>"

datatype path_event = Byte uart_env u8 | Tick | Pass send_env

text \<open>A pass that comes to the semaphore waits for a post.\<close>

definition pass_step :: "send_env \<Rightarrow> path \<Rightarrow> path option" where
  "pass_step e p =
     (if se_atMode e = DATA_MODE \<and> (0 \<le> se_sockfd e \<or> 0 < se_maxfd e) then
        if sendSwitchSem (p_uart p) = 0 then Some p
        else
          let p = p\<lparr>p_uart := (p_uart p)\<lparr>sendSwitchSem := sendSwitchSem (p_uart p) - 1\<rparr>\<rparr> in
          map_option (\<lambda>(s, _). put_sender s p) (TCPSendTask_pass True e (sender_of p))
      else map_option (\<lambda>(s, _). put_sender s p) (TCPSendTask_pass True e (sender_of p)))"

text \<open>The second result is what the ring buffer takes.\<close>

fun path_step :: "path_event \<Rightarrow> path \<Rightarrow> (path \<times> u8 list) option" where
  "path_step (Byte e c) p =
     map_option (\<lambda>u. (p\<lparr>p_uart := u\<rparr>, if atMode (p_uart p) = 1 \<and> \<not> ring_buf_full (uart.uartrxbuf (p_uart p)) then [c] else []))
       (uart_data_recv e (p_uart p) c)"
| "path_step Tick p = Some (p\<lparr>p_uart := timerFuncProcess (p_uart p)\<rparr>, [])"
| "path_step (Pass e) p = map_option (\<lambda>p. (p, [])) (pass_step e p)"

fun path_run :: "path_event list \<Rightarrow> path \<Rightarrow> (path \<times> u8 list) option" where
  "path_run [] p = Some (p, [])"
| "path_run (x # xs) p = do {
     (p, a) \<leftarrow> path_step x p;
     (p, b) \<leftarrow> path_run xs p;
     Some (p, a @ b) }"

section \<open>Steps\<close>

abbreviation ring_of :: "path \<Rightarrow> ring_buffer" where "ring_of p \<equiv> uart.uartrxbuf (p_uart p)"

definition path_ok :: "path \<Rightarrow> bool" where
  "path_ok p \<longleftrightarrow> uart_ok (p_uart p) \<and> atMode (p_uart p) = 1 \<and> p_lock p \<noteq> Some True"

lemma put_sender_simps [simp]:
  "ring_of (put_sender s p) = uartrxbuf s" "p_lock (put_sender s p) = recv_lock s" "p_log (put_sender s p) = tx_log s"
  "atMode (p_uart (put_sender s p)) = atMode (p_uart p)" "sendSwitchSem (p_uart (put_sender s p)) = sendSwitchSem (p_uart p)"
  "uart_ok (p_uart (put_sender s p)) \<longleftrightarrow> uart_ok (p_uart p) \<and> ring_ok (uartrxbuf s)" if "uart_ok (p_uart p)"
  using that by (auto simp: put_sender_def uart_ok_def)

lemma sender_of_simps [simp]:
  "uartrxbuf (sender_of p) = ring_of p" "recv_lock (sender_of p) = p_lock p" "tx_log (sender_of p) = p_log p"
  by (simp_all add: sender_of_def)

definition good_event :: "int \<Rightarrow> path_event \<Rightarrow> bool" where
  "good_event fd x \<longleftrightarrow> (case x of Pass e \<Rightarrow> stays fd e | _ \<Rightarrow> True)"

lemma uart_step_ok:
  assumes "uart_ok u" "atMode u = 1"
  shows "\<exists>v. uart_data_recv e u c = Some v \<and> uart_ok v \<and> atMode v = 1
    \<and> contents (uart.uartrxbuf v) = contents (uart.uartrxbuf u) @ (if ring_buf_full (uart.uartrxbuf u) then [] else [c])"
proof -
  have "ring_ok (uart.uartrxbuf u)" using assms(1) by (simp add: uart_ok_def)
  then have "ring_buf_full (uart.uartrxbuf u) \<longleftrightarrow> \<not> length (contents (uart.uartrxbuf u)) < capacity (uart.uartrxbuf u)"
    using full_iff [of "uart.uartrxbuf u"] contents_within_capacity [of "uart.uartrxbuf u"] by auto
  then show ?thesis using data_mode_recv_ok [OF assms(1), of e c] assms(2) by (auto simp: uart_data_recv_def)
qed

lemma sender_of_sem [simp]: "sender_of (p\<lparr>p_uart := (p_uart p)\<lparr>sendSwitchSem := n\<rparr>\<rparr>) = sender_of p"
  by (simp add: sender_of_def)

lemma pass_step_ok:
  assumes "path_ok p" "p_lock p = None" "0 \<le> fd" "stays fd e"
  shows "\<exists>q outs. pass_step e p = Some q \<and> path_ok q \<and> p_lock q = None
    \<and> outs = (if sendSwitchSem (p_uart p) = 0 then [] else take 2048 (contents (ring_of p)))
    \<and> sendSwitchSem (p_uart q) = sendSwitchSem (p_uart p) - 1
    \<and> stream fd (p_log q) = stream fd (p_log p) @ outs \<and> contents (ring_of p) = outs @ contents (ring_of q)
    \<and> contents (ring_of q) = (if sendSwitchSem (p_uart p) = 0 then contents (ring_of p) else drop 2048 (contents (ring_of p)))"
proof -
  have e: "se_atMode e = DATA_MODE" "0 \<le> se_sockfd e \<or> 0 < se_maxfd e" using assms(4) by (auto simp: stays_def)
  let ?p = "p\<lparr>p_uart := (p_uart p)\<lparr>sendSwitchSem := sendSwitchSem (p_uart p) - 1\<rparr>\<rparr>"
  have u: "uart_ok (p_uart ?p)" "ring_ok (ring_of p)" "atMode (p_uart p) = 1"
    using assms(1) by (auto simp: path_ok_def uart_ok_def)
  have ps: "pass_step e p = (if sendSwitchSem (p_uart p) = 0 then Some p
      else map_option (\<lambda>(s, _). put_sender s ?p) (TCPSendTask_pass True e (sender_of p)))"
    using e by (simp add: pass_step_def Let_def)
  have "\<exists>s'. TCPSendTask_pass True e (sender_of p) = Some (s', Again) \<and> ring_ok (uartrxbuf s') \<and> recv_lock s' = None
    \<and> contents (uartrxbuf s') = drop 2048 (contents (ring_of p))
    \<and> stream fd (tx_log s') = stream fd (p_log p) @ take 2048 (contents (ring_of p))"
  proof (cases "contents (ring_of p) = []")
    case True
    then have "ring_buf_cnt (ring_of p) = 0" using cnt_is_length [OF u(2)] by simp
    then have "TCPSendTask_pass True e (sender_of p) = Some (sender_of p, Again)"
      using e assms(2) by (auto simp: TCPSendTask_pass_def acquire_def)
    then show ?thesis using True u(2) assms(2) by simp
  next
    case False
    then show ?thesis using pass_stays [of "sender_of p" fd e] u(2) assms(2-4) by auto
  qed
  then obtain s' where t: "TCPSendTask_pass True e (sender_of p) = Some (s', Again)" "ring_ok (uartrxbuf s')"
    "recv_lock s' = None" "contents (uartrxbuf s') = drop 2048 (contents (ring_of p))"
    "stream fd (tx_log s') = stream fd (p_log p) @ take 2048 (contents (ring_of p))" by blast
  show ?thesis
    using assms(1,2) u t by (cases "sendSwitchSem (p_uart p) = 0") (auto simp: ps path_ok_def)
qed

lemma path_step_ok:
  assumes "path_ok p" "p_lock p = None" "0 \<le> fd" "good_event fd x"
  shows "\<exists>q ins outs. path_step x p = Some (q, ins) \<and> path_ok q \<and> p_lock q = None
    \<and> stream fd (p_log q) = stream fd (p_log p) @ outs \<and> contents (ring_of p) @ ins = outs @ contents (ring_of q)"
proof (cases x)
  case (Byte e c)
  have "uart_ok (p_uart p)" "atMode (p_uart p) = 1" using assms(1) by (auto simp: path_ok_def)
  from uart_step_ok [OF this, of e c] show ?thesis using assms(1,2) by (auto simp: Byte path_ok_def)
next
  case Tick
  then show ?thesis using assms(1,2) by (auto simp: path_ok_def timerFuncProcess_def uart_ok_def Let_def)
next
  case (Pass e)
  then show ?thesis using pass_step_ok [OF assms(1-3), of e] assms(4) by (auto simp: good_event_def)
qed

lemma path_run_ok:
  assumes "path_ok p" "p_lock p = None" "0 \<le> fd" "\<forall>x\<in>set xs. good_event fd x"
  shows "\<exists>q ins outs. path_run xs p = Some (q, ins) \<and> path_ok q \<and> p_lock q = None
    \<and> stream fd (p_log q) = stream fd (p_log p) @ outs \<and> contents (ring_of p) @ ins = outs @ contents (ring_of q)"
  using assms
proof (induction xs arbitrary: p)
  case (Cons x xs)
  obtain q ins outs where q: "path_step x p = Some (q, ins)" "path_ok q" "p_lock q = None"
    "stream fd (p_log q) = stream fd (p_log p) @ outs" "contents (ring_of p) @ ins = outs @ contents (ring_of q)"
    using path_step_ok [OF Cons.prems(1-3), of x] Cons.prems(4) by auto
  obtain r ins' outs' where r: "path_run xs q = Some (r, ins')" "path_ok r" "p_lock r = None"
    "stream fd (p_log r) = stream fd (p_log q) @ outs'" "contents (ring_of q) @ ins' = outs' @ contents (ring_of r)"
    using Cons.IH [OF q(2,3) Cons.prems(3)] Cons.prems(4) by auto
  have "contents (ring_of p) @ ins @ ins' = (outs @ outs') @ contents (ring_of r)"
    using q(5) r(5) by (metis append.assoc)
  then show ?case using q(1,4) r(1-4) by auto
qed simp

section \<open>Properties\<close>


definition path_example :: path where
  "path_example = \<lparr>p_uart = uart_example 1, p_lock = None, p_log = []\<rparr>"


text \<open>A post of the semaphore is good for one pass, and a pass sends at most 2048 bytes: with \<open>k\<close> posts and as many
  passes as one likes, what is in the buffer beyond that stays there until the next byte or timer interrupt.\<close>

theorem tail_stays_behind:
  assumes "uart_ok (p_uart p)" "atMode (p_uart p) = 1" "p_lock p = None" "0 \<le> fd" "\<forall>e\<in>set es. stays fd e"
  shows "\<exists>q. path_run (map Pass es) p = Some (q, [])
    \<and> contents (ring_of q) = drop (2048 * min (length es) (sendSwitchSem (p_uart p))) (contents (ring_of p))"
proof -
  have "path_ok p" using assms(1-3) by (simp add: path_ok_def)
  then show ?thesis using assms(3,5)
  proof (induction es arbitrary: p)
    case (Cons e es)
    obtain q where q: "pass_step e p = Some q" "path_ok q" "p_lock q = None"
      "sendSwitchSem (p_uart q) = sendSwitchSem (p_uart p) - 1"
      "contents (ring_of q) = (if sendSwitchSem (p_uart p) = 0 then contents (ring_of p) else drop 2048 (contents (ring_of p)))"
      using pass_step_ok [OF Cons.prems(1,2) assms(4), of e] Cons.prems(3) by (auto split: if_splits)
    show ?case using Cons.IH [OF q(2,3)] q Cons.prems(3)
      by (cases "sendSwitchSem (p_uart p)") (auto simp: min_def algebra_simps)
  qed simp
qed

end
